(* ===== verification/Couch_Prelude.thy ===== *)
theory Couch_Prelude
  imports Main "HOL-Library.Word" "HOL-Library.Sublist"
begin

text \<open>
  The types, the error monad and the generic lemmas that every theory of the development
  shares.

  \<^item> \<open>byte\<close>, \<open>u16\<close>, \<open>u32\<close>, \<open>u64\<close>: the C integer types the storage code computes with.
  \<^item> \<open>sized_buf\<close>: a C buffer together with its size, as the list of its bytes.
  \<^item> \<open>couchstore_error_t\<close>: the error codes of
    \<^verbatim>\<open>couchstore/include/libcouchstore/error.h\<close>; \<open>fault\<close> adds the two ways in
    which a run can leave the C semantics: an access to memory that is not there (past the end
    of a buffer, or through a null pointer) and a loop that the
    model stopped because its fuel ran out.
  \<^item> \<open>('s, 'a) cmd\<close>: a piece of C code over a state \<open>'s\<close>, which returns a value or a fault
    and always a state, because C code that reports an error has still changed its state.
  \<^item> \<open>hoare P m Q E\<close>: started in a state satisfying \<open>P\<close>, \<open>m\<close> returns a value and a state
    satisfying \<open>Q\<close>, or a fault and a state satisfying \<open>E\<close>.
\<close>

unbundle bit_operations_syntax

section \<open>Machine types and buffers\<close>

type_synonym byte = "8 word"
type_synonym u16 = "16 word"
type_synonym u32 = "32 word"
type_synonym u64 = "64 word"
type_synonym sized_buf = "byte list"

section \<open>Error codes\<close>

datatype couchstore_error_t =
    COUCHSTORE_ERROR_OPEN_FILE
  | COUCHSTORE_ERROR_CORRUPT
  | COUCHSTORE_ERROR_ALLOC_FAIL
  | COUCHSTORE_ERROR_READ
  | COUCHSTORE_ERROR_DOC_NOT_FOUND
  | COUCHSTORE_ERROR_NO_HEADER
  | COUCHSTORE_ERROR_WRITE
  | COUCHSTORE_ERROR_HEADER_VERSION
  | COUCHSTORE_ERROR_CHECKSUM_FAIL
  | COUCHSTORE_ERROR_INVALID_ARGUMENTS
  | COUCHSTORE_ERROR_NO_SUCH_FILE
  | COUCHSTORE_ERROR_CANCEL
  | COUCHSTORE_ERROR_REDUCTION_TOO_LARGE
  | COUCHSTORE_ERROR_REDUCER_FAILURE
  | COUCHSTORE_ERROR_FILE_CLOSED
  | COUCHSTORE_ERROR_DB_NO_LONGER_VALID

datatype fault = Err couchstore_error_t | InvalidAccess | OutOfFuel

section \<open>Commands: state, value or fault\<close>

type_synonym ('s, 'a) cmd = "'s \<Rightarrow> (fault + 'a) \<times> 's"

definition returnE :: "'a \<Rightarrow> ('s, 'a) cmd" where
  "returnE a = (\<lambda>s. (Inr a, s))"

definition throwE :: "fault \<Rightarrow> ('s, 'a) cmd" where
  "throwE e = (\<lambda>s. (Inl e, s))"

definition bindE :: "('s, 'a) cmd \<Rightarrow> ('a \<Rightarrow> ('s, 'b) cmd) \<Rightarrow> ('s, 'b) cmd" where
  "bindE m f = (\<lambda>s. case m s of (Inl e, s') \<Rightarrow> (Inl e, s') | (Inr a, s') \<Rightarrow> f a s')"

text \<open>
  \<open>ignoreE m\<close> is a call whose return code the C code drops: a reported error is lost, the
  effect on the state stays.
\<close>

definition ignoreE :: "('s, 'a) cmd \<Rightarrow> ('s, unit) cmd" where
  "ignoreE m = (\<lambda>s. case m s of
       (Inl (Err e), s') \<Rightarrow> (Inr (), s')
     | (Inl InvalidAccess, s') \<Rightarrow> (Inl InvalidAccess, s')
     | (Inl OutOfFuel, s') \<Rightarrow> (Inl OutOfFuel, s')
     | (Inr a, s') \<Rightarrow> (Inr (), s'))"

definition getE :: "('s \<Rightarrow> 'a) \<Rightarrow> ('s, 'a) cmd" where
  "getE f = (\<lambda>s. (Inr (f s), s))"

definition modifyE :: "('s \<Rightarrow> 's) \<Rightarrow> ('s, unit) cmd" where
  "modifyE f = (\<lambda>s. (Inr (), f s))"

definition unlessE :: "bool \<Rightarrow> couchstore_error_t \<Rightarrow> ('s, unit) cmd" where
  "unlessE c e = (if c then returnE () else throwE (Err e))"

text \<open>\<open>zoomE g p m\<close> runs \<open>m\<close> on the part of the state that \<open>g\<close> reads and \<open>p\<close> writes back.\<close>

definition zoomE :: "('s \<Rightarrow> 't) \<Rightarrow> ('t \<Rightarrow> 's \<Rightarrow> 's) \<Rightarrow> ('t, 'a) cmd \<Rightarrow> ('s, 'a) cmd" where
  "zoomE g p m = (\<lambda>s. case m (g s) of (r, t) \<Rightarrow> (r, p t s))"

lemmas cmd_defs = returnE_def throwE_def bindE_def ignoreE_def getE_def modifyE_def
  unlessE_def zoomE_def

lemma bindE_returnE [simp]: "bindE (returnE a) f = f a"
  by (simp add: cmd_defs)

lemma bindE_throwE [simp]: "bindE (throwE e) f = throwE e"
  by (simp add: cmd_defs)

lemma bindE_assoc: "bindE (bindE m f) g = bindE m (\<lambda>x. bindE (f x) g)"
  by (auto simp: bindE_def split: prod.splits sum.splits)

lemma bindE_InrD:
  assumes "bindE m f s = (Inr b, s')"
  obtains a t where "m s = (Inr a, t)" and "f a t = (Inr b, s')"
  using assms by (auto simp: bindE_def split: prod.splits sum.splits)

lemma bindE_Inr: "m s = (Inr a, t) \<Longrightarrow> bindE m f s = f a t"
  by (simp add: bindE_def)

lemma bindE_Inl: "m s = (Inl e, t) \<Longrightarrow> bindE m f s = (Inl e, t)"
  by (simp add: bindE_def)

lemma bindE_getE [simp]: "bindE (getE g) f s = f (g s) s"
  by (simp add: cmd_defs)

lemma bindE_modifyE [simp]: "bindE (modifyE g) f s = f () (g s)"
  by (simp add: cmd_defs)

lemma returnE_app [simp]: "returnE a s = (Inr a, s)"
  by (simp add: returnE_def)

lemma throwE_app [simp]: "throwE e s = (Inl e, s)"
  by (simp add: throwE_def)

text \<open>The simplifier eta-contracts the two rules above; these are their companions.\<close>

lemma bindE_Pair [simp]: "bindE (Pair (Inr a)) f = f a" "bindE (Pair (Inl e)) f = Pair (Inl e)"
  by (simp_all add: bindE_def fun_eq_iff)

lemma getE_app [simp]: "getE g s = (Inr (g s), s)"
  by (simp add: getE_def)

lemma modifyE_app [simp]: "modifyE g s = (Inr (), g s)"
  by (simp add: modifyE_def)

lemma unlessE_True [simp]: "unlessE True e = returnE ()"
  by (simp add: unlessE_def)

lemma unlessE_False [simp]: "unlessE False e = throwE (Err e)"
  by (simp add: unlessE_def)

section \<open>Hoare triples over commands\<close>

definition hoare ::
  "('s \<Rightarrow> bool) \<Rightarrow> ('s, 'a) cmd \<Rightarrow> ('a \<Rightarrow> 's \<Rightarrow> bool) \<Rightarrow> (fault \<Rightarrow> 's \<Rightarrow> bool) \<Rightarrow> bool" where
  "hoare P m Q E \<longleftrightarrow>
     (\<forall>s. P s \<longrightarrow> (case m s of (Inl e, s') \<Rightarrow> E e s' | (Inr a, s') \<Rightarrow> Q a s'))"

named_theorems hoare_rules \<open>triples of the commands of the development\<close>

lemma hoareI:
  assumes "\<And>s a s'. P s \<Longrightarrow> m s = (Inr a, s') \<Longrightarrow> Q a s'"
    and "\<And>s e s'. P s \<Longrightarrow> m s = (Inl e, s') \<Longrightarrow> E e s'"
  shows "hoare P m Q E"
  using assms by (auto simp: hoare_def split: prod.split sum.split)

lemma hoare_InrD: "hoare P m Q E \<Longrightarrow> P s \<Longrightarrow> m s = (Inr a, s') \<Longrightarrow> Q a s'"
  by (auto simp: hoare_def)

lemma hoare_InlD: "hoare P m Q E \<Longrightarrow> P s \<Longrightarrow> m s = (Inl e, s') \<Longrightarrow> E e s'"
  by (auto simp: hoare_def)

lemma hoare_returnE: "(\<And>s. P s \<Longrightarrow> Q a s) \<Longrightarrow> hoare P (returnE a) Q E"
  by (simp add: hoare_def)

lemma hoare_throwE: "(\<And>s. P s \<Longrightarrow> E e s) \<Longrightarrow> hoare P (throwE e) Q E"
  by (simp add: hoare_def)

lemma hoare_bindE:
  assumes "hoare P m R E" and "\<And>a. hoare (R a) (f a) Q E"
  shows "hoare P (bindE m f) Q E"
proof (rule hoareI)
  fix s b s' assume P: "P s" and run: "bindE m f s = (Inr b, s')"
  from run obtain a t where "m s = (Inr a, t)" and "f a t = (Inr b, s')"
    by (rule bindE_InrD)
  with P assms show "Q b s'" by (meson hoare_InrD)
next
  fix s e s' assume P: "P s" and run: "bindE m f s = (Inl e, s')"
  show "E e s'"
  proof (cases "m s")
    case (Pair r t)
    with P run assms show ?thesis
      by (cases r) (auto simp: bindE_def dest: hoare_InlD hoare_InrD)
  qed
qed

text \<open>The same for a first command that keeps \<open>P\<close> and whose result satisfies \<open>R\<close>.\<close>

lemma hoare_bindE_keep:
  assumes "hoare P m (\<lambda>a s. P s \<and> R a) E" and "\<And>a. R a \<Longrightarrow> hoare P (f a) Q E"
  shows "hoare P (bindE m f) Q E"
proof (rule hoare_bindE [OF assms(1)])
  fix a show "hoare (\<lambda>s. P s \<and> R a) (f a) Q E"
    using assms(2) [of a] by (cases "R a") (auto simp: hoare_def)
qed

text \<open>Total correctness: no fault at all.\<close>

abbreviation succeeds :: "('s \<Rightarrow> bool) \<Rightarrow> ('s, 'a) cmd \<Rightarrow> ('a \<Rightarrow> 's \<Rightarrow> bool) \<Rightarrow> bool" where
  "succeeds P m Q \<equiv> hoare P m Q (\<lambda>_ _. False)"

lemma succeedsI: "(\<And>s. P s \<Longrightarrow> \<exists>a s'. m s = (Inr a, s') \<and> Q a s') \<Longrightarrow> succeeds P m Q"
  by (fastforce simp: hoare_def)

lemma succeedsD: "succeeds P m Q \<Longrightarrow> P s \<Longrightarrow> \<exists>a s'. m s = (Inr a, s') \<and> Q a s'"
  by (cases "m s"; cases "fst (m s)") (auto simp: hoare_def)

lemma succeedsE:
  assumes "succeeds P m Q" and "P s"
  obtains a s' where "m s = (Inr a, s')" and "Q a s'"
  using assms by (cases "m s"; cases "fst (m s)") (auto simp: hoare_def)

lemma hoare_getE: "hoare P (getE f) (\<lambda>a s. P s \<and> a = f s) E"
  by (simp add: hoare_def)

lemma hoare_modifyE: "(\<And>s. P s \<Longrightarrow> Q () (f s)) \<Longrightarrow> hoare P (modifyE f) Q E"
  by (simp add: hoare_def)

lemma hoare_unlessE:
  "(\<And>s. P s \<Longrightarrow> \<not> c \<Longrightarrow> E (Err e) s) \<Longrightarrow> hoare P (unlessE c e) (\<lambda>_ s. P s \<and> c) E"
  by (simp add: hoare_def unlessE_def)

lemma hoare_conseq:
  assumes "hoare P' m Q' E'" and "\<And>s. P s \<Longrightarrow> P' s"
    and "\<And>a s. Q' a s \<Longrightarrow> Q a s" and "\<And>e s. E' e s \<Longrightarrow> E e s"
  shows "hoare P m Q E"
  by (rule hoareI) (blast intro: assms(2-4) hoare_InrD [OF assms(1)] hoare_InlD [OF assms(1)])+

lemma hoare_if:
  assumes "c \<Longrightarrow> hoare P m Q E" and "\<not> c \<Longrightarrow> hoare P n Q E"
  shows "hoare P (if c then m else n) Q E"
  using assms by simp

lemma hoare_ignoreE:
  assumes "hoare P m (\<lambda>_. Q) (\<lambda>e s. case e of Err _ \<Rightarrow> Q s | InvalidAccess \<Rightarrow> E e s | OutOfFuel \<Rightarrow> E e s)"
  shows "hoare P (ignoreE m) (\<lambda>_. Q) E"
  using assms
  by (force simp: hoare_def ignoreE_def split: prod.splits sum.splits fault.splits)

lemma hoare_zoomE:
  assumes "\<And>s. P s \<Longrightarrow> hoare (\<lambda>t. t = g s) m (\<lambda>a t. Q a (p t s)) (\<lambda>e t. E e (p t s))"
  shows "hoare P (zoomE g p m) Q E"
  using assms
  by (fastforce simp: hoare_def zoomE_def split: prod.splits sum.splits)

section \<open>Words\<close>

lemma take_bit_word_id: "unat (v :: 'a::len word) < 2 ^ n \<Longrightarrow> take_bit n v = v"
  by (metis take_bit_nat_eq_self unsigned_take_bit_eq word_unat_eq_iff)

lemma unat_less_u64: "unat (w :: u64) < 2 ^ 64"
  using unsigned_less [of w] by simp

lemma unat_less_u32: "unat (w :: u32) < 2 ^ 32"
  using unsigned_less [of w] by simp

lemma unat_less_byte: "unat (w :: byte) < 2 ^ 8"
  using unsigned_less [of w] by simp

lemma xor_right_cancel [simp]: "a XOR c = b XOR c \<longleftrightarrow> a = (b :: 'a::len word)"
proof
  assume "a XOR c = b XOR c"
  then have "(a XOR c) XOR c = (b XOR c) XOR c" by simp
  then show "a = b" by (simp add: xor.assoc)
qed simp

lemma xor_left_cancel [simp]: "c XOR a = c XOR b \<longleftrightarrow> a = (b :: 'a::len word)"
  using xor_right_cancel [of a c b] by (simp only: xor.commute)

section \<open>Lists\<close>

text \<open>
  \<open>write_at c off bs\<close> is the content of a file after \<open>bs\<close> has been written at offset
  \<open>off\<close>: what was there is overwritten, a gap past the old end reads as zeros, and an empty
  write changes nothing.
\<close>

definition write_at :: "byte list \<Rightarrow> nat \<Rightarrow> byte list \<Rightarrow> byte list" where
  "write_at c off bs =
     (if bs = [] then c
      else take off c @ replicate (off - length c) 0 @ bs @ drop (off + length bs) c)"

lemma write_at_Nil [simp]: "write_at c off [] = c"
  by (simp add: write_at_def)

lemma length_write_at:
  "length (write_at c off bs) = (if bs = [] then length c else max (length c) (off + length bs))"
  by (auto simp: write_at_def max_def)

lemma take_write_at: "n \<le> off \<Longrightarrow> n \<le> length c \<Longrightarrow> take n (write_at c off bs) = take n c"
  by (simp add: write_at_def min_def)

lemma nth_write_at:
  assumes "i < length (write_at c off bs)"
  shows "write_at c off bs ! i =
    (if off \<le> i \<and> i < off + length bs then bs ! (i - off) else if i < length c then c ! i else 0)"
  using assms
  by (auto simp: write_at_def nth_append min_def split: if_splits)

lemma write_at_append:
  "write_at (write_at c off as) (off + length as) bs = write_at c off (as @ bs)"
proof (rule nth_equalityI)
  show "length (write_at (write_at c off as) (off + length as) bs) = length (write_at c off (as @ bs))"
    by (auto simp: length_write_at)
next
  fix i assume i: "i < length (write_at (write_at c off as) (off + length as) bs)"
  moreover from i have "i < length (write_at c off (as @ bs))"
    by (auto simp: length_write_at split: if_splits)
  ultimately show
    "write_at (write_at c off as) (off + length as) bs ! i = write_at c off (as @ bs) ! i"
    by (auto simp: nth_write_at nth_append length_write_at split: if_splits)
qed

lemma take_drop_write_at:
  "take (length bs) (drop off (write_at c off bs)) = bs"
  by (auto simp: write_at_def)

lemma prefix_take_drop:
  assumes "prefix bs (take n (drop off c))"
  shows "bs = take (length bs) (drop off c)" and "length bs \<le> n"
    and "bs \<noteq> [] \<Longrightarrow> off + length bs \<le> length c"
proof -
  obtain zs where zs: "take n (drop off c) = bs @ zs" using assms by (auto simp: prefix_def)
  then have len: "length bs \<le> n" "length bs \<le> length c - off"
    by (metis length_append length_take le_add1 min.bounded_iff le_trans length_drop)+
  then show "length bs \<le> n" "bs \<noteq> [] \<Longrightarrow> off + length bs \<le> length c"
    by (cases bs; simp)+
  have "take (length bs) (take n (drop off c)) = bs" using zs by simp
  then show "bs = take (length bs) (drop off c)" using len(1) by (simp add: min_absorb1)
qed

lemma foldl_append_concat: "foldl (\<lambda>acc x. acc @ f x) a xs = a @ concat (map f xs)"
  by (induction xs arbitrary: a) auto

end
