(* ===== verification/Bitfield.thy ===== *)
theory Bitfield
  imports Couch_Prelude
begin

text \<open>
  Model of \<^verbatim>\<open>couchstore/src/bitfield.c\<close> and \<^verbatim>\<open>bitfield.h\<close>: the packed big-endian integers
  of 1 to 8 bytes that every on-disk structure of couchstore is made of.

  The C code moves integers through memory with \<open>memcpy\<close> after a byte-order flip, so the model
  starts from memory images: \<open>be_bytes n w\<close> is the memory image of an \<open>n\<close>-byte integer in
  network order (what \<open>htons\<close>, \<open>htonl\<close> and \<open>htonll\<close> produce), \<open>be_word\<close> reads such an image
  back (\<open>ntohs\<close>, \<open>ntohl\<close>, \<open>ntohll\<close>). The macros \<open>DECODE_RAW\<close> and \<open>ENCODE_RAW\<close> are the
  definitions \<open>DECODE_RAW\<close> and \<open>ENCODE_RAW\<close>, and each public function is one definition.

  The lemmas show the truncating round trip at every width, the exact bound below which it is
  the identity, that decoding determines the bytes, and that the byte order of two encoded
  integers is their numeric order.
\<close>

section \<open>Memory images in network byte order\<close>

primrec be_bytes :: "nat \<Rightarrow> 'a::len word \<Rightarrow> byte list" where
  "be_bytes 0 w = []"
| "be_bytes (Suc n) w = ucast (drop_bit (8 * n) w) # be_bytes n w"

definition be_nat :: "byte list \<Rightarrow> nat" where
  "be_nat bs = foldl (\<lambda>a b. a * 256 + unat b) 0 bs"

definition be_word :: "byte list \<Rightarrow> 'a::len word" where
  "be_word bs = word_of_nat (be_nat bs)"

section \<open>The raw integer types\<close>

text \<open>\<open>sz\<close> is \<open>sizeof(value)\<close>: the raw bytes fill the low end of a zeroed integer.\<close>

definition DECODE_RAW :: "nat \<Rightarrow> byte list \<Rightarrow> 'a::len word" where
  "DECODE_RAW sz raw = be_word (replicate (sz - length raw) 0 @ raw)"

text \<open>The low \<open>raw_size\<close> bytes of the flipped integer are copied out.\<close>

definition ENCODE_RAW :: "nat \<Rightarrow> nat \<Rightarrow> 'a::len word \<Rightarrow> byte list" where
  "ENCODE_RAW sz raw_size value = drop (sz - raw_size) (be_bytes sz value)"

definition couchstore_decode_raw08 :: "byte list \<Rightarrow> byte" where
  "couchstore_decode_raw08 raw = hd raw"

definition couchstore_decode_raw16 :: "byte list \<Rightarrow> u16" where
  "couchstore_decode_raw16 raw = DECODE_RAW 2 raw"

definition couchstore_decode_raw24p :: "byte list \<Rightarrow> u32" where
  "couchstore_decode_raw24p raw = DECODE_RAW 4 raw"

definition couchstore_decode_raw32 :: "byte list \<Rightarrow> u32" where
  "couchstore_decode_raw32 raw = DECODE_RAW 4 raw"

definition couchstore_decode_raw40p :: "byte list \<Rightarrow> u64" where
  "couchstore_decode_raw40p raw = DECODE_RAW 8 raw"

definition couchstore_decode_raw48p :: "byte list \<Rightarrow> u64" where
  "couchstore_decode_raw48p raw = DECODE_RAW 8 raw"

definition couchstore_decode_raw64 :: "byte list \<Rightarrow> u64" where
  "couchstore_decode_raw64 raw = DECODE_RAW 8 raw"

definition couchstore_encode_raw08 :: "byte \<Rightarrow> byte list" where
  "couchstore_encode_raw08 value = ENCODE_RAW 1 1 value"

definition couchstore_encode_raw16 :: "u16 \<Rightarrow> byte list" where
  "couchstore_encode_raw16 value = ENCODE_RAW 2 2 value"

definition couchstore_encode_raw24 :: "u32 \<Rightarrow> byte list" where
  "couchstore_encode_raw24 value = ENCODE_RAW 4 3 value"

definition couchstore_encode_raw32 :: "u32 \<Rightarrow> byte list" where
  "couchstore_encode_raw32 value = ENCODE_RAW 4 4 value"

definition couchstore_encode_raw40 :: "u64 \<Rightarrow> byte list" where
  "couchstore_encode_raw40 value = ENCODE_RAW 8 5 value"

definition couchstore_encode_raw48 :: "u64 \<Rightarrow> byte list" where
  "couchstore_encode_raw48 value = ENCODE_RAW 8 6 value"

definition couchstore_encode_raw64 :: "u64 \<Rightarrow> byte list" where
  "couchstore_encode_raw64 value = ENCODE_RAW 8 8 value"

lemmas raw_defs =
  couchstore_decode_raw08_def couchstore_decode_raw16_def couchstore_decode_raw24p_def
  couchstore_decode_raw32_def couchstore_decode_raw40p_def couchstore_decode_raw48p_def
  couchstore_decode_raw64_def couchstore_encode_raw08_def couchstore_encode_raw16_def
  couchstore_encode_raw24_def couchstore_encode_raw32_def couchstore_encode_raw40_def
  couchstore_encode_raw48_def couchstore_encode_raw64_def

section \<open>Memory images: lemmas\<close>

lemma length_be_bytes [simp]: "length (be_bytes n w) = n"
  by (induction n) auto

lemma foldl_be_nat: "foldl (\<lambda>a b. a * 256 + unat (b :: byte)) x bs = x * 256 ^ length bs + be_nat bs"
proof (induction bs arbitrary: x)
  case Nil
  then show ?case by (simp add: be_nat_def)
next
  case (Cons b bs)
  have "be_nat (b # bs) = unat b * 256 ^ length bs + be_nat bs"
    using Cons.IH [of "unat b"] by (simp add: be_nat_def)
  then show ?case
    using Cons.IH [of "x * 256 + unat b"] by (simp add: algebra_simps)
qed

lemma be_nat_Nil [simp]: "be_nat [] = 0"
  by (simp add: be_nat_def)

lemma be_nat_Cons: "be_nat (b # bs) = unat b * 256 ^ length bs + be_nat bs"
  using foldl_be_nat [of "unat b" bs] by (simp add: be_nat_def)

lemma be_nat_append: "be_nat (as @ bs) = be_nat as * 256 ^ length bs + be_nat bs"
  by (induction as) (auto simp: be_nat_Cons algebra_simps power_add)

lemma be_nat_zeros [simp]: "be_nat (replicate n 0) = 0"
  by (induction n) (auto simp: be_nat_Cons)

lemma be_nat_bound: "be_nat bs < 256 ^ length bs"
proof (induction bs)
  case (Cons b bs)
  have "unat b < 256" using unsigned_less [of b] by simp
  then have "Suc (unat b) * 256 ^ length bs \<le> 256 * 256 ^ length bs"
    by (intro mult_le_mono1) simp
  then show ?case using Cons.IH unfolding be_nat_Cons length_Cons power_Suc mult_Suc by linarith
qed simp

lemma be_nat_inject:
  "length as = length bs \<Longrightarrow> be_nat as = be_nat bs \<longleftrightarrow> as = bs"
proof (induction as bs rule: list_induct2)
  case (Cons a as b bs)
  let ?B = "256 ^ length bs :: nat"
  have eq: "x = y \<and> r = t" if "x * ?B + r = y * ?B + t" "r < ?B" "t < ?B" for x y r t :: nat
  proof -
    have "(r + x * ?B) div ?B = x" "(t + y * ?B) div ?B = y" using that by simp_all
    then have "x = y" using that(1) by (metis add.commute)
    then show ?thesis using that(1) by simp
  qed
  have "be_nat (a # as) = be_nat (b # bs) \<longleftrightarrow> unat a = unat b \<and> be_nat as = be_nat bs"
    using eq [of "unat a" "be_nat as" "unat b" "be_nat bs"] be_nat_bound [of as] be_nat_bound [of bs] Cons.hyps
    by (auto simp: be_nat_Cons)
  then show ?case using Cons.IH by (simp add: word_unat_eq_iff)
qed simp

lemma be_nat_be_bytes: "be_nat (be_bytes n w) = unat w mod 256 ^ n"
proof (induction n)
  case (Suc n)
  have "unat (ucast (drop_bit (8 * n) w) :: byte) = unat w div 256 ^ n mod 256"
    by (simp add: unsigned_ucast_eq unsigned_drop_bit_eq take_bit_eq_mod [where 'a = nat]
        drop_bit_eq_div [where 'a = nat] power_mult)
  then show ?case
    using Suc mod_mult2_eq [of "unat w" "256 ^ n" 256]
    by (simp add: be_nat_Cons mult.commute)
qed simp

lemma be_word_be_bytes: "be_word (be_bytes n w) = take_bit (8 * n) (w :: 'a::len word)"
proof -
  have "unat (take_bit (8 * n) w) = unat w mod 256 ^ n"
    by (simp add: unsigned_take_bit_eq take_bit_eq_mod [where 'a = nat] power_mult)
  then have "be_word (be_bytes n w) = (word_of_nat (unat (take_bit (8 * n) w)) :: 'a word)"
    by (simp only: be_word_def be_nat_be_bytes)
  then show ?thesis by simp
qed

lemma be_bytes_be_word:
  assumes "length bs = n" and "8 * n \<le> LENGTH('a::len)"
  shows "be_bytes n (be_word bs :: 'a word) = bs"
proof -
  have "be_nat bs < 2 ^ (8 * n)"
    using be_nat_bound [of bs] assms(1) by (simp add: power_mult)
  also have "\<dots> \<le> 2 ^ LENGTH('a)" using assms(2) by (simp add: power_increasing)
  finally have "unat (be_word bs :: 'a word) = be_nat bs"
    by (simp add: be_word_def unat_of_nat)
  then have "be_nat (be_bytes n (be_word bs :: 'a word)) = be_nat bs mod 256 ^ n"
    by (simp add: be_nat_be_bytes)
  also have "\<dots> = be_nat bs" using be_nat_bound [of bs] assms(1) by simp
  finally show ?thesis using be_nat_inject assms(1) by (metis length_be_bytes)
qed

lemma be_word_zeros [simp]: "be_word (replicate n 0 @ bs) = be_word bs"
  by (simp add: be_word_def be_nat_append)

lemma drop_be_bytes: "m \<le> n \<Longrightarrow> drop (n - m) (be_bytes n w) = be_bytes m w"
proof (induction n)
  case (Suc n)
  show ?case
  proof (cases "m = Suc n")
    case False
    then have "m \<le> n" using Suc.prems by simp
    then have "Suc n - m = Suc (n - m)" by simp
    then show ?thesis using Suc.IH \<open>m \<le> n\<close> by simp
  qed simp
qed simp

lemma ENCODE_RAW_be_bytes: "raw_size \<le> sz \<Longrightarrow> ENCODE_RAW sz raw_size w = be_bytes raw_size w"
  by (simp add: ENCODE_RAW_def drop_be_bytes)

lemma DECODE_RAW_be_word: "DECODE_RAW sz raw = be_word raw"
  by (simp add: DECODE_RAW_def)

lemma be_bytes_inject:
  assumes "unat v < 256 ^ n" and "unat w < 256 ^ n"
  shows "be_bytes n v = be_bytes n w \<longleftrightarrow> v = w"
  using assms by (metis be_nat_be_bytes mod_less word_unat_eq_iff)

text \<open>Byte-wise lexicographic order on images of one length is numeric order.\<close>

lemma be_nat_lexord:
  "length as = length bs \<Longrightarrow>
     be_nat as < be_nat bs \<longleftrightarrow> (as, bs) \<in> lexord {(x, y). x < y}"
proof (induction as bs rule: list_induct2)
  case (Cons a as b bs)
  let ?B = "256 ^ length bs :: nat"
  have r: "be_nat as < ?B" "be_nat bs < ?B"
    using be_nat_bound [of as] be_nat_bound [of bs] Cons.hyps by auto
  consider "a < b" | "a = b" | "b < a" by (rule linorder_cases)
  then show ?case
  proof cases
    case 1
    then have "Suc (unat a) \<le> unat b" by (simp add: word_less_nat_alt)
    then have "Suc (unat a) * ?B \<le> unat b * ?B" by (rule mult_le_mono1)
    then show ?thesis using 1 r Cons.hyps by (simp add: be_nat_Cons)
  next
    case 2
    then show ?thesis using Cons by (simp add: be_nat_Cons)
  next
    case 3
    then have "Suc (unat b) \<le> unat a" by (simp add: word_less_nat_alt)
    then have "Suc (unat b) * ?B \<le> unat a * ?B" by (rule mult_le_mono1)
    then show ?thesis using 3 r Cons.hyps by (auto simp: be_nat_Cons)
  qed
qed simp

section \<open>The public functions\<close>

lemma length_encode_raw [simp]:
  "length (couchstore_encode_raw08 a) = 1" "length (couchstore_encode_raw16 b) = 2"
  "length (couchstore_encode_raw24 c) = 3" "length (couchstore_encode_raw32 c) = 4"
  "length (couchstore_encode_raw40 d) = 5" "length (couchstore_encode_raw48 d) = 6"
  "length (couchstore_encode_raw64 d) = 8"
  by (simp_all add: raw_defs ENCODE_RAW_be_bytes)

lemma encode_raw48_be_bytes: "couchstore_encode_raw48 v = be_bytes 6 v"
  by (simp add: raw_defs ENCODE_RAW_be_bytes)

lemma decode_encode_raw08 [simp]: "couchstore_decode_raw08 (couchstore_encode_raw08 v) = v"
  by (simp add: raw_defs ENCODE_RAW_be_bytes flip: One_nat_def) (simp add: numeral_eq_Suc)

lemma decode_encode_raw16 [simp]: "couchstore_decode_raw16 (couchstore_encode_raw16 v) = v"
  by (simp add: raw_defs ENCODE_RAW_be_bytes DECODE_RAW_be_word be_word_be_bytes take_bit_word_eq_self)

lemma decode_encode_raw32 [simp]: "couchstore_decode_raw32 (couchstore_encode_raw32 v) = v"
  by (simp add: raw_defs ENCODE_RAW_be_bytes DECODE_RAW_be_word be_word_be_bytes take_bit_word_eq_self)

lemma decode_encode_raw64 [simp]: "couchstore_decode_raw64 (couchstore_encode_raw64 v) = v"
  by (simp add: raw_defs ENCODE_RAW_be_bytes DECODE_RAW_be_word be_word_be_bytes take_bit_word_eq_self)

lemma decode_encode_raw24_trunc:
  "couchstore_decode_raw24p (couchstore_encode_raw24 v) = take_bit 24 v"
  by (simp add: raw_defs ENCODE_RAW_be_bytes DECODE_RAW_be_word be_word_be_bytes)

lemma decode_encode_raw40_trunc:
  "couchstore_decode_raw40p (couchstore_encode_raw40 v) = take_bit 40 v"
  by (simp add: raw_defs ENCODE_RAW_be_bytes DECODE_RAW_be_word be_word_be_bytes)

lemma decode_encode_raw48_trunc:
  "couchstore_decode_raw48p (couchstore_encode_raw48 v) = take_bit 48 v"
  by (simp add: raw_defs ENCODE_RAW_be_bytes DECODE_RAW_be_word be_word_be_bytes)

lemma decode_encode_raw40 [simp]:
  "unat v < 2 ^ 40 \<Longrightarrow> couchstore_decode_raw40p (couchstore_encode_raw40 v) = v"
  by (simp add: decode_encode_raw40_trunc take_bit_word_id del: power_numeral)

lemma decode_encode_raw48 [simp]:
  "unat v < 2 ^ 48 \<Longrightarrow> couchstore_decode_raw48p (couchstore_encode_raw48 v) = v"
  by (simp add: decode_encode_raw48_trunc take_bit_word_id del: power_numeral)

lemma be_bytes_take_bit: "be_bytes n (take_bit (8 * n) w) = be_bytes n w"
proof -
  have "256 ^ n = (2 :: nat) ^ (8 * n)" by (simp add: power_mult)
  then show ?thesis
    by (intro be_nat_inject [THEN iffD1])
      (simp_all add: be_nat_be_bytes unsigned_take_bit_eq take_bit_eq_mod [of _ "unat w"])
qed

lemma encode_raw40_take_bit [simp]: "couchstore_encode_raw40 (take_bit 40 v) = couchstore_encode_raw40 v"
  using be_bytes_take_bit [of 5 v] by (simp add: raw_defs ENCODE_RAW_be_bytes)

lemma encode_raw48_take_bit [simp]: "couchstore_encode_raw48 (take_bit 48 v) = couchstore_encode_raw48 v"
  using be_bytes_take_bit [of 6 v] by (simp add: raw_defs ENCODE_RAW_be_bytes)

lemma encode_raw40_cong: "take_bit 40 v = take_bit 40 w \<Longrightarrow> couchstore_encode_raw40 v = couchstore_encode_raw40 w"
  by (metis encode_raw40_take_bit)

lemma encode_raw48_cong: "take_bit 48 v = take_bit 48 w \<Longrightarrow> couchstore_encode_raw48 v = couchstore_encode_raw48 w"
  by (metis encode_raw48_take_bit)

lemma unat_decode_raw48: "length raw = 6 \<Longrightarrow> unat (couchstore_decode_raw48p raw) = be_nat raw"
  using be_nat_bound [of raw]
  by (simp add: raw_defs DECODE_RAW_be_word be_word_def unat_of_nat)

lemma unat_decode_raw48_bound: "length raw = 6 \<Longrightarrow> unat (couchstore_decode_raw48p raw) < 2 ^ 48"
  using be_nat_bound [of raw] by (simp add: unat_decode_raw48)

lemma encode_decode_raw48:
  "length raw = 6 \<Longrightarrow> couchstore_encode_raw48 (couchstore_decode_raw48p raw) = raw"
  by (simp add: raw_defs ENCODE_RAW_be_bytes DECODE_RAW_be_word be_bytes_be_word)

text \<open>
  C10. Every raw integer type loses nothing but the bits beyond its own width: a value is read
  back from its packed big-endian form reduced modulo 2 to the number of bits stored.
\<close>

theorem raw_roundtrip_all_widths:
  "couchstore_decode_raw08 (couchstore_encode_raw08 a) = a \<and>
   couchstore_decode_raw16 (couchstore_encode_raw16 b) = b \<and>
   couchstore_decode_raw24p (couchstore_encode_raw24 c) = take_bit 24 c \<and>
   couchstore_decode_raw32 (couchstore_encode_raw32 c) = c \<and>
   couchstore_decode_raw40p (couchstore_encode_raw40 d) = take_bit 40 d \<and>
   couchstore_decode_raw48p (couchstore_encode_raw48 d) = take_bit 48 d \<and>
   couchstore_decode_raw64 (couchstore_encode_raw64 d) = d"
  by (simp add: decode_encode_raw24_trunc decode_encode_raw40_trunc decode_encode_raw48_trunc)

end
