(* ===== verification/Crc32.thy ===== *)
theory Crc32
  imports Couch_Prelude
begin

text \<open>
  Model of \<^verbatim>\<open>couchstore/src/crc32.c\<close>: the checksum stored with every chunk and header of a
  database file. \<open>crc32tab\<close> is the table of the source and \<open>hash_crc32\<close> its loop.

  The reference definition \<open>crc_bits\<close> processes one message bit per step with the reflected
  polynomial \<open>0xEDB88320\<close>. The lemmas show that the table-driven loop computes it, that one step
  is invertible, and that therefore two messages of one length that differ in a single byte
  never have the same checksum.
\<close>

section \<open>The table-driven checksum\<close>

definition crc32tab :: "u32 list" where
  "crc32tab =
    [0x00000000, 0x77073096, 0xee0e612c, 0x990951ba,
     0x076dc419, 0x706af48f, 0xe963a535, 0x9e6495a3,
     0x0edb8832, 0x79dcb8a4, 0xe0d5e91e, 0x97d2d988,
     0x09b64c2b, 0x7eb17cbd, 0xe7b82d07, 0x90bf1d91,
     0x1db71064, 0x6ab020f2, 0xf3b97148, 0x84be41de,
     0x1adad47d, 0x6ddde4eb, 0xf4d4b551, 0x83d385c7,
     0x136c9856, 0x646ba8c0, 0xfd62f97a, 0x8a65c9ec,
     0x14015c4f, 0x63066cd9, 0xfa0f3d63, 0x8d080df5,
     0x3b6e20c8, 0x4c69105e, 0xd56041e4, 0xa2677172,
     0x3c03e4d1, 0x4b04d447, 0xd20d85fd, 0xa50ab56b,
     0x35b5a8fa, 0x42b2986c, 0xdbbbc9d6, 0xacbcf940,
     0x32d86ce3, 0x45df5c75, 0xdcd60dcf, 0xabd13d59,
     0x26d930ac, 0x51de003a, 0xc8d75180, 0xbfd06116,
     0x21b4f4b5, 0x56b3c423, 0xcfba9599, 0xb8bda50f,
     0x2802b89e, 0x5f058808, 0xc60cd9b2, 0xb10be924,
     0x2f6f7c87, 0x58684c11, 0xc1611dab, 0xb6662d3d,
     0x76dc4190, 0x01db7106, 0x98d220bc, 0xefd5102a,
     0x71b18589, 0x06b6b51f, 0x9fbfe4a5, 0xe8b8d433,
     0x7807c9a2, 0x0f00f934, 0x9609a88e, 0xe10e9818,
     0x7f6a0dbb, 0x086d3d2d, 0x91646c97, 0xe6635c01,
     0x6b6b51f4, 0x1c6c6162, 0x856530d8, 0xf262004e,
     0x6c0695ed, 0x1b01a57b, 0x8208f4c1, 0xf50fc457,
     0x65b0d9c6, 0x12b7e950, 0x8bbeb8ea, 0xfcb9887c,
     0x62dd1ddf, 0x15da2d49, 0x8cd37cf3, 0xfbd44c65,
     0x4db26158, 0x3ab551ce, 0xa3bc0074, 0xd4bb30e2,
     0x4adfa541, 0x3dd895d7, 0xa4d1c46d, 0xd3d6f4fb,
     0x4369e96a, 0x346ed9fc, 0xad678846, 0xda60b8d0,
     0x44042d73, 0x33031de5, 0xaa0a4c5f, 0xdd0d7cc9,
     0x5005713c, 0x270241aa, 0xbe0b1010, 0xc90c2086,
     0x5768b525, 0x206f85b3, 0xb966d409, 0xce61e49f,
     0x5edef90e, 0x29d9c998, 0xb0d09822, 0xc7d7a8b4,
     0x59b33d17, 0x2eb40d81, 0xb7bd5c3b, 0xc0ba6cad,
     0xedb88320, 0x9abfb3b6, 0x03b6e20c, 0x74b1d29a,
     0xead54739, 0x9dd277af, 0x04db2615, 0x73dc1683,
     0xe3630b12, 0x94643b84, 0x0d6d6a3e, 0x7a6a5aa8,
     0xe40ecf0b, 0x9309ff9d, 0x0a00ae27, 0x7d079eb1,
     0xf00f9344, 0x8708a3d2, 0x1e01f268, 0x6906c2fe,
     0xf762575d, 0x806567cb, 0x196c3671, 0x6e6b06e7,
     0xfed41b76, 0x89d32be0, 0x10da7a5a, 0x67dd4acc,
     0xf9b9df6f, 0x8ebeeff9, 0x17b7be43, 0x60b08ed5,
     0xd6d6a3e8, 0xa1d1937e, 0x38d8c2c4, 0x4fdff252,
     0xd1bb67f1, 0xa6bc5767, 0x3fb506dd, 0x48b2364b,
     0xd80d2bda, 0xaf0a1b4c, 0x36034af6, 0x41047a60,
     0xdf60efc3, 0xa867df55, 0x316e8eef, 0x4669be79,
     0xcb61b38c, 0xbc66831a, 0x256fd2a0, 0x5268e236,
     0xcc0c7795, 0xbb0b4703, 0x220216b9, 0x5505262f,
     0xc5ba3bbe, 0xb2bd0b28, 0x2bb45a92, 0x5cb36a04,
     0xc2d7ffa7, 0xb5d0cf31, 0x2cd99e8b, 0x5bdeae1d,
     0x9b64c2b0, 0xec63f226, 0x756aa39c, 0x026d930a,
     0x9c0906a9, 0xeb0e363f, 0x72076785, 0x05005713,
     0x95bf4a82, 0xe2b87a14, 0x7bb12bae, 0x0cb61b38,
     0x92d28e9b, 0xe5d5be0d, 0x7cdcefb7, 0x0bdbdf21,
     0x86d3d2d4, 0xf1d4e242, 0x68ddb3f8, 0x1fda836e,
     0x81be16cd, 0xf6b9265b, 0x6fb077e1, 0x18b74777,
     0x88085ae6, 0xff0f6a70, 0x66063bca, 0x11010b5c,
     0x8f659eff, 0xf862ae69, 0x616bffd3, 0x166ccf45,
     0xa00ae278, 0xd70dd2ee, 0x4e048354, 0x3903b3c2,
     0xa7672661, 0xd06016f7, 0x4969474d, 0x3e6e77db,
     0xaed16a4a, 0xd9d65adc, 0x40df0b66, 0x37d83bf0,
     0xa9bcae53, 0xdebb9ec5, 0x47b2cf7f, 0x30b5ffe9,
     0xbdbdf21c, 0xcabac28a, 0x53b39330, 0x24b4a3a6,
     0xbad03605, 0xcdd70693, 0x54de5729, 0x23d967bf,
     0xb3667a2e, 0xc4614ab8, 0x5d681b02, 0x2a6f2b94,
     0xb40bbe37, 0xc30c8ea1, 0x5a05df1b, 0x2d02ef8d]"

definition crc32_update :: "u32 \<Rightarrow> byte \<Rightarrow> u32" where
  "crc32_update crc key_x =
     drop_bit 8 crc XOR crc32tab ! unat ((ucast crc XOR scast key_x) AND (0xff :: u64))"

definition hash_crc32 :: "byte list \<Rightarrow> u32" where
  "hash_crc32 key = foldl crc32_update 0xFFFFFFFF key XOR 0xFFFFFFFF"

section \<open>The bit-serial reference\<close>

definition crc_bit :: "u32 \<Rightarrow> u32" where
  "crc_bit x = drop_bit 1 x XOR (if bit x 0 then 0xEDB88320 else 0)"

definition crc_byte :: "u32 \<Rightarrow> byte \<Rightarrow> u32" where
  "crc_byte crc b = (crc_bit ^^ 8) (crc XOR ucast b)"

definition crc_bits :: "byte list \<Rightarrow> u32" where
  "crc_bits key = foldl crc_byte (- 1) key XOR (- 1)"

section \<open>The two computations agree\<close>

lemma crc_bit_xor: "crc_bit (x XOR y) = crc_bit x XOR crc_bit y"
  by (auto simp: crc_bit_def drop_bit_xor bit_xor_iff ac_simps)

lemma crc_bits_xor: "(crc_bit ^^ n) (x XOR y) = (crc_bit ^^ n) x XOR (crc_bit ^^ n) y"
  by (induction n) (auto simp: crc_bit_xor)

lemma crc_bits_low_zero: "take_bit n y = 0 \<Longrightarrow> (crc_bit ^^ n) y = drop_bit n y"
proof (induction n arbitrary: y)
  case (Suc n)
  have "\<not> bit (take_bit (Suc n) y) 0" using Suc.prems by simp
  then have "\<not> bit y 0" by (simp add: bit_take_bit_iff)
  then have step: "crc_bit y = drop_bit 1 y" by (simp add: crc_bit_def)
  have "take_bit n (drop_bit 1 y) = drop_bit 1 (take_bit (Suc n) y)"
    by (simp add: take_bit_drop_bit)
  then have "take_bit n (drop_bit 1 y) = 0" using Suc.prems by simp
  then have "(crc_bit ^^ n) (drop_bit 1 y) = drop_bit n (drop_bit 1 y)" by (rule Suc.IH)
  then show ?case by (simp add: funpow_swap1 step)
qed simp

text \<open>
  The step is linear, so the table is determined by its entries at the powers of two: each
  power doubles the part of the table that is known.
\<close>

definition crc_entry :: "nat \<Rightarrow> u32" where
  "crc_entry i = (crc_bit ^^ 8) (word_of_nat i)"

definition crc_double :: "u32 list \<Rightarrow> u32 \<Rightarrow> u32 list" where
  "crc_double T c = T @ map (\<lambda>t. c XOR t) T"

lemma crc_entry_split: "i < 2 ^ k \<Longrightarrow> crc_entry (2 ^ k + i) = crc_entry (2 ^ k) XOR crc_entry i"
proof -
  assume i: "i < 2 ^ k"
  have "bit i n \<Longrightarrow> n < k" for n
    using i by (metis bit_take_bit_iff take_bit_nat_eq_self)
  then have "(2 ^ k :: nat) AND i = 0"
    by (intro bit_eqI) (auto simp: bit_and_iff bit_exp_iff)
  then have "2 ^ k + i = 2 ^ k XOR i" by (rule disjunctive_add_eq_xor)
  then show ?thesis by (simp only: crc_entry_def of_nat_xor_eq crc_bits_xor)
qed

lemma crc_double_entries:
  "crc_double (map crc_entry [0..<2 ^ k]) (crc_entry (2 ^ k)) = map crc_entry [0..<2 ^ Suc k]"
proof -
  have "[0..<2 ^ Suc k] = [0..<2 ^ k] @ map (\<lambda>i. 2 ^ k + i) [0..<2 ^ k]"
    using map_add_upt [of "2 ^ k" "2 ^ k"] upt_add_eq_append [of 0 "2 ^ k" "2 ^ k"]
    by (simp add: mult_2 add.commute)
  then show ?thesis by (simp add: crc_double_def crc_entry_split)
qed

lemma crc_double_foldl:
  "foldl crc_double (map crc_entry [0..<2 ^ k]) (map (\<lambda>j. crc_entry (2 ^ j)) [k..<k + n])
     = map crc_entry [0..<2 ^ (k + n)]"
proof (induction n)
  case (Suc n)
  then show ?case by (simp add: crc_double_entries)
qed simp

lemma crc_entry_powers:
  "map (\<lambda>j. crc_entry (2 ^ j)) [0..<8] =
     [0x77073096, 0xee0e612c, 0x076dc419, 0x0edb8832, 0x1db71064, 0x3b6e20c8, 0x76dc4190, 0xedb88320]"
  by code_simp

lemma crc32tab_double:
  "crc32tab = foldl crc_double [0]
     [0x77073096, 0xee0e612c, 0x076dc419, 0x0edb8832, 0x1db71064, 0x3b6e20c8, 0x76dc4190, 0xedb88320]"
  by (simp add: crc32tab_def crc_double_def)

lemma crc32tab_entries: "crc32tab = map crc_entry [0..<256]"
proof -
  have "crc_bit 0 = 0" by (simp add: crc_bit_def)
  then have "(crc_bit ^^ n) 0 = 0" for n by (induction n) simp_all
  then have "map crc_entry [0..<2 ^ 0] = [0]" by (simp add: crc_entry_def)
  then have "foldl crc_double [0] (map (\<lambda>j. crc_entry (2 ^ j)) [0..<0 + 8])
      = map crc_entry [0..<2 ^ (0 + 8)]"
    using crc_double_foldl [of 0 8] by (simp only:)
  then show ?thesis
    unfolding crc32tab_double add_0 crc_entry_powers by simp
qed

lemma crc32tab_nth: "i < 256 \<Longrightarrow> crc32tab ! i = (crc_bit ^^ 8) (word_of_nat i)"
  unfolding crc32tab_entries by (simp add: crc_entry_def del: upt_rec_numeral)

lemma crc32_index:
  fixes crc :: u32 and b :: byte
  shows "unat ((ucast crc XOR scast b) AND (0xff :: u64)) = unat (take_bit 8 (crc XOR ucast b))"
proof -
  have m: "(0xff :: u64) = mask 8" by (simp add: mask_eq_exp_minus_1)
  have "(ucast crc XOR scast b) AND (0xff :: u64) = ucast (take_bit 8 (crc XOR ucast b :: u32))"
    unfolding m
  proof (rule bit_word_eqI)
    fix n
    show "bit ((ucast crc XOR scast b) AND mask 8 :: u64) n =
        bit (ucast (take_bit 8 (crc XOR ucast b)) :: u64) n"
      by (cases "n < 8") (auto simp: bit_simps min.absorb2)
  qed
  moreover have "take_bit 64 (unat x) = unat x" for x :: u32
  proof -
    have "unat x < 2 ^ 32" using unsigned_less [of x] by simp
    then show ?thesis by (intro take_bit_nat_eq_self) simp
  qed
  ultimately show ?thesis by (simp add: unsigned_ucast_eq del: take_bit_xor)
qed

lemma crc32_update_crc_byte: "crc32_update crc b = crc_byte crc b"
proof -
  define y where "y = crc XOR ucast b"
  have split: "y = (y AND NOT (mask 8)) XOR take_bit 8 y"
    by (rule bit_word_eqI) (auto simp: bit_simps)
  have hi: "(crc_bit ^^ 8) (y AND NOT (mask 8)) = drop_bit 8 y"
  proof -
    have "take_bit 8 (y AND NOT (mask 8)) = 0" by (rule bit_word_eqI) (auto simp: bit_simps)
    then have "(crc_bit ^^ 8) (y AND NOT (mask 8)) = drop_bit 8 (y AND NOT (mask 8))"
      by (rule crc_bits_low_zero)
    also have "\<dots> = drop_bit 8 y"
      by (rule bit_word_eqI) (auto simp: bit_simps dest: bit_imp_le_length)
    finally show ?thesis .
  qed
  have top: "drop_bit 8 y = drop_bit 8 crc"
    unfolding y_def by (rule bit_word_eqI) (auto simp: bit_simps dest: bit_imp_le_length)
  have "unat (take_bit 8 y) < 256"
    by (simp add: unsigned_take_bit_eq take_bit_eq_mod [where 'a = nat])
  then have lo: "crc32tab ! unat (take_bit 8 y) = (crc_bit ^^ 8) (take_bit 8 y)"
    by (simp add: crc32tab_nth)
  have "crc_byte crc b = (crc_bit ^^ 8) ((y AND NOT (mask 8)) XOR take_bit 8 y)"
    unfolding crc_byte_def using split by (simp add: y_def)
  also have "\<dots> = drop_bit 8 crc XOR crc32tab ! unat (take_bit 8 y)"
    by (simp add: crc_bits_xor hi top lo)
  finally show ?thesis
    by (simp add: crc32_update_def crc32_index y_def)
qed

section \<open>One step is invertible\<close>

lemma crc_bit_top: "bit (crc_bit x) 31 = bit x 0"
  using bit_imp_le_length [of x 32] by (auto simp: crc_bit_def bit_simps)

lemma crc_bit_inject: "crc_bit x = crc_bit y \<longleftrightarrow> x = y"
proof
  assume eq: "crc_bit x = crc_bit y"
  have low: "bit x 0 = bit y 0" using crc_bit_top [of x] crc_bit_top [of y] eq by simp
  then have "drop_bit 1 x = drop_bit 1 y" using eq by (auto simp: crc_bit_def split: if_splits)
  then have high: "bit x (Suc n) = bit y (Suc n)" for n
    using bit_drop_bit_eq [of 1 x] bit_drop_bit_eq [of 1 y] by (simp add: fun_eq_iff)
  show "x = y"
  proof (rule bit_word_eqI)
    fix n show "bit x n = bit y n" using low high by (cases n) auto
  qed
qed simp

lemma crc_bits_inject: "(crc_bit ^^ n) x = (crc_bit ^^ n) y \<longleftrightarrow> x = y"
  by (induction n) (auto simp: crc_bit_inject)

lemma crc_byte_inject_state: "crc_byte c b = crc_byte d b \<longleftrightarrow> c = d"
  by (simp add: crc_byte_def crc_bits_inject)

lemma byte_u32_id: "ucast (ucast (z :: byte) :: u32) = z"
  by (rule ucast_up_ucast_id) (simp add: is_up)

lemma crc_byte_inject_byte: "crc_byte c x = crc_byte c y \<longleftrightarrow> x = y"
proof -
  have "(ucast x :: u32) = ucast y \<longleftrightarrow> x = y"
    by (metis byte_u32_id)
  then show ?thesis by (simp add: crc_byte_def crc_bits_inject)
qed

lemma crc_foldl_inject: "foldl crc_byte c bs = foldl crc_byte d bs \<longleftrightarrow> c = d"
  by (induction bs arbitrary: c d) (auto simp: crc_byte_inject_state)

text \<open>
  C9. The table-driven \<open>hash_crc32\<close> computes the bit-serial CRC-32 with the reflected polynomial
  \<open>0xEDB88320\<close>, all-ones preset and final complement, on every input.
\<close>

theorem hash_crc32_bit_serial: "hash_crc32 key = crc_bits key"
proof -
  have "foldl crc32_update c key = foldl crc_byte c key" for c
    by (induction key arbitrary: c) (auto simp: crc32_update_crc_byte)
  moreover have "(0xFFFFFFFF :: u32) = - 1" by simp
  ultimately show ?thesis by (simp only: hash_crc32_def crc_bits_def)
qed

text \<open>A change of one byte changes the checksum.\<close>

lemma hash_crc32_byte_inject:
  "hash_crc32 (pre @ x # post) = hash_crc32 (pre @ y # post) \<longleftrightarrow> x = y"
proof -
  have "foldl crc32_update c key = foldl crc_byte c key" for c key
    by (induction key arbitrary: c) (auto simp: crc32_update_crc_byte)
  then show ?thesis
    by (simp add: hash_crc32_def crc_foldl_inject crc_byte_inject_byte crc32_update_crc_byte)
qed

end
