(* ===== verification/Node_Types.thy ===== *)
theory Node_Types
  imports Bitfield
begin

text \<open>
  Model of \<^verbatim>\<open>couchstore/src/node_types.cc\<close> and \<^verbatim>\<open>node_types.h\<close>: the packed 12/28-bit key and value
  lengths, the key/value items that nodes are made of, and the tree roots stored in headers.

  A C pointer into a buffer is the list of the bytes from there to the end of the buffer.
  \<open>read_kv\<close> returns \<open>None\<close> when the C code would read past that end, which it never checks.
  The lemmas show which lengths survive the 5-byte encoding, and that items and roots are read
  back as they were written.
\<close>

section \<open>Data\<close>

record node_pointer =
  np_key :: sized_buf
  np_pointer :: u64
  np_reduce_value :: sized_buf
  np_subtreesize :: u64

section \<open>Packed key and value lengths\<close>

definition decode_kv_length :: "byte list \<Rightarrow> u32 \<times> u32" where
  "decode_kv_length raw_kv =
     (ucast (ucast (push_bit 4 (ucast (raw_kv ! 0) :: u32) OR
                    drop_bit 4 (ucast (raw_kv ! 1 AND 0xf0) :: u32)) :: u16),
      be_word (take 4 (drop 1 raw_kv)) AND 0x0FFFFFFF)"

definition encode_kv_length :: "u64 \<Rightarrow> u64 \<Rightarrow> byte list" where
  "encode_kv_length klen vlen =
     (let len = be_bytes 4 (ucast vlen :: u32)
      in [ucast (drop_bit 4 klen),
          len ! 0 OR ucast (push_bit 4 (klen AND 0xF)),
          len ! 1, len ! 2, len ! 3])"

definition sizeof_raw_kv_length :: nat where
  "sizeof_raw_kv_length = 5"

section \<open>Items\<close>

definition read_kv :: "byte list \<Rightarrow> (sized_buf \<times> sized_buf \<times> nat) option" where
  "read_kv buf =
     (if length buf < sizeof_raw_kv_length then None
      else let (klen, vlen) = decode_kv_length (take sizeof_raw_kv_length buf);
               after_len = drop sizeof_raw_kv_length buf
           in if length after_len < unat klen + unat vlen then None
              else Some (take (unat klen) after_len,
                         take (unat vlen) (drop (unat klen) after_len),
                         sizeof_raw_kv_length + unat klen + unat vlen))"

definition write_kv :: "sized_buf \<Rightarrow> sized_buf \<Rightarrow> byte list" where
  "write_kv key val =
     encode_kv_length (ucast (word_of_nat (length key) :: u32)) (ucast (word_of_nat (length val) :: u32))
       @ key @ val"

section \<open>Roots\<close>

text \<open>The size of \<open>raw_btree_root\<close>: two 48-bit fields.\<close>

definition sizeof_raw_btree_root :: nat where
  "sizeof_raw_btree_root = 12"

text \<open>
  The argument is the \<open>size\<close> bytes at \<open>buf\<close>. For fewer than 12 bytes the fixed fields would be
  read past the end of the data (the only caller refuses such sizes first).
\<close>

definition read_root :: "byte list \<Rightarrow> node_pointer option" where
  "read_root buf =
     (if buf = [] then None
      else Some \<lparr>np_key = [],
                 np_pointer = couchstore_decode_raw48p (take 6 buf),
                 np_reduce_value = drop sizeof_raw_btree_root buf,
                 np_subtreesize = couchstore_decode_raw48p (take 6 (drop 6 buf))\<rparr>)"

definition encode_root :: "node_pointer option \<Rightarrow> byte list" where
  "encode_root node =
     (case node of
        None \<Rightarrow> []
      | Some np \<Rightarrow> couchstore_encode_raw48 (np_pointer np)
                    @ couchstore_encode_raw48 (np_subtreesize np) @ np_reduce_value np)"

definition decode_sequence_key :: "sized_buf \<Rightarrow> u64" where
  "decode_sequence_key buf = couchstore_decode_raw48p (take 6 buf)"

section \<open>Packed lengths survive within their bounds\<close>

lemma be_bytes_4: "be_bytes 4 (w :: u32) =
    [ucast (drop_bit 24 w), ucast (drop_bit 16 w), ucast (drop_bit 8 w), ucast w]"
  by (simp add: eval_nat_numeral)

lemma length_encode_kv_length [simp]: "length (encode_kv_length k v) = 5"
  by (simp add: encode_kv_length_def Let_def)

lemma decode_encode_klen:
  assumes "unat k < 2 ^ 12" and "unat v < 2 ^ 28"
  shows "fst (decode_kv_length (encode_kv_length k v)) = ucast k"
proof (rule bit_word_eqI)
  fix n assume "n < LENGTH(32)"
  have k: "bit k i \<Longrightarrow> i < 12" for i
    using take_bit_word_id [OF assms(1)] by (metis bit_take_bit_iff)
  have v: "bit v i \<Longrightarrow> i < 28" for i
    using take_bit_word_id [OF assms(2)] by (metis bit_take_bit_iff)
  have f0: "(0xf0 :: byte) = push_bit 4 (mask 4)" and f: "(0xF :: u64) = mask 4"
    by (simp_all add: mask_eq_exp_minus_1 push_bit_eq_mult)
  show "bit (fst (decode_kv_length (encode_kv_length k v))) n = bit (ucast k :: u32) n"
    using k [of n] v [of "n + 28"] v [of "24 + (4 + n)"]
    by (cases "n < 4")
      (auto simp: decode_kv_length_def encode_kv_length_def Let_def be_bytes_4 f0 f bit_simps)
qed

lemma be_nat_4: "be_nat [a, b, c, d] = unat a * 2 ^ 24 + unat b * 2 ^ 16 + unat c * 2 ^ 8 + unat d"
  by (simp add: be_nat_Cons)

lemma unat_byte_or_high:
  assumes "unat (a :: byte) < 16"
  shows "unat (a OR ucast (push_bit 4 (k AND 0xF) :: u64)) = unat a + 16 * (unat k mod 16)"
proof -
  have f: "(0xF :: u64) = mask 4" by (simp add: mask_eq_exp_minus_1)
  have a: "bit a i \<Longrightarrow> i < 4" for i
    using take_bit_word_id [of a 4] assms by (metis bit_take_bit_iff numeral_2_eq_2 power_numeral
        Num.pow.simps Num.sqr.simps)
  have "a AND ucast (push_bit 4 (k AND 0xF) :: u64) = 0"
    by (rule bit_word_eqI) (auto simp: f bit_simps dest: a)
  then have "unat a AND unat (ucast (push_bit 4 (k AND 0xF) :: u64) :: byte) = 0"
    by (metis unsigned_0 unsigned_and_eq)
  then have "unat (a OR ucast (push_bit 4 (k AND 0xF) :: u64))
      = unat a + unat (ucast (push_bit 4 (k AND 0xF) :: u64) :: byte)"
    by (simp add: unsigned_or_eq disjunctive_add_eq_or)
  also have "unat (ucast (push_bit 4 (k AND 0xF) :: u64) :: byte) = 16 * (unat k mod 16)"
  proof -
    have "16 * (unat k mod 16) < 256" by simp
    then show ?thesis
      unfolding f take_bit_eq_mask [symmetric]
      by (simp add: unsigned_ucast_eq unsigned_push_bit_eq unsigned_take_bit_eq
          push_bit_eq_mult [where 'a = nat] take_bit_eq_mod [where 'a = nat] mod_mod_cancel)
  qed
  finally show ?thesis .
qed

lemma decode_encode_vlen:
  assumes "unat v < 2 ^ 28"
  shows "snd (decode_kv_length (encode_kv_length k v)) = ucast v"
proof -
  define w :: u32 where "w = ucast v"
  have w: "unat w = unat v"
    using assms by (simp add: w_def unsigned_ucast_eq take_bit_nat_eq_self)
  have top: "unat (ucast (drop_bit 24 w) :: byte) = unat w div 2 ^ 24"
  proof -
    have "unat w div 2 ^ 24 < 256" using assms w by (simp add: div_less_iff_less_mult)
    then show ?thesis
      by (simp add: unsigned_ucast_eq unsigned_drop_bit_eq drop_bit_eq_div [where 'a = nat]
          take_bit_eq_mod [where 'a = nat])
  qed
  have "unat (ucast (drop_bit 24 w) :: byte) < 16"
    using assms w by (simp add: top div_less_iff_less_mult)
  note or_high = unat_byte_or_high [OF this, of k]
  have img: "be_nat (take 4 (drop 1 (encode_kv_length k v))) = be_nat (be_bytes 4 w) + 2 ^ 28 * (unat k mod 16)"
    using or_high by (simp add: encode_kv_length_def Let_def be_bytes_4 be_nat_4 flip: w_def)
  also have "\<dots> = unat v + 2 ^ 28 * (unat k mod 16)"
    using assms w by (simp add: be_nat_be_bytes)
  finally have "be_nat (take 4 (drop 1 (encode_kv_length k v))) mod 2 ^ 28 = unat v"
    using assms by simp
  moreover have "(0x0FFFFFFF :: u32) = mask 28" by (simp add: mask_eq_exp_minus_1)
  then have "snd (decode_kv_length (encode_kv_length k v))
      = take_bit 28 (be_word (take 4 (drop 1 (encode_kv_length k v))))"
    by (simp only: decode_kv_length_def snd_conv take_bit_eq_mask)
  ultimately have "unat (snd (decode_kv_length (encode_kv_length k v))) = unat v"
    by (simp add: be_word_def unsigned_take_bit_eq unat_of_nat
        take_bit_eq_mod [where 'a = nat] mod_mod_cancel)
  then show ?thesis using w by (simp add: word_unat_eq_iff w_def)
qed

lemma decode_encode_kv_length:
  assumes "unat k < 2 ^ 12" and "unat v < 2 ^ 28"
  shows "decode_kv_length (encode_kv_length k v) = (ucast k, ucast v)"
  using decode_encode_klen [OF assms] decode_encode_vlen [OF assms(2)] by (metis prod.collapse)

section \<open>Items are read back as written\<close>

text \<open>The sizes the 5-byte length field can hold.\<close>

definition kv_fits :: "sized_buf \<Rightarrow> sized_buf \<Rightarrow> bool" where
  "kv_fits key val \<longleftrightarrow> length key < 2 ^ 12 \<and> length val < 2 ^ 28"

lemma length_write_kv [simp]: "length (write_kv key val) = 5 + length key + length val"
  by (simp add: write_kv_def)

lemma unat_u64_u32_of_nat: "n < 2 ^ 32 \<Longrightarrow> unat (ucast (word_of_nat n :: u32) :: u64) = n"
  by (simp add: unsigned_ucast_eq unat_of_nat take_bit_nat_eq_self)

lemma read_write_kv:
  assumes "kv_fits key val"
  shows "read_kv (write_kv key val @ rest) = Some (key, val, 5 + length key + length val)"
proof -
  let ?k = "ucast (word_of_nat (length key) :: u32) :: u64"
  let ?v = "ucast (word_of_nat (length val) :: u32) :: u64"
  have k: "unat ?k = length key" and v: "unat ?v = length val"
    using assms by (simp_all add: kv_fits_def unat_u64_u32_of_nat)
  have "decode_kv_length (encode_kv_length ?k ?v) = (ucast ?k, ucast ?v)"
    using assms k v by (intro decode_encode_kv_length) (simp_all add: kv_fits_def)
  moreover have "unat (ucast ?k :: u32) = length key" "unat (ucast ?v :: u32) = length val"
    using assms k v
    by (simp_all add: kv_fits_def unsigned_ucast_eq [of "_ :: u64"] take_bit_nat_eq_self)
  ultimately show ?thesis
    by (simp add: read_kv_def write_kv_def sizeof_raw_kv_length_def)
qed

lemma read_kv_Some:
  assumes "read_kv buf = Some (k, v, n)"
  shows "5 \<le> n \<and> n \<le> length buf \<and> n = 5 + length k + length v"
  using assms
  by (auto simp: read_kv_def sizeof_raw_kv_length_def Let_def split: if_splits prod.splits)

lemma length_encode_root:
  "length (encode_root node) = (case node of None \<Rightarrow> 0 | Some np \<Rightarrow> 12 + length (np_reduce_value np))"
  by (simp add: encode_root_def split: option.splits)

definition root_fits :: "node_pointer option \<Rightarrow> bool" where
  "root_fits node \<longleftrightarrow> (case node of None \<Rightarrow> True
     | Some np \<Rightarrow> unat (np_pointer np) < 2 ^ 48 \<and> unat (np_subtreesize np) < 2 ^ 48)"

lemma read_root_of_encode_root:
  assumes "root_fits node"
  shows "read_root (encode_root node) = map_option (np_key_update (\<lambda>_. [])) node"
proof -
  have "couchstore_encode_raw48 v \<noteq> []" for v
    using length_encode_raw(6) [of v] by (metis list.size(3) zero_neq_numeral)
  then show ?thesis
    using assms by (cases node) (simp_all add: read_root_def encode_root_def root_fits_def sizeof_raw_btree_root_def)
qed

text \<open>
  C11. A key/value item written into a node is read back exactly, and with the number of bytes it
  occupies, from any buffer that starts with it, as long as the key is shorter than 4096 bytes
  and the value shorter than 256 MB (the 12 and 28 bits of the packed length field).
\<close>

theorem read_kv_write_kv:
  assumes "length key < 2 ^ 12" and "length val < 2 ^ 28"
  shows "read_kv (write_kv key val @ rest) = Some (key, val, length (write_kv key val))"
  using read_write_kv [of key val rest] assms by (simp add: kv_fits_def)

theorem read_kv_write_kv_witness:
  "length ([107] :: byte list) < 2 ^ 12 \<and> length ([1, 2] :: byte list) < 2 ^ 28 \<and>
   read_kv (write_kv [107] [1, 2] @ [9]) = Some ([107], [1, 2], length (write_kv [107] [1, 2]))"
  using read_kv_write_kv [of "[107]" "[1, 2]" "[9]"] by simp

text \<open>
  C12. A tree root stored in a file header is read back as it was, but for its key, which headers
  do not store, whenever its position and subtree size fit in 48 bits.
\<close>

theorem read_root_encode_root:
  assumes "unat (np_pointer np) < 2 ^ 48" and "unat (np_subtreesize np) < 2 ^ 48"
  shows "read_root (encode_root (Some np)) = Some (np\<lparr>np_key := []\<rparr>)"
  using read_root_of_encode_root [of "Some np"] assms by (simp add: root_fits_def)

theorem read_root_encode_root_witness:
  "read_root (encode_root (Some \<lparr>np_key = [97], np_pointer = 4096, np_reduce_value = [1, 2, 3],
       np_subtreesize = 77\<rparr>)) =
     Some \<lparr>np_key = [], np_pointer = 4096, np_reduce_value = [1, 2, 3], np_subtreesize = 77\<rparr>"
  using read_root_encode_root [of "\<lparr>np_key = [97], np_pointer = 4096, np_reduce_value = [1, 2, 3],
       np_subtreesize = 77\<rparr>"] by simp

end
