(* ===== verification/Couch_Util.thy ===== *)
theory Couch_Util
  imports Node_Types
begin

text \<open>
  Model of \<^verbatim>\<open>couchstore/src/util.cc\<close>: the two key comparisons of the trees (document ids and
  sequence numbers) and the bump allocator \<open>fatbuf\<close> from which the save path takes its buffers.

  \<open>key_order\<close> is the interface through which the B-tree code uses a comparison function: a
  total preorder. It is interpreted for \<open>ebin_cmp\<close> and for \<open>seq_cmp\<close>.
\<close>

section \<open>Comparing keys\<close>

text \<open>\<open>memcmp\<close> on two blocks of one size: the difference of the first bytes that differ.\<close>

fun memcmp :: "byte list \<Rightarrow> byte list \<Rightarrow> int" where
  "memcmp (a # as) (b # bs) = (if a = b then memcmp as bs else uint a - uint b)"
| "memcmp _ _ = 0"

definition ebin_cmp :: "sized_buf \<Rightarrow> sized_buf \<Rightarrow> int" where
  "ebin_cmp e1 e2 =
     (let size = (if length e2 < length e1 then length e2 else length e1);
          cmp = memcmp (take size e1) (take size e2)
      in if cmp = 0
         then if size < length e2 then - 1
              else if size < length e1 then 1
              else cmp
         else cmp)"

definition seq_cmp :: "sized_buf \<Rightarrow> sized_buf \<Rightarrow> int" where
  "seq_cmp k1 k2 =
     (let e1val = decode_sequence_key k1; e2val = decode_sequence_key k2
      in if e1val = e2val then 0 else if e1val < e2val then - 1 else 1)"

section \<open>The interface of a key comparison\<close>

locale key_order =
  fixes cmp :: "sized_buf \<Rightarrow> sized_buf \<Rightarrow> int"
  assumes cmp_self: "cmp a a = 0"
    and cmp_neg_iff: "cmp a b < 0 \<longleftrightarrow> 0 < cmp b a"
    and cmp_trans: "cmp a b \<le> 0 \<Longrightarrow> cmp b c \<le> 0 \<Longrightarrow> cmp a c \<le> 0"
begin

lemma cmp_pos_iff: "0 < cmp a b \<longleftrightarrow> cmp b a < 0"
  by (simp add: cmp_neg_iff)

lemma cmp_zero_sym: "cmp a b = 0 \<longleftrightarrow> cmp b a = 0"
  using cmp_neg_iff [of a b] cmp_neg_iff [of b a] by linarith

lemma cmp_le_iff: "cmp a b \<le> 0 \<longleftrightarrow> 0 \<le> cmp b a"
  using cmp_neg_iff [of a b] cmp_neg_iff [of b a] by linarith

lemma cmp_less_le_trans: "cmp a b < 0 \<Longrightarrow> cmp b c \<le> 0 \<Longrightarrow> cmp a c < 0"
  using cmp_trans [of b c a] cmp_neg_iff [of a b] cmp_le_iff [of c a] by linarith

lemma cmp_le_less_trans: "cmp a b \<le> 0 \<Longrightarrow> cmp b c < 0 \<Longrightarrow> cmp a c < 0"
  using cmp_trans [of c a b] cmp_neg_iff [of b c] cmp_le_iff [of c a] by linarith

lemma cmp_less_trans: "cmp a b < 0 \<Longrightarrow> cmp b c < 0 \<Longrightarrow> cmp a c < 0"
  using cmp_less_le_trans [of a b c] by simp

lemma cmp_eq_trans: "cmp a b = 0 \<Longrightarrow> cmp b c = 0 \<Longrightarrow> cmp a c = 0"
  using cmp_trans [of a b c] cmp_trans [of c b a] cmp_zero_sym [of a b] cmp_zero_sym [of b c]
    cmp_le_iff [of c a]
  by linarith

lemma cmp_cong_left: "cmp a b = 0 \<Longrightarrow> cmp a c < 0 \<longleftrightarrow> cmp b c < 0"
  using cmp_le_less_trans [of a b c] cmp_le_less_trans [of b a c] cmp_zero_sym [of a b] by auto

end

section \<open>Document ids: byte-wise lexicographic order\<close>

lemma ebin_cmp_Nil_Nil [simp]: "ebin_cmp [] [] = 0"
  by (simp add: ebin_cmp_def)

lemma ebin_cmp_Nil_Cons [simp]: "ebin_cmp [] (b # bs) = - 1"
  by (simp add: ebin_cmp_def)

lemma ebin_cmp_Cons_Nil [simp]: "ebin_cmp (a # as) [] = 1"
  by (simp add: ebin_cmp_def)

lemma ebin_cmp_Cons_Cons [simp]:
  "ebin_cmp (a # as) (b # bs) = (if a = b then ebin_cmp as bs else uint a - uint b)"
proof -
  have "uint a - uint b \<noteq> 0" if "a \<noteq> b"
    using that by (simp add: word_uint_eq_iff)
  then show ?thesis by (auto simp: ebin_cmp_def Let_def)
qed

lemma ebin_cmp_zero: "ebin_cmp a b = 0 \<longleftrightarrow> a = b"
proof (induction a arbitrary: b)
  case Nil
  then show ?case by (cases b) auto
next
  case (Cons x a)
  then show ?case by (cases b) (auto simp: word_uint_eq_iff)
qed

lemma ebin_cmp_lexord: "ebin_cmp a b < 0 \<longleftrightarrow> (a, b) \<in> lexord {(x, y). x < y}"
proof (induction a arbitrary: b)
  case Nil
  then show ?case by (cases b) auto
next
  case (Cons x a)
  then show ?case by (cases b) (auto simp: word_less_def word_uint_eq_iff)
qed

lemma ebin_cmp_neg_iff: "ebin_cmp a b < 0 \<longleftrightarrow> 0 < ebin_cmp b a"
proof (induction a arbitrary: b)
  case Nil
  then show ?case by (cases b) auto
next
  case (Cons x a)
  then show ?case by (cases b) auto
qed

lemma ebin_cmp_trans_less: "ebin_cmp a b < 0 \<Longrightarrow> ebin_cmp b c < 0 \<Longrightarrow> ebin_cmp a c < 0"
  unfolding ebin_cmp_lexord by (rule lexord_trans) (auto simp: trans_def)

interpretation ebin: key_order ebin_cmp
proof unfold_locales
  fix a b c :: sized_buf
  show "ebin_cmp a a = 0" by (simp add: ebin_cmp_zero)
  show "ebin_cmp a b < 0 \<longleftrightarrow> 0 < ebin_cmp b a" by (rule ebin_cmp_neg_iff)
  assume "ebin_cmp a b \<le> 0" and "ebin_cmp b c \<le> 0"
  then show "ebin_cmp a c \<le> 0"
    using ebin_cmp_trans_less [of a b c] ebin_cmp_zero [of a b] ebin_cmp_zero [of b c]
    by (cases "ebin_cmp a b = 0"; cases "ebin_cmp b c = 0") auto
qed

section \<open>Sequence numbers: numeric order\<close>

interpretation seqo: key_order seq_cmp
  by unfold_locales (auto simp: seq_cmp_def Let_def split: if_splits)

lemma seq_cmp_zero: "seq_cmp a b = 0 \<longleftrightarrow> decode_sequence_key a = decode_sequence_key b"
  by (simp add: seq_cmp_def Let_def)

lemma seq_cmp_neg: "seq_cmp a b < 0 \<longleftrightarrow> decode_sequence_key a < decode_sequence_key b"
  by (simp add: seq_cmp_def Let_def)

lemma seq_cmp_encode:
  assumes "unat s < 2 ^ 48" and "unat t < 2 ^ 48"
  shows "seq_cmp (couchstore_encode_raw48 s) (couchstore_encode_raw48 t) < 0 \<longleftrightarrow> s < t"
  using assms by (simp add: seq_cmp_neg decode_sequence_key_def)

text \<open>
  C13. On the 6-byte keys of the by-sequence index, comparing the decoded sequence numbers
  (\<open>seq_cmp\<close>) and comparing the raw bytes (\<open>ebin_cmp\<close>) give the same order and the same
  equality: the packed big-endian form preserves numeric order.
\<close>

theorem seq_cmp_is_byte_order:
  assumes "length a = 6" and "length b = 6"
  shows "(seq_cmp a b < 0 \<longleftrightarrow> ebin_cmp a b < 0) \<and> (seq_cmp a b = 0 \<longleftrightarrow> ebin_cmp a b = 0)"
proof
  have "seq_cmp a b < 0 \<longleftrightarrow> be_nat a < be_nat b"
    using assms by (simp add: seq_cmp_neg decode_sequence_key_def word_less_nat_alt unat_decode_raw48)
  also have "\<dots> \<longleftrightarrow> ebin_cmp a b < 0"
    using assms by (simp add: be_nat_lexord ebin_cmp_lexord)
  finally show "seq_cmp a b < 0 \<longleftrightarrow> ebin_cmp a b < 0" .
  have "seq_cmp a b = 0 \<longleftrightarrow> be_nat a = be_nat b"
    using assms by (simp add: seq_cmp_zero decode_sequence_key_def word_unat_eq_iff unat_decode_raw48)
  then show "seq_cmp a b = 0 \<longleftrightarrow> ebin_cmp a b = 0"
    using assms by (simp add: be_nat_inject ebin_cmp_zero)
qed

theorem seq_cmp_is_byte_order_witness:
  "(seq_cmp [0, 0, 0, 0, 1, 0] [0, 0, 0, 0, 0, 255] < 0
      \<longleftrightarrow> ebin_cmp [0, 0, 0, 0, 1, 0] [0, 0, 0, 0, 0, 255] < 0) \<and>
   (seq_cmp [0, 0, 0, 0, 1, 0] [0, 0, 0, 0, 0, 255] = 0
      \<longleftrightarrow> ebin_cmp [0, 0, 0, 0, 1, 0] [0, 0, 0, 0, 0, 255] = 0)"
  using seq_cmp_is_byte_order [of "[0, 0, 0, 0, 1, 0]" "[0, 0, 0, 0, 0, 255]"] by simp

section \<open>The bump allocator\<close>

text \<open>
  \<open>fatbuf_alloc\<close> takes one block, \<open>fatbuf_get\<close> hands out consecutive parts of it. Sizes are
  \<open>size_t\<close>, so the bound check adds with wrap-around. The result of \<open>fatbuf_get\<close> is the offset of
  the part in the block (\<open>None\<close> for \<open>NULL\<close>); the argument \<open>mem\<close> of \<open>fatbuf_alloc\<close> says whether
  \<open>malloc\<close> returned memory.
\<close>

record fatbuf =
  fb_pos :: u64
  fb_size :: u64

definition fatbuf_alloc :: "bool \<Rightarrow> u64 \<Rightarrow> fatbuf option" where
  "fatbuf_alloc mem bytes = (if \<not> mem then None else Some \<lparr>fb_pos = 0, fb_size = bytes\<rparr>)"

definition fatbuf_get :: "fatbuf \<Rightarrow> u64 \<Rightarrow> u64 option \<times> fatbuf" where
  "fatbuf_get fb bytes =
     (if fb_size fb < fb_pos fb + bytes then (None, fb)
      else (Some (fb_pos fb), fb\<lparr>fb_pos := fb_pos fb + bytes\<rparr>))"

fun fatbuf_gets :: "fatbuf \<Rightarrow> u64 list \<Rightarrow> u64 option list" where
  "fatbuf_gets fb [] = []"
| "fatbuf_gets fb (n # ns) = (case fatbuf_get fb n of (r, fb') \<Rightarrow> r # fatbuf_gets fb' ns)"

lemma fatbuf_gets_offsets:
  assumes "unat (fb_pos fb) + sum_list (map unat ns) \<le> unat (fb_size fb)" and "i < length ns"
  shows "fatbuf_gets fb ns ! i =
    Some (fb_pos fb + word_of_nat (sum_list (map unat (take i ns))))"
  using assms
proof (induction ns arbitrary: fb i)
  case (Cons n ns)
  have "unat (fb_pos fb) + unat n < 2 ^ 64"
    using Cons.prems(1) unat_less_u64 [of "fb_size fb"] by simp
  then have add: "unat (fb_pos fb + n) = unat (fb_pos fb) + unat n"
    by (simp add: unat_word_ariths)
  then have get: "fatbuf_get fb n = (Some (fb_pos fb), fb\<lparr>fb_pos := fb_pos fb + n\<rparr>)"
    using Cons.prems(1) by (simp add: fatbuf_get_def word_less_nat_alt)
  show ?case
  proof (cases i)
    case 0
    then show ?thesis by (simp add: get)
  next
    case (Suc j)
    have "fatbuf_gets (fb\<lparr>fb_pos := fb_pos fb + n\<rparr>) ns ! j =
        Some (fb_pos fb + n + word_of_nat (sum_list (map unat (take j ns))))"
      using Cons.IH [of "fb\<lparr>fb_pos := fb_pos fb + n\<rparr>" j] Cons.prems Suc add by simp
    then show ?thesis by (simp add: get Suc add.assoc)
  qed
qed simp



end
