(* ===== verification/File_Ops.thy ===== *)
theory File_Ops
  imports Couch_Prelude
begin

text \<open>
  The file interface of couchstore, \<open>couch_file_ops\<close> of
  \<^verbatim>\<open>couchstore/include/libcouchstore/file_ops.h\<close>, and its default implementation
  \<^verbatim>\<open>couchstore/src/os.c\<close>.

  A handle carries the state of the environment behind it. For \<^verbatim>\<open>os.c\<close> that is an \<open>os_file\<close>: the
  content of the file, what \<open>fdatasync\<close> last made durable, and a script that fixes what the next
  system calls and allocations do (complete, transfer fewer bytes, be interrupted by a signal,
  fail with an error number). An empty script is an environment without disturbances; every
  theorem that does not say otherwise holds for every script. \<open>fo_malloc\<close> is the C library's
  allocator, seen as one more operation of the environment.

  \<open>file_backend\<close> is the contract the storage code relies on; it is interpreted for \<^verbatim>\<open>os.c\<close> here
  and for the buffering layer in theory \<open>Iobuffer\<close>.
\<close>

section \<open>The interface\<close>

record 'h couch_file_ops =
  fo_open :: "u32 \<Rightarrow> ('h, unit) cmd"
  fo_close :: "('h, unit) cmd"
  fo_pread :: "nat \<Rightarrow> nat \<Rightarrow> ('h, byte list) cmd"
  fo_pwrite :: "byte list \<Rightarrow> nat \<Rightarrow> ('h, nat) cmd"
  fo_goto_eof :: "('h, int) cmd"
  fo_sync :: "('h, unit) cmd"
  fo_malloc :: "('h, bool) cmd"

section \<open>The operating system\<close>

datatype io_event = Complete | Short nat | Interrupt | Failure nat

datatype 'a sysres = Ret 'a | Eintr | Errno nat

record os_file =
  os_content :: "byte list"
  os_synced :: "byte list"
  os_events :: "io_event list"
  os_allocs :: "bool list"
  os_errinfo :: nat

text \<open>The outcome of the next system call, and the script after it.\<close>

definition next_event :: "os_file \<Rightarrow> io_event \<times> os_file" where
  "next_event f = (case os_events f of
       [] \<Rightarrow> (Complete, f)
     | e # es \<Rightarrow> (e, f\<lparr>os_events := es\<rparr>))"

text \<open>A transfer of \<open>n\<close> bytes that is not complete still moves at least one of them.\<close>

definition transfer :: "io_event \<Rightarrow> nat \<Rightarrow> nat" where
  "transfer e n = (case e of Short k \<Rightarrow> min n (Suc k) | _ \<Rightarrow> n)"

definition pread :: "nat \<Rightarrow> nat \<Rightarrow> os_file \<Rightarrow> byte list sysres \<times> os_file" where
  "pread nbyte offset f =
     (case next_event f of (e, f') \<Rightarrow>
        (case e of
           Interrupt \<Rightarrow> (Eintr, f')
         | Failure n \<Rightarrow> (Errno n, f')
         | _ \<Rightarrow> (Ret (take (transfer e nbyte) (drop offset (os_content f'))), f')))"

definition pwrite :: "byte list \<Rightarrow> nat \<Rightarrow> os_file \<Rightarrow> nat sysres \<times> os_file" where
  "pwrite buf offset f =
     (case next_event f of (e, f') \<Rightarrow>
        (case e of
           Interrupt \<Rightarrow> (Eintr, f')
         | Failure n \<Rightarrow> (Errno n, f')
         | _ \<Rightarrow> (let n = transfer e (length buf)
                 in (Ret n, f'\<lparr>os_content := write_at (os_content f') offset (take n buf)\<rparr>))))"

definition lseek_end :: "os_file \<Rightarrow> nat sysres \<times> os_file" where
  "lseek_end f =
     (case next_event f of (e, f') \<Rightarrow>
        (case e of
           Interrupt \<Rightarrow> (Eintr, f')
         | Failure n \<Rightarrow> (Errno n, f')
         | _ \<Rightarrow> (Ret (length (os_content f')), f')))"

definition fdatasync :: "os_file \<Rightarrow> unit sysres \<times> os_file" where
  "fdatasync f =
     (case next_event f of (e, f') \<Rightarrow>
        (case e of
           Interrupt \<Rightarrow> (Eintr, f')
         | Failure n \<Rightarrow> (Errno n, f')
         | _ \<Rightarrow> (Ret (), f'\<lparr>os_synced := os_content f'\<rparr>)))"

text \<open>\<open>open\<close> and \<open>close\<close> move no data; whether the file exists is up to the script.\<close>

definition handle_call :: "os_file \<Rightarrow> unit sysres \<times> os_file" where
  "handle_call f =
     (case next_event f of (e, f') \<Rightarrow>
        (case e of Interrupt \<Rightarrow> (Eintr, f') | Failure n \<Rightarrow> (Errno n, f') | _ \<Rightarrow> (Ret (), f')))"

definition os_malloc :: "(os_file, bool) cmd" where
  "os_malloc f = (case os_allocs f of
       [] \<Rightarrow> (Inr True, f)
     | b # bs \<Rightarrow> (Inr b, f\<lparr>os_allocs := bs\<rparr>))"

section \<open>The default operations, \<^verbatim>\<open>os.c\<close>\<close>

definition save_errno :: "nat \<Rightarrow> os_file \<Rightarrow> os_file" where
  "save_errno errno f = f\<lparr>os_errinfo := errno\<rparr>"

text \<open>An interrupted call consumes an event of the script, so the retry loops end.\<close>

lemma next_event_shorter:
  "next_event f = (e, f') \<Longrightarrow> e \<noteq> Complete \<Longrightarrow> length (os_events f') < length (os_events f)"
  by (auto simp: next_event_def split: list.splits)

lemma pread_Eintr: "pread n off f = (Eintr, f') \<Longrightarrow> length (os_events f') < length (os_events f)"
  by (auto simp: pread_def Let_def intro: next_event_shorter split: prod.splits io_event.splits)

lemma pwrite_Eintr: "pwrite b off f = (Eintr, f') \<Longrightarrow> length (os_events f') < length (os_events f)"
  by (auto simp: pwrite_def Let_def intro: next_event_shorter split: prod.splits io_event.splits)

lemma fdatasync_Eintr: "fdatasync f = (Eintr, f') \<Longrightarrow> length (os_events f') < length (os_events f)"
  by (auto simp: fdatasync_def intro: next_event_shorter split: prod.splits io_event.splits)

lemma handle_call_Eintr: "handle_call f = (Eintr, f') \<Longrightarrow> length (os_events f') < length (os_events f)"
  by (auto simp: handle_call_def intro: next_event_shorter split: prod.splits io_event.splits)

function couch_pread :: "nat \<Rightarrow> nat \<Rightarrow> (os_file, byte list) cmd" where
  "couch_pread nbyte offset f =
     (case pread nbyte offset f of
        (Eintr, f') \<Rightarrow> couch_pread nbyte offset f'
      | (Errno n, f') \<Rightarrow> (Inl (Err COUCHSTORE_ERROR_READ), save_errno n f')
      | (Ret bytes, f') \<Rightarrow> (Inr bytes, f'))"
  by pat_completeness auto
termination
  by (relation "measure (\<lambda>(n, off, f). length (os_events f))") (auto dest: pread_Eintr [OF sym])

function couch_pwrite :: "byte list \<Rightarrow> nat \<Rightarrow> (os_file, nat) cmd" where
  "couch_pwrite buf offset f =
     (case pwrite buf offset f of
        (Eintr, f') \<Rightarrow> couch_pwrite buf offset f'
      | (Errno n, f') \<Rightarrow> (Inl (Err COUCHSTORE_ERROR_WRITE), save_errno n f')
      | (Ret n, f') \<Rightarrow> (Inr n, f'))"
  by pat_completeness auto
termination
  by (relation "measure (\<lambda>(b, off, f). length (os_events f))") (auto dest: pwrite_Eintr [OF sym])

definition ENOENT :: nat where
  "ENOENT = 2"

function couch_open :: "u32 \<Rightarrow> (os_file, unit) cmd" where
  "couch_open oflag f =
     (case handle_call f of
        (Eintr, f') \<Rightarrow> couch_open oflag f'
      | (Errno n, f') \<Rightarrow>
          (Inl (Err (if n = ENOENT then COUCHSTORE_ERROR_NO_SUCH_FILE else COUCHSTORE_ERROR_OPEN_FILE)),
           save_errno n f')
      | (Ret u, f') \<Rightarrow> (Inr (), f'))"
  by pat_completeness auto
termination
  by (relation "measure (\<lambda>(oflag, f). length (os_events f))") (auto dest: handle_call_Eintr [OF sym])

function couch_close :: "(os_file, unit) cmd" where
  "couch_close f =
     (case handle_call f of
        (Eintr, f') \<Rightarrow> couch_close f'
      | (Errno n, f') \<Rightarrow> (Inr (), save_errno n f')
      | (Ret u, f') \<Rightarrow> (Inr (), f'))"
  by pat_completeness auto
termination
  by (relation "measure (\<lambda>f. length (os_events f))") (auto dest: handle_call_Eintr [OF sym])

definition couch_goto_eof :: "(os_file, int) cmd" where
  "couch_goto_eof f =
     (case lseek_end f of
        (Ret n, f') \<Rightarrow> (Inr (int n), f')
      | (Eintr, f') \<Rightarrow> (Inr (- 1), save_errno 4 f')
      | (Errno n, f') \<Rightarrow> (Inr (- 1), save_errno n f'))"

function couch_sync :: "(os_file, unit) cmd" where
  "couch_sync f =
     (case fdatasync f of
        (Eintr, f') \<Rightarrow> couch_sync f'
      | (Errno n, f') \<Rightarrow> (Inl (Err COUCHSTORE_ERROR_WRITE), save_errno n f')
      | (Ret u, f') \<Rightarrow> (Inr (), f'))"
  by pat_completeness auto
termination
  by (relation "measure (\<lambda>f. length (os_events f))") (auto dest: fdatasync_Eintr [OF sym])

declare couch_pread.simps [simp del] couch_pwrite.simps [simp del] couch_sync.simps [simp del]
  couch_open.simps [simp del] couch_close.simps [simp del]

definition default_file_ops :: "os_file couch_file_ops" where
  "default_file_ops =
     \<lparr>fo_open = couch_open, fo_close = couch_close, fo_pread = couch_pread, fo_pwrite = couch_pwrite, fo_goto_eof = couch_goto_eof,
      fo_sync = couch_sync, fo_malloc = os_malloc\<rparr>"

lemma default_file_ops_simps [simp]:
  "fo_pread default_file_ops = couch_pread" "fo_pwrite default_file_ops = couch_pwrite"
  "fo_goto_eof default_file_ops = couch_goto_eof" "fo_sync default_file_ops = couch_sync"
  "fo_malloc default_file_ops = os_malloc" "fo_open default_file_ops = couch_open"
  "fo_close default_file_ops = couch_close"
  by (simp_all add: default_file_ops_def)

section \<open>The contract of a file backend\<close>

text \<open>
  \<open>content h\<close> is what the file holds for its user, \<open>inv h\<close> the backend's invariant, \<open>cached h\<close> an
  upper bound of the offsets whose bytes the backend may answer from memory (a write below it
  could make the memory stale), \<open>calm h\<close> says that no disturbance lies ahead.
\<close>

locale file_backend =
  fixes ops :: "'h couch_file_ops"
    and content :: "'h \<Rightarrow> byte list"
    and cached :: "'h \<Rightarrow> nat"
    and inv :: "'h \<Rightarrow> bool"
    and calm :: "'h \<Rightarrow> bool"
  assumes pread_Inr: "inv h \<Longrightarrow> fo_pread ops n off h = (Inr bs, h') \<Longrightarrow>
      inv h' \<and> content h' = content h \<and> cached h' \<le> max (cached h) (length (content h)) \<and>
      prefix bs (take n (drop off (content h)))"
    and pread_Inl: "inv h \<Longrightarrow> fo_pread ops n off h = (Inl e, h') \<Longrightarrow>
      inv h' \<and> content h' = content h \<and> cached h' \<le> max (cached h) (length (content h)) \<and>
      (\<exists>c. e = Err c)"
    and pread_calm: "inv h \<Longrightarrow> calm h \<Longrightarrow>
      \<exists>h'. fo_pread ops n off h = (Inr (take n (drop off (content h))), h') \<and> calm h'"
    and pwrite_Inr: "inv h \<Longrightarrow> cached h \<le> off \<Longrightarrow> fo_pwrite ops bs off h = (Inr k, h') \<Longrightarrow>
      inv h' \<and> content h' = write_at (content h) off (take k bs) \<and> cached h' \<le> cached h \<and>
      k \<le> length bs \<and> (bs \<noteq> [] \<longrightarrow> 0 < k)"
    and pwrite_Inl: "inv h \<Longrightarrow> cached h \<le> off \<Longrightarrow> fo_pwrite ops bs off h = (Inl e, h') \<Longrightarrow>
      inv h' \<and> (\<exists>k. content h' = write_at (content h) off (take k bs)) \<and> cached h' \<le> cached h \<and>
      (\<exists>c. e = Err c)"
    and pwrite_calm: "inv h \<Longrightarrow> cached h \<le> off \<Longrightarrow> calm h \<Longrightarrow>
      \<exists>h'. fo_pwrite ops bs off h = (Inr (length bs), h') \<and> calm h'"
    and sync_any: "inv h \<Longrightarrow> fo_sync ops h = (r, h') \<Longrightarrow>
      inv h' \<and> content h' = content h \<and> cached h' \<le> cached h \<and> (\<forall>e. r = Inl e \<longrightarrow> (\<exists>c. e = Err c))"
    and sync_calm: "inv h \<Longrightarrow> calm h \<Longrightarrow> \<exists>h'. fo_sync ops h = (Inr (), h') \<and> calm h'"
    and malloc_any: "inv h \<Longrightarrow> fo_malloc ops h = (rm, h') \<Longrightarrow>
      inv h' \<and> content h' = content h \<and> cached h' \<le> cached h \<and> (\<exists>b. rm = Inr b)"
    and malloc_calm: "inv h \<Longrightarrow> calm h \<Longrightarrow> \<exists>h'. fo_malloc ops h = (Inr True, h') \<and> calm h'"
    and open_any: "inv h \<Longrightarrow> fo_open ops fl h = (ro, h') \<Longrightarrow>
      inv h' \<and> content h' = content h \<and> cached h' \<le> cached h \<and> (\<forall>e. ro = Inl e \<longrightarrow> (\<exists>c. e = Err c))"
    and open_calm: "inv h \<Longrightarrow> calm h \<Longrightarrow> \<exists>h'. fo_open ops fl h = (Inr (), h') \<and> calm h'"
    and close_any: "inv h \<Longrightarrow> fo_close ops h = (rc, h') \<Longrightarrow>
      inv h' \<and> content h' = content h \<and> cached h' \<le> cached h \<and> rc = Inr ()"
    and eof_any: "inv h \<Longrightarrow> fo_goto_eof ops h = (rg, h') \<Longrightarrow>
      inv h' \<and> content h' = content h \<and> cached h' \<le> cached h \<and> (\<exists>n. rg = Inr n)"
    and eof_calm: "inv h \<Longrightarrow> calm h \<Longrightarrow> \<exists>n h'. fo_goto_eof ops h = (Inr n, h') \<and> calm h'"

text \<open>
  A backend without a write buffer of its own also knows the end of the file; the buffering layer
  does not (data it still holds is not counted), but it is only asked before anything is written.
\<close>

locale raw_backend = file_backend +
  assumes eof_exact: "inv h \<Longrightarrow> calm h \<Longrightarrow> \<exists>h'. fo_goto_eof ops h = (Inr (int (length (content h))), h') \<and> calm h'"

section \<open>\<^verbatim>\<open>os.c\<close> fulfils the contract\<close>

definition os_calm :: "os_file \<Rightarrow> bool" where
  "os_calm f \<longleftrightarrow> os_events f = [] \<and> os_allocs f = []"

lemma next_event_frame:
  "next_event f = (e, f') \<Longrightarrow>
     os_content f' = os_content f \<and> os_allocs f' = os_allocs f \<and> os_synced f' = os_synced f"
  by (auto simp: next_event_def split: list.splits)

lemma couch_pread_spec:
  "couch_pread n off f = (r, f') \<Longrightarrow>
     os_content f' = os_content f \<and> os_allocs f' = os_allocs f \<and> os_synced f' = os_synced f \<and>
     (case r of
        Inl e \<Rightarrow> e = Err COUCHSTORE_ERROR_READ
      | Inr bs \<Rightarrow> prefix bs (take n (drop off (os_content f))) \<and>
          (bs = [] \<longrightarrow> n = 0 \<or> length (os_content f) \<le> off))"
proof (induction n off f rule: couch_pread.induct)
  case (1 n off f)
  obtain s g where g: "pread n off f = (s, g)" by fastforce
  have frame: "os_content g = os_content f" "os_allocs g = os_allocs f" "os_synced g = os_synced f"
    using g by (auto simp: pread_def Let_def dest!: next_event_frame split: prod.splits io_event.splits)
  show ?case
  proof (cases s)
    case (Ret bs)
    then have "\<exists>m. bs = take m (drop off (os_content f)) \<and> m \<le> n \<and> (m = 0 \<longrightarrow> n = 0)"
      using g by (auto simp: pread_def transfer_def min_def dest!: next_event_frame
          split: prod.splits io_event.splits if_splits)
    then show ?thesis
      using 1 Ret g frame by (auto simp: couch_pread.simps take_is_prefix prefix_def)
        (metis append_take_drop_id le_add_diff_inverse take_add)
  next
    case Eintr
    then show ?thesis using 1(1) [OF g [symmetric]] 1(2) g frame by (simp add: couch_pread.simps [of n off f] split: sum.splits)
  next
    case (Errno k)
    then show ?thesis using 1(2) g frame by (auto simp: couch_pread.simps save_errno_def)
  qed
qed

lemma couch_pwrite_spec:
  "couch_pwrite bs off f = (r, f') \<Longrightarrow>
     os_allocs f' = os_allocs f \<and> os_synced f' = os_synced f \<and>
     (case r of
        Inl e \<Rightarrow> e = Err COUCHSTORE_ERROR_WRITE \<and> os_content f' = os_content f
      | Inr k \<Rightarrow> os_content f' = write_at (os_content f) off (take k bs) \<and> k \<le> length bs \<and>
          (bs \<noteq> [] \<longrightarrow> 0 < k))"
proof (induction bs off f rule: couch_pwrite.induct)
  case (1 bs off f)
  obtain s g where g: "pwrite bs off f = (s, g)" by fastforce
  have frame: "os_allocs g = os_allocs f" "os_synced g = os_synced f"
    using g by (auto simp: pwrite_def Let_def dest!: next_event_frame split: prod.splits io_event.splits)
  show ?case
  proof (cases s)
    case (Ret k)
    then show ?thesis
      using 1(2) g frame
      by (auto simp: couch_pwrite.simps pwrite_def Let_def transfer_def min_def dest!: next_event_frame
          split: prod.splits io_event.splits if_splits)
  next
    case Eintr
    then have "os_content g = os_content f"
      using g by (auto simp: pwrite_def Let_def dest!: next_event_frame split: prod.splits io_event.splits)
    then show ?thesis
      using 1(1) [OF g [symmetric]] 1(2) g frame Eintr by (simp add: couch_pwrite.simps [of bs off f] split: sum.splits)
  next
    case (Errno k)
    then have "os_content g = os_content f"
      using g by (auto simp: pwrite_def Let_def dest!: next_event_frame split: prod.splits io_event.splits)
    then show ?thesis using 1(2) g frame Errno by (auto simp: couch_pwrite.simps save_errno_def)
  qed
qed

lemma couch_sync_spec:
  "couch_sync f = (r, f') \<Longrightarrow>
     os_allocs f' = os_allocs f \<and> os_content f' = os_content f \<and>
     (case r of
        Inl e \<Rightarrow> e = Err COUCHSTORE_ERROR_WRITE \<and> os_synced f' = os_synced f
      | Inr u \<Rightarrow> os_synced f' = os_content f)"
proof (induction f rule: couch_sync.induct)
  case (1 f)
  obtain s g where g: "fdatasync f = (s, g)" by fastforce
  have frame: "os_allocs g = os_allocs f" "os_content g = os_content f"
      "os_synced g = (case s of Ret u \<Rightarrow> os_content f | _ \<Rightarrow> os_synced f)"
    using g by (auto simp: fdatasync_def dest!: next_event_frame split: prod.splits io_event.splits)
  show ?case
  proof (cases s)
    case Eintr
    then show ?thesis using 1(1) [OF g [symmetric]] 1(2) g frame by (simp add: couch_sync.simps [of f] split: sum.splits)
  qed (use 1(2) g frame in \<open>auto simp: couch_sync.simps save_errno_def\<close>)
qed

lemma handle_call_frame:
  "handle_call f = (r, f') \<Longrightarrow> os_content f' = os_content f \<and> os_allocs f' = os_allocs f"
  by (auto simp: handle_call_def dest!: next_event_frame split: prod.splits io_event.splits)

lemma couch_open_spec:
  "couch_open fl f = (r, f') \<Longrightarrow>
     os_content f' = os_content f \<and> os_allocs f' = os_allocs f \<and> (\<forall>e. r = Inl e \<longrightarrow> (\<exists>c. e = Err c))"
proof (induction fl f rule: couch_open.induct)
  case (1 fl f)
  obtain s g where g: "handle_call f = (s, g)" by fastforce
  note frame = handle_call_frame [OF g]
  show ?case
  proof (cases s)
    case Eintr
    then show ?thesis using 1(1) [OF g [symmetric]] 1(2) g frame by (simp add: couch_open.simps [of fl f])
  qed (use 1(2) g frame in \<open>auto simp: couch_open.simps save_errno_def\<close>)
qed

lemma couch_close_spec:
  "couch_close f = (r, f') \<Longrightarrow> os_content f' = os_content f \<and> os_allocs f' = os_allocs f \<and> r = Inr ()"
proof (induction f rule: couch_close.induct)
  case (1 f)
  obtain s g where g: "handle_call f = (s, g)" by fastforce
  note frame = handle_call_frame [OF g]
  show ?case
  proof (cases s)
    case Eintr
    then show ?thesis using 1(1) [OF g [symmetric]] 1(2) g frame by (simp add: couch_close.simps [of f])
  qed (use 1(2) g frame in \<open>auto simp: couch_close.simps save_errno_def\<close>)
qed

lemma couch_open_calm: "os_calm f \<Longrightarrow> couch_open fl f = (Inr (), f)"
  by (simp add: couch_open.simps handle_call_def next_event_def os_calm_def)

lemma couch_goto_eof_spec:
  "couch_goto_eof f = (r, f') \<Longrightarrow> os_content f' = os_content f \<and> os_allocs f' = os_allocs f \<and> (\<exists>n. r = Inr n)"
  by (auto simp: couch_goto_eof_def lseek_end_def save_errno_def dest!: next_event_frame
      split: prod.splits io_event.splits sysres.splits)

lemma couch_pread_calm:
  "os_calm f \<Longrightarrow> couch_pread n off f = (Inr (take n (drop off (os_content f))), f)"
  by (simp add: couch_pread.simps pread_def next_event_def os_calm_def transfer_def)

lemma couch_pwrite_calm:
  "os_calm f \<Longrightarrow> couch_pwrite bs off f =
     (Inr (length bs), f\<lparr>os_content := write_at (os_content f) off bs\<rparr>)"
  by (simp add: couch_pwrite.simps pwrite_def next_event_def os_calm_def transfer_def)

lemma couch_sync_calm: "os_calm f \<Longrightarrow> couch_sync f = (Inr (), f\<lparr>os_synced := os_content f\<rparr>)"
  by (simp add: couch_sync.simps fdatasync_def next_event_def os_calm_def)

lemma couch_goto_eof_calm: "os_calm f \<Longrightarrow> couch_goto_eof f = (Inr (int (length (os_content f))), f)"
  by (simp add: couch_goto_eof_def lseek_end_def next_event_def os_calm_def)

interpretation os: raw_backend default_file_ops os_content "\<lambda>_. 0" "\<lambda>_. True" os_calm
proof (unfold_locales, goal_cases)
  case (1 h n off bs h')
  then show ?case using couch_pread_spec [of n off h "Inr bs" h'] by simp
next
  case (2 h n off e h')
  then show ?case using couch_pread_spec [of n off h "Inl e" h'] by auto
next
  case (3 h n off)
  then show ?case by (simp add: couch_pread_calm)
next
  case (4 h off bs k h')
  then show ?case using couch_pwrite_spec [of bs off h "Inr k" h'] by simp
next
  case (5 h off bs e h')
  then have "os_content h' = write_at (os_content h) off (take 0 bs) \<and> (\<exists>c. e = Err c)"
    using couch_pwrite_spec [of bs off h "Inl e" h'] by simp
  then show ?case by blast
next
  case (6 h off bs)
  then show ?case by (simp add: couch_pwrite_calm os_calm_def)
next
  case (7 h r h')
  then show ?case using couch_sync_spec [of h r h'] by (auto split: sum.splits)
next
  case (8 h)
  then show ?case by (simp add: couch_sync_calm os_calm_def)
next
  case (9 h r h')
  then show ?case by (auto simp: os_malloc_def split: list.splits)
next
  case (10 h)
  then show ?case by (simp add: os_malloc_def os_calm_def)
next
  case (11 h fl r h')
  then show ?case using couch_open_spec [of fl h r h'] by simp
next
  case (12 h fl)
  then show ?case by (simp add: couch_open_calm)
next
  case (13 h r h')
  then show ?case using couch_close_spec [of h r h'] by simp
next
  case (14 h r h')
  then show ?case using couch_goto_eof_spec [of h r h'] by simp
next
  case (15 h)
  then show ?case by (simp add: couch_goto_eof_calm)
next
  case (16 h)
  then show ?case by (simp add: couch_goto_eof_calm)
qed

end
