(* ===== verification/Iobuffer.thy ===== *)
theory Iobuffer
  imports File_Ops
begin

text \<open>
  Model of \<^verbatim>\<open>couchstore/src/iobuffer.cc\<close>: the buffering layer that \<open>tree_file_open\<close> puts between the
  storage code and the file operations. Writes are collected in one write buffer of 128 kB, reads
  go through up to eight read buffers of 8 kB kept in the order of their last use.

  A buffer is the list of its valid bytes with the offset of the first one, so \<open>buf->length\<close> is the
  length of the list. The linked list of read buffers is a list whose head is \<open>first_buffer\<close>.

  The layer fulfils the contract \<open>file_backend\<close> whenever the operations below it do
  (\<open>buffered_backend\<close>): the content of the file is what is below, overlaid with the write buffer.
  The offsets covered by read buffers are the \<open>cached\<close> of the contract, because a read buffer is
  never told about writes.
\<close>

section \<open>Buffers\<close>

record file_buffer =
  fb_capacity :: nat
  fb_offset :: nat
  fb_bytes :: "byte list"
  fb_dirty :: bool

record 'r buffered_file_handle =
  bh_raw :: 'r
  bh_nbuffers :: nat
  bh_write_buffer :: file_buffer
  bh_buffers :: "file_buffer list"

definition MAX_READ_BUFFERS :: nat where
  "MAX_READ_BUFFERS = 8"

definition WRITE_BUFFER_CAPACITY :: nat where
  "WRITE_BUFFER_CAPACITY = 128 * 1024"

definition READ_BUFFER_CAPACITY :: nat where
  "READ_BUFFER_CAPACITY = 8 * 1024"

definition new_buffer :: "nat \<Rightarrow> file_buffer" where
  "new_buffer capacity = \<lparr>fb_capacity = capacity, fb_offset = 0, fb_bytes = [], fb_dirty = False\<rparr>"

definition on_raw :: "('r, 'a) cmd \<Rightarrow> ('r buffered_file_handle, 'a) cmd" where
  "on_raw m = zoomE bh_raw (\<lambda>r h. h\<lparr>bh_raw := r\<rparr>) m"

definition on_write_buffer :: "(file_buffer \<times> 'r, 'a) cmd \<Rightarrow> ('r buffered_file_handle, 'a) cmd" where
  "on_write_buffer m =
     zoomE (\<lambda>h. (bh_write_buffer h, bh_raw h)) (\<lambda>(b, r) h. h\<lparr>bh_write_buffer := b, bh_raw := r\<rparr>) m"

definition on_first_buffer :: "(file_buffer \<times> 'r, 'a) cmd \<Rightarrow> ('r buffered_file_handle, 'a) cmd" where
  "on_first_buffer m =
     zoomE (\<lambda>h. (hd (bh_buffers h), bh_raw h)) (\<lambda>(b, r) h. h\<lparr>bh_buffers := b # tl (bh_buffers h), bh_raw := r\<rparr>) m"

section \<open>Buffer writes\<close>

definition write_to_buffer :: "file_buffer \<Rightarrow> byte list \<Rightarrow> nat \<Rightarrow> nat \<times> file_buffer" where
  "write_to_buffer buf bytes offset =
     (if fb_bytes buf \<noteq> [] \<and> (offset < fb_offset buf \<or> fb_offset buf + length (fb_bytes buf) < offset) then (0, buf)
      else
        let start = (if fb_bytes buf = [] then offset else fb_offset buf);
            offset_in_buffer = offset - start;
            buffer_nbyte = min (fb_capacity buf - offset_in_buffer) (length bytes)
        in (buffer_nbyte,
            buf\<lparr>fb_offset := start,
                fb_bytes := take offset_in_buffer (fb_bytes buf) @ take buffer_nbyte bytes @
                  drop (offset_in_buffer + buffer_nbyte) (fb_bytes buf),
                fb_dirty := True\<rparr>))"

definition advance_buffer :: "nat \<Rightarrow> file_buffer \<Rightarrow> file_buffer" where
  "advance_buffer n buf = buf\<lparr>fb_bytes := drop n (fb_bytes buf), fb_offset := fb_offset buf + n\<rparr>"

function flush_buffer :: "'r couch_file_ops \<Rightarrow> (file_buffer \<times> 'r, unit) cmd" where
  "flush_buffer ops (buf, r) =
     (if fb_bytes buf \<noteq> [] \<and> fb_dirty buf
      then (case fo_pwrite ops (fb_bytes buf) (fb_offset buf) r of
          (Inl e, r') \<Rightarrow> (Inl e, (buf, r'))
        | (Inr raw_written, r') \<Rightarrow>
            if raw_written = 0 then (Inr (), (buf, r'))
            else flush_buffer ops (advance_buffer raw_written buf, r'))
      else (Inr (), (buf\<lparr>fb_dirty := False\<rparr>, r)))"
  by pat_completeness auto
termination
  by (relation "measure (\<lambda>(ops, buf, r). length (fb_bytes buf))") (auto simp: advance_buffer_def)

declare flush_buffer.simps [simp del]

section \<open>Buffer reads\<close>

definition read_from_buffer :: "file_buffer \<Rightarrow> nat \<Rightarrow> nat \<Rightarrow> byte list" where
  "read_from_buffer buf nbyte offset =
     (if offset < fb_offset buf \<or> fb_offset buf + length (fb_bytes buf) \<le> offset then []
      else take nbyte (drop (offset - fb_offset buf) (fb_bytes buf)))"

definition load_buffer_from :: "'r couch_file_ops \<Rightarrow> nat \<Rightarrow> nat \<Rightarrow> (file_buffer \<times> 'r, unit) cmd" where
  "load_buffer_from ops offset nbyte =
     bindE (getE (\<lambda>(buf, r). fb_dirty buf)) (\<lambda>dirty.
       bindE (if dirty then flush_buffer ops else returnE ()) (\<lambda>_.
         bindE (modifyE (\<lambda>(buf, r).
             (if offset < fb_offset buf \<or> fb_offset buf + fb_capacity buf < offset + nbyte
              then buf\<lparr>fb_offset := offset, fb_bytes := []\<rparr> else buf, r))) (\<lambda>_.
           bindE (getE fst) (\<lambda>buf.
             bindE (zoomE snd (\<lambda>r s. (fst s, r))
                 (fo_pread ops (fb_capacity buf - length (fb_bytes buf)) (fb_offset buf + length (fb_bytes buf))))
               (\<lambda>bytes_read.
                 modifyE (\<lambda>(buf, r). (buf\<lparr>fb_bytes := fb_bytes buf @ bytes_read\<rparr>, r)))))))"

text \<open>
  The buffer found or made for an offset, moved to the front of the list. The last buffer is
  recycled when none fits and no other can be made.
\<close>

definition move_to_front :: "(file_buffer \<Rightarrow> bool) \<Rightarrow> file_buffer list \<Rightarrow> file_buffer list" where
  "move_to_front fits bufs =
     (case dropWhile (\<lambda>b. \<not> fits b) bufs of
        b # rest \<Rightarrow> b # takeWhile (\<lambda>b. \<not> fits b) bufs @ rest
      | [] \<Rightarrow> last bufs # butlast bufs)"

definition find_buffer :: "'r couch_file_ops \<Rightarrow> nat \<Rightarrow> ('r buffered_file_handle, unit) cmd" where
  "find_buffer ops offset =
     (let offset = offset - offset mod READ_BUFFER_CAPACITY;
          fits = (\<lambda>b. fb_offset b = offset)
      in bindE (getE (\<lambda>h. (bh_buffers h, bh_nbuffers h))) (\<lambda>(bufs, nbuffers).
        if bufs = [] then throwE InvalidAccess
        else if list_ex fits bufs \<or> MAX_READ_BUFFERS \<le> nbuffers
        then modifyE (\<lambda>h. h\<lparr>bh_buffers := move_to_front fits bufs\<rparr>)
        else bindE (on_raw (fo_malloc ops)) (\<lambda>ok.
          modifyE (\<lambda>h. if ok
            then h\<lparr>bh_nbuffers := nbuffers + 1, bh_buffers := new_buffer READ_BUFFER_CAPACITY # bufs\<rparr>
            else h\<lparr>bh_buffers := move_to_front fits bufs\<rparr>))))"

section \<open>The file operations\<close>

definition buffered_constructor :: "'r couch_file_ops \<Rightarrow> 'r \<Rightarrow> 'r buffered_file_handle option \<times> 'r" where
  "buffered_constructor ops r =
     (case bindE (fo_malloc ops) (\<lambda>h_ok.
             if \<not> h_ok then returnE False
             else bindE (fo_malloc ops) (\<lambda>write_ok.
                    bindE (fo_malloc ops) (\<lambda>read_ok. returnE (write_ok \<and> read_ok)))) r of
        (Inr True, r') \<Rightarrow>
          (Some \<lparr>bh_raw = r', bh_nbuffers = 1, bh_write_buffer = new_buffer WRITE_BUFFER_CAPACITY,
                 bh_buffers = [new_buffer READ_BUFFER_CAPACITY]\<rparr>, r')
      | (_, r') \<Rightarrow> (None, r'))"

definition buffered_open :: "'r couch_file_ops \<Rightarrow> u32 \<Rightarrow> ('r buffered_file_handle, unit) cmd" where
  "buffered_open ops oflag = on_raw (fo_open ops oflag)"

definition buffered_close :: "'r couch_file_ops \<Rightarrow> ('r buffered_file_handle, unit) cmd" where
  "buffered_close ops = bindE (ignoreE (on_write_buffer (flush_buffer ops))) (\<lambda>_. on_raw (fo_close ops))"

text \<open>One turn of the read loop: the bytes it found, none at the end of the file.\<close>

definition buffered_read :: "'r couch_file_ops \<Rightarrow> nat \<Rightarrow> nat \<Rightarrow> ('r buffered_file_handle, byte list) cmd" where
  "buffered_read ops nbyte offset =
     bindE (find_buffer ops offset) (\<lambda>_.
       bindE (getE (\<lambda>h. read_from_buffer (hd (bh_buffers h)) nbyte offset)) (\<lambda>got.
         if got \<noteq> [] then returnE got
         else
           let block_start = offset - offset mod READ_BUFFER_CAPACITY
           in bindE (on_first_buffer (load_buffer_from ops block_start (offset + nbyte - block_start))) (\<lambda>_.
                getE (\<lambda>h. read_from_buffer (hd (bh_buffers h)) nbyte offset))))"

function buffered_read_loop :: "'r couch_file_ops \<Rightarrow> nat \<Rightarrow> nat \<Rightarrow> ('r buffered_file_handle, byte list) cmd" where
  "buffered_read_loop ops nbyte offset =
     (if nbyte = 0 then returnE []
      else bindE (buffered_read ops nbyte offset) (\<lambda>got.
        if got = [] then returnE []
        else bindE (buffered_read_loop ops (nbyte - length got) (offset + length got)) (\<lambda>rest.
          returnE (got @ rest))))"
  by pat_completeness auto
termination
  by (relation "measure (\<lambda>(ops, nbyte, offset). nbyte)") auto

declare buffered_read_loop.simps [simp del]

definition buffered_pread :: "'r couch_file_ops \<Rightarrow> nat \<Rightarrow> nat \<Rightarrow> ('r buffered_file_handle, byte list) cmd" where
  "buffered_pread ops nbyte offset =
     bindE (on_write_buffer (flush_buffer ops)) (\<lambda>_. buffered_read_loop ops nbyte offset)"

definition buffer_write :: "byte list \<Rightarrow> nat \<Rightarrow> ('r buffered_file_handle, nat) cmd" where
  "buffer_write bytes offset =
     bindE (getE (\<lambda>h. write_to_buffer (bh_write_buffer h) bytes offset)) (\<lambda>(n, buf).
       bindE (modifyE (\<lambda>h. h\<lparr>bh_write_buffer := buf\<rparr>)) (\<lambda>_. returnE n))"

definition buffered_pwrite :: "'r couch_file_ops \<Rightarrow> byte list \<Rightarrow> nat \<Rightarrow> ('r buffered_file_handle, nat) cmd" where
  "buffered_pwrite ops bytes offset =
     (if bytes = [] then returnE 0
      else bindE (buffer_write bytes offset) (\<lambda>nbyte_written.
        let bytes = drop nbyte_written bytes;
            offset = offset + nbyte_written
        in bindE (getE bh_write_buffer) (\<lambda>buffer.
          bindE (if length (fb_bytes buffer) = fb_capacity buffer \<or> nbyte_written = 0
                 then on_write_buffer (flush_buffer ops) else returnE ()) (\<lambda>_.
            if bytes = [] then returnE nbyte_written
            else bindE (getE bh_write_buffer) (\<lambda>buffer.
              bindE (if length bytes \<le> fb_capacity buffer - length (fb_bytes buffer)
                     then buffer_write bytes offset
                     else on_raw (fo_pwrite ops bytes offset)) (\<lambda>written.
                returnE (nbyte_written + written)))))))"

definition buffered_goto_eof :: "'r couch_file_ops \<Rightarrow> ('r buffered_file_handle, int) cmd" where
  "buffered_goto_eof ops = on_raw (fo_goto_eof ops)"

definition buffered_sync :: "'r couch_file_ops \<Rightarrow> ('r buffered_file_handle, unit) cmd" where
  "buffered_sync ops = bindE (on_write_buffer (flush_buffer ops)) (\<lambda>_. on_raw (fo_sync ops))"

definition buffered_file_ops :: "'r couch_file_ops \<Rightarrow> 'r buffered_file_handle couch_file_ops" where
  "buffered_file_ops ops =
     \<lparr>fo_open = buffered_open ops, fo_close = buffered_close ops, fo_pread = buffered_pread ops,
      fo_pwrite = buffered_pwrite ops, fo_goto_eof = buffered_goto_eof ops, fo_sync = buffered_sync ops,
      fo_malloc = on_raw (fo_malloc ops)\<rparr>"

section \<open>The layer fulfils the contract\<close>

lemma write_at_over: "write_at (write_at c off as) off bs = write_at c off (bs @ drop (length bs) as)"
proof (cases "as = [] \<or> bs = []")
  case False
  have "drop (off + length bs) (take off c @ replicate (off - length c) 0 @ as @ drop (off + length as) c) =
      drop (length bs) (as @ drop (off + length as) c)"
    by (simp add: min_def)
  moreover have "length bs - length as + (off + length as) = off + (length bs + (length as - length bs))" by simp
  ultimately show ?thesis using False by (auto simp: write_at_def min_def)
qed auto

lemma write_at_inside:
  assumes "k \<le> length as"
  shows "write_at (write_at c off as) (off + k) bs = write_at c off (take k as @ bs @ drop (k + length bs) as)"
proof -
  have k: "length (take k as) = k" using assms by simp
  have "write_at c off as = write_at (write_at c off (take k as)) (off + k) (drop k as)"
    using write_at_append [of c off "take k as" "drop k as"] k by simp
  then have "write_at (write_at c off as) (off + k) bs
      = write_at (write_at c off (take k as)) (off + k) (bs @ drop (length bs) (drop k as))"
    by (simp only: write_at_over)
  also have "\<dots> = write_at c off (take k as @ bs @ drop (k + length bs) as)"
    using write_at_append [of c off "take k as" "bs @ drop (k + length bs) as"] k by (simp add: add.commute)
  finally show ?thesis .
qed

lemma write_at_same:
  "write_at (write_at c off (take k bs)) off bs = write_at c off bs"
  using write_at_inside [of 0 "take k bs" c off bs] by simp

lemma write_at_rest:
  "j \<le> k \<Longrightarrow> k \<le> length bs \<Longrightarrow> write_at (write_at c off (take k bs)) (off + j) (drop j bs) = write_at c off bs"
  using write_at_inside [of j "take k bs" c off "drop j bs"]
  by (simp add: min_absorb1 drop_take)

lemma take_drop_write_at_below:
  "o' + n \<le> off \<Longrightarrow> o' + n \<le> length c \<Longrightarrow> take n (drop o' (write_at c off bs)) = take n (drop o' c)"
  using take_write_at [of "o' + n" off c bs] by (simp add: take_drop add.commute)

definition wb_overlay :: "byte list \<Rightarrow> file_buffer \<Rightarrow> byte list" where
  "wb_overlay c buf = write_at c (fb_offset buf) (fb_bytes buf)"

definition wb_ok :: "file_buffer \<Rightarrow> bool" where
  "wb_ok buf \<longleftrightarrow> fb_capacity buf = WRITE_BUFFER_CAPACITY \<and> length (fb_bytes buf) \<le> fb_capacity buf \<and>
     (fb_bytes buf \<noteq> [] \<longrightarrow> fb_dirty buf)"

definition rb_ok :: "byte list \<Rightarrow> file_buffer \<Rightarrow> bool" where
  "rb_ok c buf \<longleftrightarrow> fb_capacity buf = READ_BUFFER_CAPACITY \<and> length (fb_bytes buf) \<le> fb_capacity buf \<and> \<not> fb_dirty buf \<and>
     take (length (fb_bytes buf)) (drop (fb_offset buf) c) = fb_bytes buf"

definition buffer_end :: "file_buffer \<Rightarrow> nat" where
  "buffer_end buf = (if fb_bytes buf = [] then 0 else fb_offset buf + length (fb_bytes buf))"

fun buffers_end :: "file_buffer list \<Rightarrow> nat" where
  "buffers_end [] = 0"
| "buffers_end (b # bs) = max (buffer_end b) (buffers_end bs)"

lemma buffers_end_le: "buffers_end bs \<le> n \<longleftrightarrow> (\<forall>b\<in>set bs. buffer_end b \<le> n)"
  by (induction bs) auto

lemma write_to_buffer_spec:
  assumes "write_to_buffer buf bs off = (n, buf')" and "wb_ok buf"
  shows "wb_ok buf'" and "n \<le> length bs" and "wb_overlay c buf' = write_at (wb_overlay c buf) off (take n bs)"
    and "m \<le> off \<Longrightarrow> (fb_bytes buf \<noteq> [] \<longrightarrow> m \<le> fb_offset buf) \<Longrightarrow> fb_bytes buf' \<noteq> [] \<longrightarrow> m \<le> fb_offset buf'"
    and "n = 0 \<Longrightarrow> fb_bytes buf' = fb_bytes buf" and "fb_bytes buf = [] \<Longrightarrow> bs \<noteq> [] \<Longrightarrow> 0 < n"
    and "length (fb_bytes buf') < fb_capacity buf' \<Longrightarrow> n = 0 \<or> n = length bs"
    and "fb_bytes buf = [] \<Longrightarrow> length bs \<le> WRITE_BUFFER_CAPACITY \<Longrightarrow> n = length bs"
proof -
  note ok = assms(2) [unfolded wb_ok_def]
  have cap: "0 < WRITE_BUFFER_CAPACITY" by (simp add: WRITE_BUFFER_CAPACITY_def)
  note def = assms(1) [unfolded write_to_buffer_def Let_def]
  show "wb_ok buf'" "n \<le> length bs"
    using def ok by (auto simp: wb_ok_def split: if_splits)
  show "fb_bytes buf' \<noteq> [] \<longrightarrow> m \<le> fb_offset buf'"
    if "m \<le> off" "fb_bytes buf \<noteq> [] \<longrightarrow> m \<le> fb_offset buf"
    using def that by (auto split: if_splits)
  show "fb_bytes buf' = fb_bytes buf" if "n = 0" using def that ok by (auto split: if_splits)
  show "0 < n" if "fb_bytes buf = []" "bs \<noteq> []" using def ok that cap by auto
  show "n = length bs" if "fb_bytes buf = []" "length bs \<le> WRITE_BUFFER_CAPACITY"
    using def ok that by auto
  show "n = 0 \<or> n = length bs" if "length (fb_bytes buf') < fb_capacity buf'"
    using def ok that by (auto split: if_splits)
  show "wb_overlay c buf' = write_at (wb_overlay c buf) off (take n bs)"
  proof (cases "fb_bytes buf = []")
    case True
    then show ?thesis using def by (auto simp: wb_overlay_def)
  next
    case nonempty: False
    show ?thesis
    proof (cases "off < fb_offset buf \<or> fb_offset buf + length (fb_bytes buf) < off")
      case True
      then show ?thesis using def nonempty by (auto simp: wb_overlay_def)
    next
      case False
      define k where "k = off - fb_offset buf"
      have k: "off = fb_offset buf + k" "k \<le> length (fb_bytes buf)" using False by (auto simp: k_def)
      have n: "n = min (fb_capacity buf - k) (length bs)" "fb_offset buf' = fb_offset buf"
          "fb_bytes buf' = take k (fb_bytes buf) @ take n bs @ drop (k + n) (fb_bytes buf)"
        using def nonempty False by (auto simp: k_def)
      then have "length (take n bs) = n" by simp
      then show ?thesis
        using write_at_inside [OF k(2), of c "fb_offset buf" "take n bs"] n k(1) by (simp add: wb_overlay_def)
    qed
  qed
qed

lemma rb_ok_write: "rb_ok c b \<Longrightarrow> buffer_end b \<le> off \<Longrightarrow> rb_ok (write_at c off bs) b"
proof (cases "fb_bytes b = []")
  case False
  assume ok: "rb_ok c b" and le: "buffer_end b \<le> off"
  let ?n = "length (fb_bytes b)"
  have "?n \<le> length c - fb_offset b" "0 < ?n"
    using ok False by (auto simp: rb_ok_def) (metis length_take length_drop min.cobounded1)
  then have "fb_offset b + ?n \<le> length c" by linarith
  then have "take ?n (drop (fb_offset b) (write_at c off bs)) = take ?n (drop (fb_offset b) c)"
    using le False by (intro take_drop_write_at_below) (auto simp: buffer_end_def)
  then show ?thesis using ok by (simp add: rb_ok_def)
qed (simp add: rb_ok_def)

lemma rb_ok_end: "rb_ok c b \<Longrightarrow> buffer_end b \<le> length c"
proof (cases "fb_bytes b = []")
  case False
  assume "rb_ok c b"
  then have "length (fb_bytes b) \<le> length c - fb_offset b"
    by (auto simp: rb_ok_def) (metis length_take length_drop min.cobounded1)
  moreover have "0 < length (fb_bytes b)" using False by simp
  ultimately have "fb_offset b + length (fb_bytes b) \<le> length c" by linarith
  then show ?thesis by (simp add: buffer_end_def)
qed (simp add: buffer_end_def)

lemma rb_ok_read:
  assumes "rb_ok c b"
  shows "\<exists>k. k \<le> n \<and> read_from_buffer b n off = take k (drop off c)"
proof (cases "off < fb_offset b \<or> fb_offset b + length (fb_bytes b) \<le> off")
  case True
  then show ?thesis by (intro exI [of _ 0]) (auto simp: read_from_buffer_def)
next
  case False
  let ?o = "off - fb_offset b"
  have "fb_bytes b = take (length (fb_bytes b)) (drop (fb_offset b) c)" using assms by (simp add: rb_ok_def)
  then have "drop ?o (fb_bytes b) = take (length (fb_bytes b) - ?o) (drop off c)"
    using False by (metis add_diff_inverse_nat add.commute drop_drop drop_take)
  then have "read_from_buffer b n off = take (min n (length (fb_bytes b) - ?o)) (drop off c)"
    using False by (auto simp: read_from_buffer_def take_take)
  then show ?thesis by (intro exI [of _ "min n (length (fb_bytes b) - ?o)"]) simp
qed

context file_backend
begin

text \<open>What a flush does: some bytes reach the file below, possibly more than are known to.\<close>

lemma flush_buffer_any:
  "flush_buffer ops (b, r) = (res, (b', r')) \<Longrightarrow> inv r \<Longrightarrow> (fb_bytes b \<noteq> [] \<longrightarrow> fb_dirty b \<and> cached r \<le> fb_offset b) \<Longrightarrow>
   inv r' \<and> cached r' \<le> cached r \<and> (\<forall>e. res = Inl e \<longrightarrow> (\<exists>c. e = Err c)) \<and> (res = Inr () \<longrightarrow> fb_bytes b' = []) \<and>
   (\<exists>j k. j \<le> k \<and> k \<le> length (fb_bytes b) \<and> content r' = write_at (content r) (fb_offset b) (take k (fb_bytes b)) \<and>
      fb_bytes b' = drop j (fb_bytes b) \<and> fb_offset b' = fb_offset b + j \<and> fb_capacity b' = fb_capacity b \<and>
      (fb_bytes b' \<noteq> [] \<longrightarrow> fb_dirty b'))"
proof (induction "length (fb_bytes b)" arbitrary: b r rule: less_induct)
  case (less buf)
  show ?case
  proof (cases "fb_bytes buf = []")
    case True
    then show ?thesis using less.prems by (auto simp: flush_buffer.simps)
  next
    case False
    obtain w r1 where w: "fo_pwrite ops (fb_bytes buf) (fb_offset buf) r = (w, r1)" by fastforce
    show ?thesis
    proof (cases w)
      case (Inl e)
      obtain k where k: "inv r1" "cached r1 \<le> cached r" "\<exists>c. e = Err c"
          "content r1 = write_at (content r) (fb_offset buf) (take k (fb_bytes buf))"
        using pwrite_Inl [OF less.prems(2) _ w [unfolded Inl]] less.prems(3) False by blast
      have "take (min k (length (fb_bytes buf))) (fb_bytes buf) = take k (fb_bytes buf)" by (simp add: min_def)
      then show ?thesis
        using less.prems False w Inl k
        by (auto simp: flush_buffer.simps [of ops buf r] intro!: exI [of _ 0] exI [of _ "min k (length (fb_bytes buf))"])
    next
      case (Inr k)
      have k: "inv r1" "cached r1 \<le> cached r" "k \<le> length (fb_bytes buf)" "0 < k"
          "content r1 = write_at (content r) (fb_offset buf) (take k (fb_bytes buf))"
        using pwrite_Inr [OF less.prems(2) _ w [unfolded Inr]] less.prems(3) False by auto
      have run: "flush_buffer ops (advance_buffer k buf, r1) = (res, (b', r'))"
        using less.prems(1,3) False w Inr k(4) by (simp add: flush_buffer.simps [of ops buf r])
      have IH: "inv r' \<and> cached r' \<le> cached r1 \<and> (\<forall>e. res = Inl e \<longrightarrow> (\<exists>c. e = Err c)) \<and> (res = Inr () \<longrightarrow> fb_bytes b' = []) \<and>
          (\<exists>j i. j \<le> i \<and> i \<le> length (drop k (fb_bytes buf)) \<and>
            content r' = write_at (content r1) (fb_offset buf + k) (take i (drop k (fb_bytes buf))) \<and>
            fb_bytes b' = drop j (drop k (fb_bytes buf)) \<and> fb_offset b' = fb_offset buf + k + j \<and>
            fb_capacity b' = fb_capacity buf \<and> (fb_bytes b' \<noteq> [] \<longrightarrow> fb_dirty b'))"
        using less.hyps [OF _ run] less.prems(3) False k(1,2,4) by (auto simp: advance_buffer_def)
      then obtain j i where ji: "j \<le> i" "i \<le> length (drop k (fb_bytes buf))"
          "content r' = write_at (content r1) (fb_offset buf + k) (take i (drop k (fb_bytes buf)))"
          "fb_bytes b' = drop j (drop k (fb_bytes buf))" "fb_offset b' = fb_offset buf + k + j"
          "fb_capacity b' = fb_capacity buf" "fb_bytes b' \<noteq> [] \<longrightarrow> fb_dirty b'"
        by blast
      have "content r' = write_at (content r) (fb_offset buf) (take (k + i) (fb_bytes buf))"
        using ji(3) k(3,5) write_at_append [of "content r" "fb_offset buf" "take k (fb_bytes buf)" "take i (drop k (fb_bytes buf))"]
        by (simp add: take_add min_absorb2)
      with IH ji k show ?thesis by (intro conjI exI [of _ "k + j"] exI [of _ "k + i"]) (auto simp: add.commute)
    qed
  qed
qed

lemma flush_buffer_calm:
  "inv r \<Longrightarrow> calm r \<Longrightarrow> (fb_bytes b \<noteq> [] \<longrightarrow> fb_dirty b \<and> cached r \<le> fb_offset b) \<Longrightarrow>
   \<exists>b' r'. flush_buffer ops (b, r) = (Inr (), (b', r')) \<and> calm r'"
proof (cases "fb_bytes b = []")
  case False
  assume "inv r" "calm r" "fb_bytes b \<noteq> [] \<longrightarrow> fb_dirty b \<and> cached r \<le> fb_offset b"
  moreover then obtain r1 where "fo_pwrite ops (fb_bytes b) (fb_offset b) r = (Inr (length (fb_bytes b)), r1)" "calm r1"
    using pwrite_calm False by blast
  ultimately show ?thesis using False by (simp add: flush_buffer.simps [of ops] advance_buffer_def)
qed (auto simp: flush_buffer.simps)

text \<open>The state of a handle: its content, the offsets it may answer from memory, its invariant.\<close>

definition bcontent :: "'h buffered_file_handle \<Rightarrow> byte list" where
  "bcontent h = wb_overlay (content (bh_raw h)) (bh_write_buffer h)"

definition bcached :: "'h buffered_file_handle \<Rightarrow> nat" where
  "bcached h = max (cached (bh_raw h)) (buffers_end (bh_buffers h))"

definition binv :: "'h buffered_file_handle \<Rightarrow> bool" where
  "binv h \<longleftrightarrow> inv (bh_raw h) \<and> bh_buffers h \<noteq> [] \<and> wb_ok (bh_write_buffer h) \<and>
     (fb_bytes (bh_write_buffer h) \<noteq> [] \<longrightarrow> bcached h \<le> fb_offset (bh_write_buffer h)) \<and>
     (\<forall>b\<in>set (bh_buffers h). rb_ok (content (bh_raw h)) b)"

definition bcalm :: "'h buffered_file_handle \<Rightarrow> bool" where
  "bcalm h \<longleftrightarrow> calm (bh_raw h)"

lemma flush_handle_any:
  assumes "on_write_buffer (flush_buffer ops) h = (res, h')" and "binv h"
  shows "binv h'" and "bcontent h' = bcontent h" and "bcached h' \<le> bcached h"
    and "res = Inl e \<Longrightarrow> \<exists>c. e = Err c" and "res = Inr () \<Longrightarrow> fb_bytes (bh_write_buffer h') = []"
proof -
  let ?b = "bh_write_buffer h" and ?r = "bh_raw h"
  obtain b' r' where run: "flush_buffer ops (?b, ?r) = (res, (b', r'))" "h' = h\<lparr>bh_write_buffer := b', bh_raw := r'\<rparr>"
    using assms(1) by (auto simp: on_write_buffer_def zoomE_def split: prod.splits)
  have pre: "inv ?r" "fb_bytes ?b \<noteq> [] \<longrightarrow> fb_dirty ?b \<and> cached ?r \<le> fb_offset ?b"
    using assms(2) by (auto simp: binv_def wb_ok_def bcached_def)
  obtain j k where f: "inv r'" "cached r' \<le> cached ?r" "\<forall>e. res = Inl e \<longrightarrow> (\<exists>c. e = Err c)"
      "res = Inr () \<longrightarrow> fb_bytes b' = []" "j \<le> k" "k \<le> length (fb_bytes ?b)"
      "content r' = write_at (content ?r) (fb_offset ?b) (take k (fb_bytes ?b))"
      "fb_bytes b' = drop j (fb_bytes ?b)" "fb_offset b' = fb_offset ?b + j" "fb_capacity b' = fb_capacity ?b"
      "fb_bytes b' \<noteq> [] \<longrightarrow> fb_dirty b'"
    using flush_buffer_any [OF run(1) pre] by blast
  have rb: "rb_ok (content r') b" if "b \<in> set (bh_buffers h)" for b
  proof (cases "fb_bytes ?b = []")
    case True
    then show ?thesis using f(7) assms(2) that by (simp add: binv_def)
  next
    case False
    then have "buffer_end b \<le> fb_offset ?b"
      using assms(2) that by (auto simp: binv_def bcached_def buffers_end_le)
    then show ?thesis using rb_ok_write assms(2) that f(7) by (simp add: binv_def)
  qed
  show "bcontent h' = bcontent h"
    using write_at_rest [OF f(5,6)] f(7-9) run(2) by (simp add: bcontent_def wb_overlay_def)
  show "bcached h' \<le> bcached h" using f(2) run(2) by (auto simp: bcached_def)
  then show "binv h'" using assms(2) f rb run(2) by (auto simp: binv_def wb_ok_def bcached_def)
  show "\<exists>c. e = Err c" if "res = Inl e" using f(3) that by simp
  show "fb_bytes (bh_write_buffer h') = []" if "res = Inr ()" using f(4) run(2) that by simp
qed

lemma flush_handle_calm:
  assumes "binv h" and "bcalm h"
  obtains h' where "on_write_buffer (flush_buffer ops) h = (Inr (), h')" and "bcalm h'"
  using flush_buffer_calm [of "bh_raw h" "bh_write_buffer h"] assms
  by (auto simp: on_write_buffer_def zoomE_def binv_def bcalm_def bcached_def wb_ok_def)

text \<open>\<open>breads h0 h\<close>: only reads have happened since \<open>h0\<close>, whose write buffer was empty.\<close>

definition breads :: "'h buffered_file_handle \<Rightarrow> 'h buffered_file_handle \<Rightarrow> bool" where
  "breads h0 h \<longleftrightarrow> binv h \<and> fb_bytes (bh_write_buffer h) = [] \<and> content (bh_raw h) = content (bh_raw h0) \<and>
     bcached h \<le> max (bcached h0) (length (content (bh_raw h0)))"

lemma buffers_end_set: "set as = set bs \<Longrightarrow> buffers_end as = buffers_end bs"
  using buffers_end_le [of as "buffers_end bs"] buffers_end_le [of bs "buffers_end as"]
    buffers_end_le [of as "buffers_end as"] buffers_end_le [of bs "buffers_end bs"] by (simp add: le_antisym)

lemma set_move_to_front:
  assumes "bs \<noteq> []"
  shows "set (move_to_front f bs) = set bs" and "move_to_front f bs \<noteq> []"
proof -
  show "set (move_to_front f bs) = set bs"
  proof (cases "dropWhile (\<lambda>b. \<not> f b) bs")
    case Nil
    obtain ys y where "bs = ys @ [y]" using assms by (cases bs rule: rev_cases) auto
    then show ?thesis using Nil by (simp add: move_to_front_def)
  next
    case (Cons b rest)
    have "set bs = set (takeWhile (\<lambda>b. \<not> f b) bs @ b # rest)"
      using takeWhile_dropWhile_id [of "\<lambda>b. \<not> f b" bs] Cons by simp
    then show ?thesis using Cons by (simp add: move_to_front_def)
  qed
  show "move_to_front f bs \<noteq> []" by (simp add: move_to_front_def split: list.split)
qed

lemma breads_buffers:
  assumes "breads h0 h" and "bs \<noteq> []" and "\<forall>b\<in>set bs. rb_ok (content (bh_raw h0)) b"
    and "inv r" and "content r = content (bh_raw h0)" and "cached r \<le> max (bcached h0) (length (content (bh_raw h0)))"
  shows "breads h0 (h\<lparr>bh_raw := r, bh_nbuffers := n, bh_buffers := bs\<rparr>)"
proof -
  have "buffers_end bs \<le> length (content (bh_raw h0))"
    using assms(3) rb_ok_end by (auto simp: buffers_end_le)
  then show ?thesis using assms by (simp add: breads_def binv_def bcached_def)
qed

lemma breadsD:
  assumes "breads h0 h"
  shows "inv (bh_raw h)" and "content (bh_raw h) = content (bh_raw h0)" and "bh_buffers h \<noteq> []"
    and "\<forall>b\<in>set (bh_buffers h). rb_ok (content (bh_raw h0)) b"
    and "cached (bh_raw h) \<le> max (bcached h0) (length (content (bh_raw h0)))"
  using assms by (auto simp: breads_def binv_def bcached_def)

lemma find_buffer_reads:
  assumes "breads h0 h"
  shows "\<exists>h'. find_buffer ops off h = (Inr (), h') \<and> breads h0 h' \<and> (bcalm h \<longrightarrow> bcalm h')"
proof -
  define fits :: "file_buffer \<Rightarrow> bool" where "fits = (\<lambda>b. fb_offset b = off - off mod READ_BUFFER_CAPACITY)"
  note D = breadsD [OF assms]
  obtain ok r where m: "fo_malloc ops (bh_raw h) = (Inr ok, r)" "inv r" "content r = content (bh_raw h0)"
      "cached r \<le> cached (bh_raw h)" "calm (bh_raw h) \<longrightarrow> calm r"
    using malloc_any [OF D(1)] malloc_calm [OF D(1)] D(2) by (metis prod.exhaust_sel snd_conv)
  have front: "breads h0 (h\<lparr>bh_raw := r', bh_nbuffers := bh_nbuffers h, bh_buffers := move_to_front fits (bh_buffers h)\<rparr>)"
    if "inv r'" "content r' = content (bh_raw h0)" "cached r' \<le> cached (bh_raw h)" for r'
    using set_move_to_front [OF D(3)] D that by (intro breads_buffers [OF assms]) auto
  have new: "breads h0 (h\<lparr>bh_raw := r, bh_nbuffers := bh_nbuffers h + 1,
      bh_buffers := new_buffer READ_BUFFER_CAPACITY # bh_buffers h\<rparr>)"
    using D m by (intro breads_buffers [OF assms]) (auto simp: rb_ok_def new_buffer_def)
  have raw: "h\<lparr>bh_raw := bh_raw h, bh_nbuffers := bh_nbuffers h, bh_buffers := x\<rparr> = h\<lparr>bh_buffers := x\<rparr>"
    "h\<lparr>bh_raw := r, bh_nbuffers := bh_nbuffers h, bh_buffers := x\<rparr> = h\<lparr>bh_raw := r, bh_buffers := x\<rparr>" for x
    by simp_all
  show ?thesis
    using D(3) m new front [of r] front [of "bh_raw h"] D
    by (auto simp: find_buffer_def Let_def bindE_def on_raw_def zoomE_def bcalm_def raw simp flip: fits_def)
qed

lemma load_buffer_from_eq:
  fixes b :: file_buffer and off n :: nat
  assumes "\<not> fb_dirty b"
  defines "b1 \<equiv> (if off < fb_offset b \<or> fb_offset b + fb_capacity b < off + n then b\<lparr>fb_offset := off, fb_bytes := []\<rparr> else b)"
  shows "load_buffer_from ops off n (b, r) =
    (case fo_pread ops (fb_capacity b1 - length (fb_bytes b1)) (fb_offset b1 + length (fb_bytes b1)) r of
       (Inl e, r') \<Rightarrow> (Inl e, (b1, r'))
     | (Inr got, r') \<Rightarrow> (Inr (), (b1\<lparr>fb_bytes := fb_bytes b1 @ got\<rparr>, r')))"
  using assms(1) unfolding b1_def load_buffer_from_def
  by (simp add: bindE_def zoomE_def split: prod.split sum.split)

lemma rb_ok_extend:
  assumes "rb_ok c b" and "prefix got (take (fb_capacity b - length (fb_bytes b)) (drop (fb_offset b + length (fb_bytes b)) c))"
  shows "rb_ok c (b\<lparr>fb_bytes := fb_bytes b @ got\<rparr>)"
proof -
  have "got = take (length got) (drop (fb_offset b + length (fb_bytes b)) c)" "length got \<le> fb_capacity b - length (fb_bytes b)"
    using prefix_take_drop [OF assms(2)] by auto
  moreover have "take (length (fb_bytes b)) (drop (fb_offset b) c) = fb_bytes b" using assms(1) by (simp add: rb_ok_def)
  ultimately have "take (length (fb_bytes b) + length got) (drop (fb_offset b) c) = fb_bytes b @ got"
    using take_add [of "length (fb_bytes b)" "length got" "drop (fb_offset b) c"] by (simp add: add.commute)
  moreover have "length (fb_bytes b) + length got \<le> fb_capacity b"
    using assms(1) \<open>length got \<le> _\<close> by (auto simp: rb_ok_def)
  ultimately show ?thesis using assms(1) by (simp add: rb_ok_def)
qed

lemma rb_ok_moved:
  "rb_ok c b \<Longrightarrow> rb_ok c (if moved then b\<lparr>fb_offset := off, fb_bytes := []\<rparr> else b)"
  by (simp add: rb_ok_def)

lemma load_buffer_any:
  assumes "load_buffer_from ops off n (b, r) = (res, (b', r'))" and "inv r" and "rb_ok (content r) b"
  shows "inv r'" and "content r' = content r" and "cached r' \<le> max (cached r) (length (content r))"
    and "rb_ok (content r) b'" and "res = Inl e \<Longrightarrow> \<exists>c. e = Err c"
proof -
  define b1 where "b1 = (if off < fb_offset b \<or> fb_offset b + fb_capacity b < off + n then b\<lparr>fb_offset := off, fb_bytes := []\<rparr> else b)"
  have b1: "rb_ok (content r) b1" unfolding b1_def by (rule rb_ok_moved [OF assms(3)])
  obtain x r1 where x: "fo_pread ops (fb_capacity b1 - length (fb_bytes b1)) (fb_offset b1 + length (fb_bytes b1)) r = (x, r1)"
    by fastforce
  have "\<not> fb_dirty b" using assms(3) by (simp add: rb_ok_def)
  note run = assms(1) [unfolded load_buffer_from_eq [OF this] b1_def [symmetric] x]
  have "inv r' \<and> content r' = content r \<and> cached r' \<le> max (cached r) (length (content r)) \<and> rb_ok (content r) b' \<and>
      (\<forall>e. res = Inl e \<longrightarrow> (\<exists>c. e = Err c))"
  proof (cases x)
    case (Inl e)
    then show ?thesis using pread_Inl [OF assms(2) x [unfolded Inl]] run b1 by auto
  next
    case (Inr got)
    then show ?thesis using pread_Inr [OF assms(2) x [unfolded Inr]] run rb_ok_extend [OF b1, of got] by auto
  qed
  then show "inv r'" "content r' = content r" "cached r' \<le> max (cached r) (length (content r))" "rb_ok (content r) b'"
      "res = Inl e \<Longrightarrow> \<exists>c. e = Err c" by blast+
qed

text \<open>Without disturbances a loaded buffer is filled, so reading from it makes progress.\<close>

lemma load_buffer_calm:
  fixes off n :: nat
  assumes "inv r" and "calm r" and "rb_ok (content r) b" and "0 < n"
  defines "start \<equiv> off - off mod READ_BUFFER_CAPACITY"
  shows "\<exists>b' r'. load_buffer_from ops start (off + n - start) (b, r) = (Inr (), (b', r')) \<and> calm r' \<and>
    (\<exists>k. 0 < k \<and> k \<le> n \<and> read_from_buffer b' n off = take k (drop off (content r)))"
proof -
  define b1 where "b1 = (if start < fb_offset b \<or> fb_offset b + fb_capacity b < start + (off + n - start)
    then b\<lparr>fb_offset := start, fb_bytes := []\<rparr> else b)"
  have b1: "rb_ok (content r) b1" unfolding b1_def by (rule rb_ok_moved [OF assms(3)])
  define got where "got = take (fb_capacity b1 - length (fb_bytes b1)) (drop (fb_offset b1 + length (fb_bytes b1)) (content r))"
  obtain r1 where x: "fo_pread ops (fb_capacity b1 - length (fb_bytes b1)) (fb_offset b1 + length (fb_bytes b1)) r = (Inr got, r1)"
      "calm r1"
    using pread_calm [OF assms(1,2)] unfolding got_def by blast
  define b' where "b' = b1\<lparr>fb_bytes := fb_bytes b1 @ got\<rparr>"
  have "take (length (fb_bytes b1)) (drop (fb_offset b1) (content r)) = fb_bytes b1" "fb_capacity b1 = READ_BUFFER_CAPACITY"
      "length (fb_bytes b1) \<le> READ_BUFFER_CAPACITY"
    using b1 by (auto simp: rb_ok_def)
  then have full: "fb_bytes b' = take READ_BUFFER_CAPACITY (drop (fb_offset b') (content r))"
    using take_add [of "length (fb_bytes b1)" "READ_BUFFER_CAPACITY - length (fb_bytes b1)" "drop (fb_offset b1) (content r)"]
    by (simp add: b'_def got_def add.commute)
  have start: "start \<le> off" "off < start + READ_BUFFER_CAPACITY"
    by (auto simp: start_def READ_BUFFER_CAPACITY_def)
  have cap: "fb_capacity b = READ_BUFFER_CAPACITY" using assms(3) by (simp add: rb_ok_def)
  have inside: "fb_offset b' \<le> off" "off < fb_offset b' + READ_BUFFER_CAPACITY"
    using start assms(4) cap by (auto simp: b'_def b1_def)
  define k where "k = min n (READ_BUFFER_CAPACITY - (off - fb_offset b'))"
  have "read_from_buffer b' n off = take k (drop off (content r))"
  proof (cases "fb_offset b' + length (fb_bytes b') \<le> off")
    case True
    then have "length (content r) \<le> off" using inside by (auto simp: full)
    then show ?thesis using True by (simp add: read_from_buffer_def)
  next
    case False
    then show ?thesis using inside
      by (simp add: read_from_buffer_def full k_def drop_take min_def)
  qed
  moreover have "0 < k" "k \<le> n" using assms(4) inside by (auto simp: k_def)
  moreover have "\<not> fb_dirty b" using assms(3) by (simp add: rb_ok_def)
  ultimately show ?thesis using x
    by (intro exI [of _ b'] exI [of _ r1]) (simp add: load_buffer_from_eq b'_def flip: b1_def, blast)
qed

lemma load_first_any:
  assumes "breads h0 h" and "on_first_buffer (load_buffer_from ops off n) h = (res, h')"
  shows "breads h0 h'" and "res = Inl e \<Longrightarrow> \<exists>c. e = Err c"
proof -
  note D = breadsD [OF assms(1)]
  obtain b bs where bs: "bh_buffers h = b # bs" using D(3) by (cases "bh_buffers h") auto
  obtain b' r' where run: "load_buffer_from ops off n (b, bh_raw h) = (res, (b', r'))"
      "h' = h\<lparr>bh_raw := r', bh_nbuffers := bh_nbuffers h, bh_buffers := b' # bs\<rparr>"
    using assms(2) bs by (auto simp: on_first_buffer_def zoomE_def split: prod.splits)
  have "rb_ok (content (bh_raw h)) b" using D(2,4) bs by simp
  note L = load_buffer_any [OF run(1) D(1) this]
  show "breads h0 h'" unfolding run(2) using D bs L(1-4) by (intro breads_buffers [OF assms(1)]) auto
  show "\<exists>c. e = Err c" if "res = Inl e" by (rule L(5) [OF that])
qed

lemma load_first_calm:
  fixes off n :: nat
  assumes "breads h0 h" and "bcalm h" and "0 < n"
  defines "start \<equiv> off - off mod READ_BUFFER_CAPACITY"
  shows "\<exists>h'. on_first_buffer (load_buffer_from ops start (off + n - start)) h = (Inr (), h') \<and> bcalm h' \<and>
    (\<exists>k. 0 < k \<and> k \<le> n \<and> read_from_buffer (hd (bh_buffers h')) n off = take k (drop off (content (bh_raw h0))))"
proof -
  note D = breadsD [OF assms(1)]
  obtain b bs where bs: "bh_buffers h = b # bs" using D(3) by (cases "bh_buffers h") auto
  have "rb_ok (content (bh_raw h)) b" using D(2,4) bs by simp
  from load_buffer_calm [OF D(1) _ this assms(3), of off] show ?thesis
    using assms(2) bs D(2) by (fastforce simp: on_first_buffer_def zoomE_def bcalm_def start_def)
qed

lemma buffered_read_any:
  assumes "breads h0 h" and "buffered_read ops n off h = (res, h')"
  shows "breads h0 h'" and "res = Inl e \<Longrightarrow> \<exists>c. e = Err c"
    and "res = Inr got \<Longrightarrow> \<exists>k\<le>n. got = take k (drop off (content (bh_raw h0)))"
proof -
  obtain h1 where h1: "find_buffer ops off h = (Inr (), h1)" "breads h0 h1"
    using find_buffer_reads [OF assms(1)] by blast
  have read: "\<exists>k\<le>n. read_from_buffer (hd (bh_buffers h)) n off = take k (drop off (content (bh_raw h0)))"
    if "breads h0 h" for h
    using rb_ok_read [of "content (bh_raw h0)" "hd (bh_buffers h)"] breadsD(3,4) [OF that] by auto
  define start where "start = off - off mod READ_BUFFER_CAPACITY"
  obtain x h2 where h2: "on_first_buffer (load_buffer_from ops start (off + n - start)) h1 = (x, h2)" by fastforce
  note L = load_first_any [OF h1(2) h2]
  have "breads h0 h' \<and> (\<forall>e. res = Inl e \<longrightarrow> (\<exists>c. e = Err c)) \<and>
      (\<forall>got. res = Inr got \<longrightarrow> (\<exists>k\<le>n. got = take k (drop off (content (bh_raw h0)))))"
    using assms(2) h1 h2 L read [OF h1(2)] read [OF L(1)]
    by (cases x) (auto simp: buffered_read_def bindE_def Let_def simp flip: start_def split: if_splits)
  then show "breads h0 h'" "res = Inl e \<Longrightarrow> \<exists>c. e = Err c"
    "res = Inr got \<Longrightarrow> \<exists>k\<le>n. got = take k (drop off (content (bh_raw h0)))" by blast+
qed

lemma buffered_read_calm:
  assumes "breads h0 h" and "bcalm h" and "0 < n"
  shows "\<exists>k h'. buffered_read ops n off h = (Inr (take k (drop off (content (bh_raw h0)))), h') \<and> bcalm h' \<and> 0 < k \<and> k \<le> n"
proof -
  obtain h1 where h1: "find_buffer ops off h = (Inr (), h1)" "breads h0 h1" "bcalm h1"
    using find_buffer_reads [OF assms(1)] assms(2) by blast
  let ?got = "read_from_buffer (hd (bh_buffers h1)) n off"
  obtain k where k: "k \<le> n" "?got = take k (drop off (content (bh_raw h0)))"
    using rb_ok_read [of "content (bh_raw h0)" "hd (bh_buffers h1)" n off] breadsD(3,4) [OF h1(2)] by auto
  show ?thesis
  proof (cases "?got = []")
    case True
    then show ?thesis using load_first_calm [OF h1(2,3) assms(3), of off] h1(1)
      by (auto simp: buffered_read_def bindE_def Let_def)
  next
    case False
    then have "0 < k" using k by (cases k) auto
    then show ?thesis using False h1 k by (auto simp: buffered_read_def bindE_def)
  qed
qed

lemma take_drop_step:
  assumes "got = take k (drop off c)" and "k \<le> n"
  shows "take n (drop off c) = got @ take (n - length got) (drop (off + length got) c)"
proof (cases "k \<le> length c - off")
  case True
  then have "length got = k" using assms(1) by simp
  then show ?thesis using assms take_add [of k "n - k" "drop off c"] by (simp add: add.commute)
next
  case False
  then show ?thesis using assms by simp
qed

lemma buffered_read_loop_any:
  "breads h0 h \<Longrightarrow> buffered_read_loop ops n off h = (res, h') \<Longrightarrow>
   breads h0 h' \<and> (\<forall>e. res = Inl e \<longrightarrow> (\<exists>c. e = Err c)) \<and>
   (\<forall>bs. res = Inr bs \<longrightarrow> prefix bs (take n (drop off (content (bh_raw h0)))))"
proof (induction n arbitrary: off h res h' rule: less_induct)
  case (less n)
  show ?case
  proof (cases "n = 0")
    case True
    then show ?thesis using less.prems by (auto simp: buffered_read_loop.simps)
  next
    case False
    obtain x h1 where x: "buffered_read ops n off h = (x, h1)" by fastforce
    note R = buffered_read_any [OF less.prems(1) x]
    show ?thesis
    proof (cases x)
      case (Inl e)
      then show ?thesis using less.prems(2) False x R by (auto simp: buffered_read_loop.simps [of ops n] bindE_def)
    next
      case (Inr got)
      then obtain k where k: "k \<le> n" "got = take k (drop off (content (bh_raw h0)))" using R(3) by blast
      show ?thesis
      proof (cases "got = []")
        case True
        then show ?thesis using less.prems(2) False x R(1) Inr by (auto simp: buffered_read_loop.simps [of ops n] bindE_def)
      next
        case nonempty: False
        obtain y h2 where y: "buffered_read_loop ops (n - length got) (off + length got) h1 = (y, h2)" by fastforce
        have "n - length got < n" using False nonempty by simp
        note IH = less.IH [OF this R(1) y]
        show ?thesis
          using less.prems(2) False x Inr nonempty y IH take_drop_step [OF k(2,1)]
          by (cases y) (auto simp: buffered_read_loop.simps [of ops n] bindE_def)
      qed
    qed
  qed
qed

lemma buffered_read_loop_calm:
  "breads h0 h \<Longrightarrow> bcalm h \<Longrightarrow>
   \<exists>h'. buffered_read_loop ops n off h = (Inr (take n (drop off (content (bh_raw h0)))), h') \<and> bcalm h'"
proof (induction n arbitrary: off h rule: less_induct)
  case (less n)
  show ?case
  proof (cases "n = 0")
    case True
    then show ?thesis using less.prems by (simp add: buffered_read_loop.simps)
  next
    case False
    then obtain k h1 where x: "buffered_read ops n off h = (Inr (take k (drop off (content (bh_raw h0)))), h1)"
        "bcalm h1" "0 < k" "k \<le> n"
      using buffered_read_calm [OF less.prems, of n off] by auto
    define got where "got = take k (drop off (content (bh_raw h0)))"
    note step = take_drop_step [OF got_def x(4)]
    show ?thesis
    proof (cases "got = []")
      case True
      then have "length (content (bh_raw h0)) \<le> off" using x(3) by (simp add: got_def)
      then show ?thesis using x False True by (simp add: buffered_read_loop.simps [of ops n] bindE_def)
    next
      case nonempty: False
      then have "n - length got < n" using False by simp
      from less.IH [OF this buffered_read_any(1) [OF less.prems(1) x(1)] x(2), of "off + length got"]
      show ?thesis using x(1) False nonempty step
        by (auto simp: buffered_read_loop.simps [of ops n] bindE_def simp flip: got_def)
    qed
  qed
qed

lemma buffered_pread_any:
  assumes "buffered_pread ops n off h = (res, h')" and "binv h"
  shows "binv h' \<and> bcontent h' = bcontent h \<and> bcached h' \<le> max (bcached h) (length (bcontent h)) \<and>
    (\<forall>e. res = Inl e \<longrightarrow> (\<exists>c. e = Err c)) \<and> (\<forall>bs. res = Inr bs \<longrightarrow> prefix bs (take n (drop off (bcontent h))))"
proof -
  obtain x h1 where x: "on_write_buffer (flush_buffer ops) h = (x, h1)" by fastforce
  note F = flush_handle_any [OF x assms(2)]
  show ?thesis
  proof (cases x)
    case (Inl e)
    then show ?thesis using assms(1) x F by (auto simp: buffered_pread_def bindE_def)
  next
    case (Inr u)
    then have wb: "fb_bytes (bh_write_buffer h1) = []" using F(5) by simp
    then have "breads h1 h1" and c: "content (bh_raw h1) = bcontent h" using F(1,2) by (simp_all add: breads_def bcontent_def wb_overlay_def)
    moreover have "buffered_read_loop ops n off h1 = (res, h')"
      using assms(1) x Inr by (simp add: buffered_pread_def bindE_def)
    ultimately have R: "breads h1 h'" "\<forall>e. res = Inl e \<longrightarrow> (\<exists>c. e = Err c)"
        "\<forall>bs. res = Inr bs \<longrightarrow> prefix bs (take n (drop off (bcontent h)))"
      using buffered_read_loop_any [of h1 h1 n off res h'] by simp_all
    have "bcontent h' = content (bh_raw h')" using R(1) by (simp add: breads_def bcontent_def wb_overlay_def)
    then show ?thesis using R F(3) c by (auto simp: breads_def)
  qed
qed

lemma buffered_pread_calm:
  assumes "binv h" and "bcalm h"
  shows "\<exists>h'. buffered_pread ops n off h = (Inr (take n (drop off (bcontent h))), h') \<and> bcalm h'"
proof -
  obtain h1 where x: "on_write_buffer (flush_buffer ops) h = (Inr (), h1)" "bcalm h1"
    by (rule flush_handle_calm [OF assms])
  note F = flush_handle_any [OF x(1) assms(1)]
  have "breads h1 h1" "content (bh_raw h1) = bcontent h"
    using F(1,2,5) by (simp_all add: breads_def bcontent_def wb_overlay_def)
  then show ?thesis using buffered_read_loop_calm [OF _ x(2), of h1 n off] x(1) by (simp add: buffered_pread_def bindE_def)
qed

lemma buffer_write_any:
  assumes "buffer_write bs off h = (res, h')" and "binv h" and "bcached h \<le> off"
  obtains n where "res = Inr n" and "n \<le> length bs" and "binv h'" and "bcontent h' = write_at (bcontent h) off (take n bs)"
    and "bcached h' = bcached h" and "bh_raw h' = bh_raw h" and "bh_buffers h' = bh_buffers h"
    and "n < length bs \<Longrightarrow> n = 0 \<or> length (fb_bytes (bh_write_buffer h')) = fb_capacity (bh_write_buffer h')"
    and "fb_bytes (bh_write_buffer h) = [] \<Longrightarrow> length bs \<le> WRITE_BUFFER_CAPACITY \<Longrightarrow> n = length bs"
proof -
  obtain n b' where w: "write_to_buffer (bh_write_buffer h) bs off = (n, b')" by fastforce
  have ok: "wb_ok (bh_write_buffer h)" using assms(2) by (simp add: binv_def)
  note W = write_to_buffer_spec [OF w ok]
  have run: "res = Inr n" "h' = h\<lparr>bh_write_buffer := b'\<rparr>" using assms(1) w by (simp_all add: buffer_write_def)
  have cap: "length (fb_bytes b') \<le> fb_capacity b'" using W(1) by (simp add: wb_ok_def)
  show ?thesis
  proof (rule that [OF run(1) W(2)])
    show "binv h'" using assms(2,3) W(1) W(4) [of "bcached h"] run(2) by (simp add: binv_def bcached_def)
    show "bcontent h' = write_at (bcontent h) off (take n bs)" using W(3) run(2) by (simp add: bcontent_def)
    show "n = 0 \<or> length (fb_bytes (bh_write_buffer h')) = fb_capacity (bh_write_buffer h')" if "n < length bs"
      using W(7) cap that run(2) by (auto simp: le_less)
  qed (use W(8) run(2) in \<open>simp_all add: bcached_def\<close>)
qed

lemma raw_write_binv:
  assumes "binv h" and "fb_bytes (bh_write_buffer h) = []" and "bcached h \<le> off" and "inv r"
    and "content r = write_at (content (bh_raw h)) off bs" and "cached r \<le> cached (bh_raw h)"
  shows "binv (h\<lparr>bh_raw := r\<rparr>)" and "bcontent (h\<lparr>bh_raw := r\<rparr>) = write_at (bcontent h) off bs"
    and "bcached (h\<lparr>bh_raw := r\<rparr>) \<le> bcached h"
proof -
  have "rb_ok (content r) b" if "b \<in> set (bh_buffers h)" for b
  proof -
    have "buffer_end b \<le> off" using assms(3) that by (auto simp: bcached_def buffers_end_le)
    then show ?thesis using rb_ok_write assms(1,5) that by (simp add: binv_def)
  qed
  then show "binv (h\<lparr>bh_raw := r\<rparr>)" using assms by (simp add: binv_def)
  show "bcontent (h\<lparr>bh_raw := r\<rparr>) = write_at (bcontent h) off bs" "bcached (h\<lparr>bh_raw := r\<rparr>) \<le> bcached h"
    using assms(2,5,6) by (auto simp: bcontent_def wb_overlay_def bcached_def)
qed

text \<open>The second half of a write: what did not fit into the write buffer, which is then empty.\<close>

lemma buffered_pwrite_rest:
  assumes "binv h" and "fb_bytes (bh_write_buffer h) = []" and "bcached h \<le> off"
    and "(if length bs \<le> fb_capacity (bh_write_buffer h) - length (fb_bytes (bh_write_buffer h))
          then buffer_write bs off else on_raw (fo_pwrite ops bs off)) h = (res, h')"
  shows "binv h' \<and> bcached h' \<le> bcached h \<and> (\<forall>e. res = Inl e \<longrightarrow> (\<exists>c. e = Err c)) \<and>
    (\<exists>k. bcontent h' = write_at (bcontent h) off (take k bs) \<and> (\<forall>n. res = Inr n \<longrightarrow> n = k \<and> k \<le> length bs \<and> (bs \<noteq> [] \<longrightarrow> 0 < k))) \<and>
    (bcalm h \<longrightarrow> res = Inr (length bs) \<and> bcalm h')"
proof (cases "length bs \<le> WRITE_BUFFER_CAPACITY")
  case True
  have "fb_capacity (bh_write_buffer h) = WRITE_BUFFER_CAPACITY" using assms(1) by (simp add: binv_def wb_ok_def)
  then have run: "buffer_write bs off h = (res, h')" using assms(2,4) True by simp
  obtain n where n: "res = Inr n" "binv h'" "bcontent h' = write_at (bcontent h) off (take n bs)"
      "bcached h' = bcached h" "bh_raw h' = bh_raw h" "n = length bs"
    by (rule buffer_write_any [OF run assms(1,3)]) (use assms(2) True in auto)
  then show ?thesis by (auto simp: bcalm_def intro!: exI [of _ "length bs"])
next
  case False
  have inv: "inv (bh_raw h)" "cached (bh_raw h) \<le> off" "fb_capacity (bh_write_buffer h) = WRITE_BUFFER_CAPACITY"
    using assms(1,3) by (auto simp: binv_def bcached_def wb_ok_def)
  then obtain r where w: "fo_pwrite ops bs off (bh_raw h) = (res, r)" "h' = h\<lparr>bh_raw := r\<rparr>"
    using assms(2,4) False by (auto simp: on_raw_def zoomE_def split: prod.splits)
  have calm: "bcalm h \<longrightarrow> res = Inr (length bs) \<and> bcalm h'"
    using pwrite_calm [OF inv(1,2), of bs] w by (auto simp: bcalm_def)
  show ?thesis
  proof (cases res)
    case (Inl e)
    obtain k where "inv r" "content r = write_at (content (bh_raw h)) off (take k bs)" "cached r \<le> cached (bh_raw h)" "\<exists>c. e = Err c"
      using pwrite_Inl [OF inv(1,2) w(1) [unfolded Inl]] by blast
    then show ?thesis using raw_write_binv [OF assms(1-3), of r "take k bs"] w(2) Inl calm by auto
  next
    case (Inr k)
    then show ?thesis using pwrite_Inr [OF inv(1,2) w(1) [unfolded Inr]]
        raw_write_binv [OF assms(1-3), of r "take k bs"] w(2) calm by auto
  qed
qed

lemma write_at_more: "n \<le> length bs \<Longrightarrow>
    write_at (write_at c off (take n bs)) (off + n) (take m (drop n bs)) = write_at c off (take (n + m) bs)"
  using write_at_append [of c off "take n bs" "take m (drop n bs)"] by (simp add: take_add min_absorb2)

lemma buffered_pwrite_eq:
  assumes "bs \<noteq> []" and "buffer_write bs off h = (Inr n, h1)"
    and "(if length (fb_bytes (bh_write_buffer h1)) = fb_capacity (bh_write_buffer h1) \<or> n = 0
          then on_write_buffer (flush_buffer ops) else returnE ()) h1 = (y, h2)"
  shows "buffered_pwrite ops bs off h =
    (case y of
       Inl e \<Rightarrow> (Inl e, h2)
     | Inr _ \<Rightarrow>
         if drop n bs = [] then (Inr n, h2)
         else bindE (if length (drop n bs) \<le> fb_capacity (bh_write_buffer h2) - length (fb_bytes (bh_write_buffer h2))
           then buffer_write (drop n bs) (off + n) else on_raw (fo_pwrite ops (drop n bs) (off + n)))
           (\<lambda>written. returnE (n + written)) h2)"
  using assms by (simp add: buffered_pwrite_def bindE_def Let_def split: sum.split del: drop_eq_Nil)

lemma buffered_pwrite_any:
  assumes "buffered_pwrite ops bs off h = (res, h')" and "binv h" and "bcached h \<le> off" and "bs \<noteq> []"
  shows "binv h' \<and> bcached h' \<le> bcached h \<and> (\<forall>e. res = Inl e \<longrightarrow> (\<exists>c. e = Err c)) \<and>
    (\<exists>k. bcontent h' = write_at (bcontent h) off (take k bs) \<and> (\<forall>n. res = Inr n \<longrightarrow> n = k \<and> k \<le> length bs \<and> 0 < k)) \<and>
    (bcalm h \<longrightarrow> res = Inr (length bs) \<and> bcalm h')"
proof -
  obtain x h1 where "buffer_write bs off h = (x, h1)" by fastforce
  note b = this
  obtain n where n: "x = Inr n" "n \<le> length bs" "binv h1" "bcontent h1 = write_at (bcontent h) off (take n bs)"
      "bcached h1 = bcached h" "bh_raw h1 = bh_raw h"
      "n < length bs \<Longrightarrow> n = 0 \<or> length (fb_bytes (bh_write_buffer h1)) = fb_capacity (bh_write_buffer h1)"
    by (rule buffer_write_any [OF b assms(2,3)]) blast
  define full where "full \<longleftrightarrow> length (fb_bytes (bh_write_buffer h1)) = fb_capacity (bh_write_buffer h1) \<or> n = 0"
  obtain y h2 where y: "(if full then on_write_buffer (flush_buffer ops) else returnE ()) h1 = (y, h2)" by fastforce
  have F: "binv h2 \<and> bcontent h2 = bcontent h1 \<and> bcached h2 \<le> bcached h \<and> (\<forall>e. y = Inl e \<longrightarrow> (\<exists>c. e = Err c)) \<and>
      (full \<longrightarrow> y = Inr () \<longrightarrow> fb_bytes (bh_write_buffer h2) = [])"
  proof (cases full)
    case True
    then have "on_write_buffer (flush_buffer ops) h1 = (y, h2)" using y by simp
    from flush_handle_any [OF this n(3)] show ?thesis using n(5) by simp
  next
    case False
    then show ?thesis using y n(3,5) by auto
  qed
  have calm2: "y = Inr () \<and> bcalm h2" if "bcalm h"
  proof (cases full)
    case True
    have "bcalm h1" using that n(6) by (simp add: bcalm_def)
    then obtain h' where "on_write_buffer (flush_buffer ops) h1 = (Inr (), h')" "bcalm h'"
      by (rule flush_handle_calm [OF n(3)])
    then show ?thesis using y True by simp
  next
    case False
    then show ?thesis using y that n(6) by (auto simp: bcalm_def)
  qed
  note run = buffered_pwrite_eq [OF assms(4) b [unfolded n(1)] y [unfolded full_def]]
  show ?thesis
  proof (cases y)
    case (Inl e)
    then have "res = Inl e" "h' = h2" using assms(1) run by simp_all
    then show ?thesis using n F calm2 Inl by auto
  next
    case (Inr u)
    show ?thesis
    proof (cases "n = length bs")
      case True
      then have "res = Inr n" "h' = h2" using assms(1) run Inr by simp_all
      then show ?thesis using F n(4) calm2 True assms(4) by (intro conjI exI [of _ n]) auto
    next
      case False
      then have "drop n bs \<noteq> []" and full using n(2,7) by (auto simp: full_def)
      then have wb: "fb_bytes (bh_write_buffer h2) = []" using F Inr by simp
      obtain z h3 where z: "(if length (drop n bs) \<le> fb_capacity (bh_write_buffer h2) - length (fb_bytes (bh_write_buffer h2))
          then buffer_write (drop n bs) (off + n) else on_raw (fo_pwrite ops (drop n bs) (off + n))) h2 = (z, h3)"
        by fastforce
      have "bcached h2 \<le> off + n" using F assms(3) by simp
      note R = buffered_pwrite_rest [OF conjunct1 [OF F] wb this z]
      have res: "res = (case z of Inl e \<Rightarrow> Inl e | Inr m \<Rightarrow> Inr (n + m))" "h' = h3"
        using assms(1) run Inr \<open>drop n bs \<noteq> []\<close> z by (auto simp: bindE_def split: sum.splits)
      obtain k where k: "bcontent h3 = write_at (bcontent h2) (off + n) (take k (drop n bs))"
          "\<forall>m. z = Inr m \<longrightarrow> m = k \<and> k \<le> length (drop n bs) \<and> 0 < k"
        using R \<open>drop n bs \<noteq> []\<close> by blast
      have "bcontent h3 = write_at (bcontent h) off (take (n + k) bs)"
        using k(1) F n(4) write_at_more [OF n(2), of "bcontent h" off k] by simp
      then show ?thesis using R F k(2) res n(2) calm2
        by (intro conjI exI [of _ "n + k"]) (auto split: sum.splits)
    qed
  qed
qed

lemma on_raw_app: "on_raw m h = (fst (m (bh_raw h)), h\<lparr>bh_raw := snd (m (bh_raw h))\<rparr>)"
  by (simp add: on_raw_def zoomE_def split: prod.split)

text \<open>An operation below that leaves the content alone.\<close>

lemma on_raw_frame:
  assumes "binv h" and "inv r" and "content r = content (bh_raw h)" and "cached r \<le> cached (bh_raw h)"
  shows "binv (h\<lparr>bh_raw := r\<rparr>) \<and> bcontent (h\<lparr>bh_raw := r\<rparr>) = bcontent h \<and> bcached (h\<lparr>bh_raw := r\<rparr>) \<le> bcached h"
  using assms by (auto simp: binv_def bcontent_def bcached_def)

lemma buffered_sync_any:
  assumes "buffered_sync ops h = (res, h')" and "binv h"
  shows "binv h' \<and> bcontent h' = bcontent h \<and> bcached h' \<le> bcached h \<and> (\<forall>e. res = Inl e \<longrightarrow> (\<exists>c. e = Err c))"
proof -
  obtain x h1 where x: "on_write_buffer (flush_buffer ops) h = (x, h1)" by fastforce
  note F = flush_handle_any [OF x assms(2)]
  show ?thesis
  proof (cases x)
    case (Inl e)
    then show ?thesis using assms(1) x F by (auto simp: buffered_sync_def bindE_def)
  next
    case (Inr u)
    obtain z r where z: "fo_sync ops (bh_raw h1) = (z, r)" by fastforce
    have "inv (bh_raw h1)" using F(1) by (simp add: binv_def)
    note S = sync_any [OF this z]
    have "res = z" "h' = h1\<lparr>bh_raw := r\<rparr>" using assms(1) x Inr z by (simp_all add: buffered_sync_def bindE_def on_raw_app)
    then show ?thesis using on_raw_frame [OF F(1), of r] F(2,3) S by auto
  qed
qed

lemma buffered_close_any:
  assumes "buffered_close ops h = (res, h')" and "binv h"
  shows "binv h' \<and> bcontent h' = bcontent h \<and> bcached h' \<le> bcached h \<and> res = Inr ()"
proof -
  obtain x h1 where x: "on_write_buffer (flush_buffer ops) h = (x, h1)" by fastforce
  note F = flush_handle_any [OF x assms(2)]
  have ign: "ignoreE (on_write_buffer (flush_buffer ops)) h = (Inr (), h1)"
    using x F(4) by (cases x) (auto simp: ignoreE_def)
  obtain z r where z: "fo_close ops (bh_raw h1) = (z, r)" by fastforce
  have "inv (bh_raw h1)" using F(1) by (simp add: binv_def)
  note C = close_any [OF this z]
  have "res = z" "h' = h1\<lparr>bh_raw := r\<rparr>" using assms(1) ign z by (simp_all add: buffered_close_def bindE_def on_raw_app)
  then show ?thesis using on_raw_frame [OF F(1), of r] F(2,3) C by auto
qed

lemma buffered_file_ops_simps [simp]:
  "fo_pread (buffered_file_ops ops) = buffered_pread ops" "fo_pwrite (buffered_file_ops ops) = buffered_pwrite ops"
  "fo_goto_eof (buffered_file_ops ops) = buffered_goto_eof ops" "fo_sync (buffered_file_ops ops) = buffered_sync ops"
  "fo_malloc (buffered_file_ops ops) = on_raw (fo_malloc ops)" "fo_open (buffered_file_ops ops) = buffered_open ops"
  "fo_close (buffered_file_ops ops) = buffered_close ops"
  by (simp_all add: buffered_file_ops_def)

lemma buffered_backend: "file_backend (buffered_file_ops ops) bcontent bcached binv bcalm"
proof (unfold_locales, unfold buffered_file_ops_simps, goal_cases)
  case (1 h n off bs h')
  then show ?case using buffered_pread_any [of n off h "Inr bs" h'] by simp
next
  case (2 h n off e h')
  then show ?case using buffered_pread_any [of n off h "Inl e" h'] by simp
next
  case (3 h n off)
  then show ?case by (rule buffered_pread_calm)
next
  case (4 h off bs k h')
  show ?case
  proof (cases "bs = []")
    case True
    then show ?thesis using 4 by (simp add: buffered_pwrite_def)
  qed (use buffered_pwrite_any [OF 4(3,1,2)] in auto)
next
  case (5 h off bs e h')
  then have "bs \<noteq> []" by (auto simp: buffered_pwrite_def)
  then show ?case using buffered_pwrite_any [OF 5(3,1,2)] by auto
next
  case (6 h off bs)
  show ?case
  proof (cases "bs = []")
    case True
    then show ?thesis using 6 by (simp add: buffered_pwrite_def)
  next
    case False
    obtain r h' where "buffered_pwrite ops bs off h = (r, h')" by fastforce
    then show ?thesis using buffered_pwrite_any [OF _ 6(1,2) False] 6(3) by auto
  qed
next
  case (7 h r h')
  then show ?case by (rule buffered_sync_any [rotated])
next
  case (8 h)
  obtain h1 where x: "on_write_buffer (flush_buffer ops) h = (Inr (), h1)" "bcalm h1"
    by (rule flush_handle_calm [OF 8])
  then have "inv (bh_raw h1)" "calm (bh_raw h1)" using flush_handle_any(1) [OF x(1) 8(1)] by (simp_all add: binv_def bcalm_def)
  then obtain r where "fo_sync ops (bh_raw h1) = (Inr (), r)" "calm r" using sync_calm by blast
  then show ?case using x by (simp add: buffered_sync_def bindE_def on_raw_app bcalm_def)
next
  case (9 h rm h')
  then have "inv (bh_raw h)" by (simp add: binv_def)
  obtain z r where z: "fo_malloc ops (bh_raw h) = (z, r)" by fastforce
  have "rm = z" "h' = h\<lparr>bh_raw := r\<rparr>" using 9(2) z by (simp_all add: on_raw_app )
  then show ?case using malloc_any [OF \<open>inv (bh_raw h)\<close> z] on_raw_frame [OF 9(1), of r] by auto
next
  case (10 h)
  then show ?case using malloc_calm [of "bh_raw h"] by (auto simp: on_raw_app binv_def bcalm_def)
next
  case (11 h fl ro h')
  then have "inv (bh_raw h)" by (simp add: binv_def)
  obtain z r where z: "fo_open ops fl (bh_raw h) = (z, r)" by fastforce
  have "ro = z" "h' = h\<lparr>bh_raw := r\<rparr>" using 11(2) z by (simp_all add: on_raw_app buffered_open_def)
  then show ?case using open_any [OF \<open>inv (bh_raw h)\<close> z] on_raw_frame [OF 11(1), of r] by auto
next
  case (12 h fl)
  then show ?case using open_calm [of "bh_raw h" fl] by (auto simp: on_raw_app binv_def bcalm_def buffered_open_def)
next
  case (13 h rc h')
  then show ?case by (intro buffered_close_any)
next
  case (14 h rg h')
  then have "inv (bh_raw h)" by (simp add: binv_def)
  obtain z r where z: "fo_goto_eof ops (bh_raw h) = (z, r)" by fastforce
  have "rg = z" "h' = h\<lparr>bh_raw := r\<rparr>" using 14(2) z by (simp_all add: on_raw_app buffered_goto_eof_def)
  then show ?case using eof_any [OF \<open>inv (bh_raw h)\<close> z] on_raw_frame [OF 14(1), of r] by auto
next
  case (15 h)
  then show ?case using eof_calm [of "bh_raw h"] by (auto simp: on_raw_app binv_def bcalm_def buffered_goto_eof_def)
qed

end

interpretation buf: file_backend "buffered_file_ops default_file_ops" os.bcontent os.bcached os.binv os.bcalm
  by (rule os.buffered_backend)

section \<open>Sequences of operations\<close>

datatype io_call = Pread nat nat | Pwrite "byte list" nat | Sync

fun io_run :: "'h couch_file_ops \<Rightarrow> io_call list \<Rightarrow> ('h, byte list list) cmd" where
  "io_run ops [] = returnE []"
| "io_run ops (Pread n off # cs) =
     bindE (fo_pread ops n off) (\<lambda>bs. bindE (io_run ops cs) (\<lambda>rs. returnE (bs # rs)))"
| "io_run ops (Pwrite bs off # cs) = bindE (fo_pwrite ops bs off) (\<lambda>_. io_run ops cs)"
| "io_run ops (Sync # cs) = bindE (fo_sync ops) (\<lambda>_. io_run ops cs)"

text \<open>What the reads of a sequence return, and the content it leaves.\<close>

fun io_spec :: "io_call list \<Rightarrow> byte list \<Rightarrow> byte list list \<times> byte list" where
  "io_spec [] c = ([], c)"
| "io_spec (Pread n off # cs) c = (case io_spec cs c of (rs, c') \<Rightarrow> (take n (drop off c) # rs, c'))"
| "io_spec (Pwrite bs off # cs) c = io_spec cs (write_at c off bs)"
| "io_spec (Sync # cs) c = io_spec cs c"

text \<open>No write goes below the end of the file, as in an append-only database file.\<close>

fun appending :: "io_call list \<Rightarrow> byte list \<Rightarrow> bool" where
  "appending [] c \<longleftrightarrow> True"
| "appending (Pread n off # cs) c \<longleftrightarrow> appending cs c"
| "appending (Pwrite bs off # cs) c \<longleftrightarrow> length c \<le> off \<and> appending cs (write_at c off bs)"
| "appending (Sync # cs) c \<longleftrightarrow> appending cs c"

context file_backend
begin

lemma io_run_calm:
  "inv h \<Longrightarrow> calm h \<Longrightarrow> cached h \<le> length (content h) \<Longrightarrow> appending cs (content h) \<Longrightarrow>
   \<exists>h'. io_run ops cs h = (Inr (fst (io_spec cs (content h))), h') \<and> inv h' \<and> calm h' \<and>
     content h' = snd (io_spec cs (content h))"
proof (induction cs arbitrary: h)
  case (Cons call cs)
  show ?case
  proof (cases call)
    case (Pread n off)
    obtain h1 where h1: "fo_pread ops n off h = (Inr (take n (drop off (content h))), h1)" "calm h1"
      using pread_calm [OF Cons.prems(1,2)] by blast
    have "inv h1" "content h1 = content h" "cached h1 \<le> length (content h1)"
      using pread_Inr [OF Cons.prems(1) h1(1)] Cons.prems(3) by auto
    then show ?thesis using Cons.IH [of h1] h1 Cons.prems(4) Pread by (auto simp: bindE_def split: prod.split)
  next
    case (Pwrite bs off)
    then have off: "cached h \<le> off" using Cons.prems(3,4) by simp
    obtain h1 where h1: "fo_pwrite ops bs off h = (Inr (length bs), h1)" "calm h1"
      using pwrite_calm [OF Cons.prems(1) off Cons.prems(2)] by blast
    have "inv h1" "content h1 = write_at (content h) off bs" "cached h1 \<le> cached h"
      using pwrite_Inr [OF Cons.prems(1) off h1(1)] by auto
    moreover then have "cached h1 \<le> length (content h1)" using Cons.prems(3) by (auto simp: length_write_at)
    ultimately show ?thesis using Cons.IH [of h1] h1 Cons.prems(4) Pwrite by (auto simp: bindE_def)
  next
    case Sync
    obtain h1 where h1: "fo_sync ops h = (Inr (), h1)" "calm h1" using sync_calm [OF Cons.prems(1,2)] by blast
    have "inv h1" "content h1 = content h" "cached h1 \<le> cached h" using sync_any [OF Cons.prems(1) h1(1)] by auto
    then show ?thesis using Cons.IH [of h1] h1 Cons.prems(3,4) Sync by (auto simp: bindE_def)
  qed
qed simp

lemma constructor_fresh:
  assumes "buffered_constructor ops r = (Some h, r')" and "inv r"
  shows "binv h" and "bcontent h = content r" and "bcached h \<le> cached r" and "bh_raw h = r'"
    and "bh_buffers h = [new_buffer READ_BUFFER_CAPACITY]" and "bh_write_buffer h = new_buffer WRITE_BUFFER_CAPACITY"
    and "calm r \<Longrightarrow> bcalm h"
proof -
  obtain a r1 where 1: "fo_malloc ops r = (Inr a, r1)" "inv r1" "content r1 = content r" "cached r1 \<le> cached r"
      "calm r \<Longrightarrow> calm r1 \<and> a"
    using malloc_any [OF assms(2)] malloc_calm [OF assms(2)] by (metis prod.exhaust_sel prod.inject sum.inject(2))
  obtain b r2 where 2: "fo_malloc ops r1 = (Inr b, r2)" "inv r2" "content r2 = content r1" "cached r2 \<le> cached r1"
      "calm r1 \<Longrightarrow> calm r2 \<and> b"
    using malloc_any [OF 1(2)] malloc_calm [OF 1(2)] by (metis prod.exhaust_sel prod.inject sum.inject(2))
  obtain c r3 where 3: "fo_malloc ops r2 = (Inr c, r3)" "inv r3" "content r3 = content r2" "cached r3 \<le> cached r2"
      "calm r2 \<Longrightarrow> calm r3 \<and> c"
    using malloc_any [OF 2(2)] malloc_calm [OF 2(2)] by (metis prod.exhaust_sel prod.inject sum.inject(2))
  have h: "r' = r3" "h = \<lparr>bh_raw = r3, bh_nbuffers = 1, bh_write_buffer = new_buffer WRITE_BUFFER_CAPACITY,
      bh_buffers = [new_buffer READ_BUFFER_CAPACITY]\<rparr>"
    using assms(1) 1(1) 2(1) 3(1) by (auto simp: buffered_constructor_def bindE_def split: if_splits bool.splits)
  show "binv h" "bcontent h = content r" "bcached h \<le> cached r" "bh_raw h = r'"
      "bh_buffers h = [new_buffer READ_BUFFER_CAPACITY]" "bh_write_buffer h = new_buffer WRITE_BUFFER_CAPACITY"
    using 1 2 3 h by (auto simp: binv_def bcontent_def bcached_def wb_overlay_def wb_ok_def rb_ok_def new_buffer_def buffer_end_def)
  show "bcalm h" if "calm r" using 1(5) 2(5) 3(5) h that by (simp add: bcalm_def)
qed

lemma constructor_calm:
  assumes "inv r" and "calm r"
  obtains h r' where "buffered_constructor ops r = (Some h, r')"
proof -
  obtain r1 where 1: "fo_malloc ops r = (Inr True, r1)" "inv r1" "calm r1"
    using malloc_any [OF assms(1)] malloc_calm [OF assms] by blast
  obtain r2 where 2: "fo_malloc ops r1 = (Inr True, r2)" "inv r2" "calm r2"
    using malloc_any [OF 1(2)] malloc_calm [OF 1(2,3)] by blast
  obtain r3 where 3: "fo_malloc ops r2 = (Inr True, r3)" using malloc_calm [OF 2(2,3)] by blast
  show ?thesis using that 1(1) 2(1) 3 by (simp add: buffered_constructor_def bindE_def)
qed

end

section \<open>Properties of the layer over \<^verbatim>\<open>os.c\<close>\<close>

lemma buffered_sync_written:
  assumes "os.binv h" and "buffered_sync default_file_ops h = (Inr (), h')"
  shows "os_content (bh_raw h') = os.bcontent h \<and> os_synced (bh_raw h') = os.bcontent h"
proof -
  obtain x h1 where x: "on_write_buffer (flush_buffer default_file_ops) h = (x, h1)" by fastforce
  note F = os.flush_handle_any [OF x assms(1)]
  have run: "x = Inr ()" "couch_sync (bh_raw h1) = (Inr (), bh_raw h')"
    using assms(2) x
    by (cases x; auto simp: buffered_sync_def bindE_def on_raw_def zoomE_def split: prod.splits)+
  then have "os_content (bh_raw h1) = os.bcontent h"
    using F(2,5) by (simp add: os.bcontent_def wb_overlay_def)
  then show ?thesis using couch_sync_spec [OF run(2)] by simp
qed

lemma io_run_append: "io_run ops (as @ bs) = bindE (io_run ops as) (\<lambda>rs. bindE (io_run ops bs) (\<lambda>rs'. returnE (rs @ rs')))"
proof (induction as)
  case (Cons a as)
  then show ?case by (cases a) (simp_all add: bindE_assoc)
qed (simp add: bindE_def fun_eq_iff split: prod.split sum.split)



text \<open>
  C22. Read buffers are not told about writes. On a file of at most 8192 bytes: read its beginning,
  overwrite it, sync, and read it again through the same handle: the second read returns the old
  bytes although the file below holds the new ones.
\<close>

theorem buffered_pread_stale:
  assumes "os_calm f" and "buffered_constructor default_file_ops f = (Some h, f')"
    and "0 < n" and "n \<le> length (os_content f)" and "length (os_content f) \<le> READ_BUFFER_CAPACITY"
    and "bs \<noteq> []" and "length bs < WRITE_BUFFER_CAPACITY"
  shows "\<exists>h1. io_run (buffered_file_ops default_file_ops) [Pread n 0, Pwrite bs 0, Sync, Pread n 0] h =
      (Inr [take n (os_content f), take n (os_content f)], h1) \<and>
    os_content (bh_raw h1) = write_at (os_content f) 0 bs"
proof -
  let ?c = "os_content f" and ?ops = "buffered_file_ops default_file_ops"
  define rb where "rb = (new_buffer READ_BUFFER_CAPACITY)\<lparr>fb_bytes := ?c\<rparr>"
  define wb where "wb = (new_buffer WRITE_BUFFER_CAPACITY)\<lparr>fb_bytes := bs, fb_dirty := True\<rparr>"
  define g where "g = f\<lparr>os_content := write_at ?c 0 bs\<rparr>"
  have h: "h = \<lparr>bh_raw = f, bh_nbuffers = 1, bh_write_buffer = new_buffer WRITE_BUFFER_CAPACITY,
      bh_buffers = [new_buffer READ_BUFFER_CAPACITY]\<rparr>"
    using assms(1,2) by (auto simp: buffered_constructor_def bindE_def os_malloc_def os_calm_def)
  have ne: "?c \<noteq> []" using assms(3,4) by auto
  have rb: "fb_offset rb = 0" "fb_bytes rb = ?c" by (simp_all add: rb_def new_buffer_def)
  have g: "os_calm g" "os_content g = write_at ?c 0 bs" using assms(1) by (simp_all add: g_def os_calm_def)
  have flush: "flush_buffer default_file_ops (b, r) = (Inr (), (b\<lparr>fb_dirty := False\<rparr>, r))" if "fb_bytes b = []" for b r
    using that by (simp add: flush_buffer.simps)
  have "buffered_pread default_file_ops n 0 h = (Inr (take n ?c), h\<lparr>bh_buffers := [rb]\<rparr>)"
  proof -
    have "on_write_buffer (flush_buffer default_file_ops) h = (Inr (), h)"
      using flush [of "new_buffer WRITE_BUFFER_CAPACITY" f] by (simp add: on_write_buffer_def zoomE_def h new_buffer_def)
    moreover have "on_first_buffer (load_buffer_from default_file_ops 0 n) h = (Inr (), h\<lparr>bh_buffers := [rb]\<rparr>)"
      using assms(1,4,5) by (simp add: on_first_buffer_def zoomE_def h load_buffer_from_def bindE_def new_buffer_def
          couch_pread_calm rb_def)
    moreover have "find_buffer default_file_ops 0 h = (Inr (), h)"
      by (simp add: find_buffer_def h new_buffer_def move_to_front_def Let_def)
    ultimately show ?thesis using assms(3,4) rb
      by (simp add: buffered_pread_def bindE_def buffered_read_loop.simps [of _ n] buffered_read_loop.simps [of _ 0]
          buffered_read_def read_from_buffer_def h new_buffer_def min_absorb2)
  qed
  moreover have "buffered_pwrite default_file_ops bs 0 (h\<lparr>bh_buffers := [rb]\<rparr>) =
      (Inr (length bs), h\<lparr>bh_buffers := [rb], bh_write_buffer := wb\<rparr>)"
    using assms(6,7) by (simp add: buffered_pwrite_def buffer_write_def bindE_def write_to_buffer_def h new_buffer_def
        wb_def Let_def)
  moreover have "buffered_sync default_file_ops (h\<lparr>bh_buffers := [rb], bh_write_buffer := wb\<rparr>) =
      (Inr (), h\<lparr>bh_buffers := [rb], bh_write_buffer := wb\<lparr>fb_bytes := [], fb_offset := length bs, fb_dirty := False\<rparr>,
         bh_raw := g\<lparr>os_synced := os_content g\<rparr>\<rparr>)"
    using assms(1,6) g by (simp add: buffered_sync_def bindE_def on_write_buffer_def on_raw_def zoomE_def h wb_def new_buffer_def
        flush_buffer.simps couch_pwrite_calm couch_sync_calm advance_buffer_def g_def)
  moreover have "buffered_pread default_file_ops n 0
      (h\<lparr>bh_buffers := [rb], bh_write_buffer := wb\<lparr>fb_bytes := [], fb_offset := length bs, fb_dirty := False\<rparr>, bh_raw := x\<rparr>) =
      (Inr (take n ?c), h\<lparr>bh_buffers := [rb], bh_write_buffer := wb\<lparr>fb_bytes := [], fb_offset := length bs, fb_dirty := False\<rparr>, bh_raw := x\<rparr>)"
    for x
    using assms(3,4) rb ne
    by (simp add: h buffered_pread_def bindE_def buffered_read_loop.simps [of _ n] buffered_read_loop.simps [of _ 0]
        buffered_read_def read_from_buffer_def on_write_buffer_def zoomE_def flush find_buffer_def Let_def move_to_front_def min_absorb2)
  ultimately show ?thesis using g by (simp add: bindE_def)
qed

section \<open>Witnesses\<close>

definition small_file :: os_file where
  "small_file = \<lparr>os_content = [1, 2, 3], os_synced = [], os_events = [], os_allocs = [], os_errinfo = 0\<rparr>"

definition small_handle :: "os_file buffered_file_handle" where
  "small_handle = \<lparr>bh_raw = small_file, bh_nbuffers = 1, bh_write_buffer = new_buffer WRITE_BUFFER_CAPACITY,
     bh_buffers = [new_buffer READ_BUFFER_CAPACITY]\<rparr>"

lemma small_handle_fresh: "os_calm small_file" "os_content small_file = [1, 2, 3]"
    "buffered_constructor default_file_ops small_file = (Some small_handle, small_file)"
  by (simp_all add: os_calm_def small_file_def small_handle_def buffered_constructor_def bindE_def os_malloc_def)



theorem buffered_pread_stale_witness:
  "\<exists>h1. io_run (buffered_file_ops default_file_ops) [Pread 2 0, Pwrite [9, 9] 0, Sync, Pread 2 0] small_handle =
      (Inr [[1, 2], [1, 2]], h1) \<and> os_content (bh_raw h1) = [9, 9, 3]"
  using buffered_pread_stale [OF small_handle_fresh(1,3), of 2 "[9, 9]"]
  by (simp add: small_handle_fresh(2) READ_BUFFER_CAPACITY_def WRITE_BUFFER_CAPACITY_def write_at_def)

end
