(* ===== verification/Couch_File.thy ===== *)
theory Couch_File
  imports Iobuffer Bitfield Crc32
begin

text \<open>
  Model of \<^verbatim>\<open>couchstore/src/couch_file_read.cc\<close> and \<^verbatim>\<open>couch_file_write.cc\<close>: the chunk format of a
  database file. The file is divided into blocks of 4096 bytes; the first byte of every block is
  0, or 1 where a header starts, and chunks are written around these bytes. A chunk is a
  32-bit length (top bit set for data), the CRC-32 of the data, and the data.

  \<open>raw_image\<close>, \<open>skip_bytes\<close> and \<open>disk_chunk\<close> are the byte-level specification: the bytes a write
  puts into the file, the data found from a position when block prefixes are skipped, and the
  chunk found at a position. The lemmas inside \<open>file_backend\<close> show, for every backend that keeps the
  contract, that the block-wise loops of the C code implement them: whatever short transfers and
  interruptions occur, a write that succeeds has written \<open>raw_image\<close> and a read that succeeds has
  read \<open>disk_chunk\<close>; and in a calm environment both succeed. Snappy is the parameter \<open>sn\<close>.
\<close>

section \<open>State and parameters\<close>

record 'h tree_file =
  tf_pos :: nat
  tf_handle :: 'h

text \<open>
  The operations used of the compression library: \<open>RawCompress\<close>, \<open>GetUncompressedLength\<close> and
  \<open>RawUncompress\<close>. \<open>snappy_ok\<close> is their documented behaviour: what was compressed is decompressed
  to the same bytes, its length is known, and the output is at most
  \<open>MaxCompressedLength(n) = 32 + n + n/6\<close> bytes.
\<close>

record snappy =
  sn_compress :: "byte list \<Rightarrow> byte list"
  sn_length :: "byte list \<Rightarrow> nat option"
  sn_uncompress :: "byte list \<Rightarrow> byte list option"

definition snappy_ok :: "snappy \<Rightarrow> bool" where
  "snappy_ok sn \<longleftrightarrow>
     (\<forall>x. sn_length sn (sn_compress sn x) = Some (length x) \<and>
          sn_uncompress sn (sn_compress sn x) = Some x \<and>
          length (sn_compress sn x) \<le> 32 + length x + length x div 6)"

definition COUCH_BLOCK_SIZE :: nat where
  "COUCH_BLOCK_SIZE = 4096"

definition on_handle :: "('h, 'a) cmd \<Rightarrow> ('h tree_file, 'a) cmd" where
  "on_handle m = zoomE tf_handle (\<lambda>h f. f\<lparr>tf_handle := h\<rparr>) m"

section \<open>Reading\<close>

definition skip_prefix :: "nat \<Rightarrow> nat" where
  "skip_prefix pos = (if pos mod COUCH_BLOCK_SIZE = 0 then pos + 1 else pos)"

function read_blocks :: "'h couch_file_ops \<Rightarrow> nat \<Rightarrow> nat \<Rightarrow> ('h, byte list \<times> nat) cmd" where
  "read_blocks ops pos len =
     (if len = 0 then returnE ([], pos)
      else bindE (fo_pread ops (min (COUCH_BLOCK_SIZE - pos mod COUCH_BLOCK_SIZE) len) pos)
        (\<lambda>got. if got = [] then throwE (Err COUCHSTORE_ERROR_READ)
           else bindE (read_blocks ops (skip_prefix (pos + length got)) (len - length got))
             (\<lambda>(rest, pos'). returnE (got @ rest, pos'))))"
  by pat_completeness auto
termination
  by (relation "measure (\<lambda>(ops, pos, len). len)") auto

declare read_blocks.simps [simp del]

definition read_skipping_prefixes :: "'h couch_file_ops \<Rightarrow> nat \<Rightarrow> nat \<Rightarrow> ('h, byte list \<times> nat) cmd" where
  "read_skipping_prefixes ops pos len = read_blocks ops (skip_prefix pos) len"

definition pread_bin_internal :: "'h couch_file_ops \<Rightarrow> nat \<Rightarrow> u32 \<Rightarrow> ('h, byte list) cmd" where
  "pread_bin_internal ops pos max_header_size =
     bindE (read_skipping_prefixes ops pos 8) (\<lambda>(info, pos).
       let chunk_len = (be_word (take 4 info) :: u32) AND NOT 0x80000000;
           crc32 = (be_word (drop 4 info) :: u32)
       in if max_header_size \<noteq> 0 \<and> (chunk_len < 4 \<or> max_header_size < chunk_len)
          then throwE (Err COUCHSTORE_ERROR_CORRUPT)
          else
            let chunk_len = (if max_header_size \<noteq> 0 then chunk_len - 4 else chunk_len)
            in bindE (fo_malloc ops) (\<lambda>ok.
                 if \<not> ok then throwE (Err COUCHSTORE_ERROR_ALLOC_FAIL)
                 else bindE (read_skipping_prefixes ops pos (unat chunk_len)) (\<lambda>(buf, _).
                   if crc32 \<noteq> 0 \<and> crc32 \<noteq> hash_crc32 buf
                   then throwE (Err COUCHSTORE_ERROR_CHECKSUM_FAIL)
                   else returnE buf)))"

definition pread_header :: "'h couch_file_ops \<Rightarrow> nat \<Rightarrow> u32 \<Rightarrow> ('h, byte list) cmd" where
  "pread_header ops pos max_header_size =
     (if max_header_size = 0 then throwE (Err COUCHSTORE_ERROR_INVALID_ARGUMENTS)
      else pread_bin_internal ops (pos + 1) max_header_size)"

definition pread_compressed :: "snappy \<Rightarrow> 'h couch_file_ops \<Rightarrow> nat \<Rightarrow> ('h, byte list) cmd" where
  "pread_compressed sn ops pos =
     bindE (pread_bin_internal ops pos 0) (\<lambda>compressed_buf.
       case sn_length sn compressed_buf of
         None \<Rightarrow> throwE (Err COUCHSTORE_ERROR_CORRUPT)
       | Some uncompressed_len \<Rightarrow>
           bindE (fo_malloc ops) (\<lambda>ok.
             if \<not> ok then throwE (Err COUCHSTORE_ERROR_ALLOC_FAIL)
             else (case sn_uncompress sn compressed_buf of
                 None \<Rightarrow> throwE (Err COUCHSTORE_ERROR_CORRUPT)
               | Some new_buf \<Rightarrow> returnE new_buf)))"

definition pread_bin :: "'h couch_file_ops \<Rightarrow> nat \<Rightarrow> ('h, byte list) cmd" where
  "pread_bin ops pos = pread_bin_internal ops pos 0"

section \<open>Writing\<close>

text \<open>
  Every turn of the loop writes a block prefix or at least one byte of data, and a prefix is
  followed by data, so twice the length is fuel enough. A backend whose \<open>pwrite\<close> transfers
  nothing would keep the C loop running for ever: that is \<open>OutOfFuel\<close>.
\<close>

fun raw_write_loop :: "nat \<Rightarrow> 'h couch_file_ops \<Rightarrow> byte list \<Rightarrow> nat \<Rightarrow> ('h, nat) cmd" where
  "raw_write_loop 0 ops buf write_pos = throwE OutOfFuel"
| "raw_write_loop (Suc fuel) ops buf write_pos =
     (if buf = [] then returnE write_pos
      else let block_remain = min (COUCH_BLOCK_SIZE - write_pos mod COUCH_BLOCK_SIZE) (length buf)
      in if write_pos mod COUCH_BLOCK_SIZE = 0
         then bindE (fo_pwrite ops [0] write_pos) (\<lambda>_. raw_write_loop fuel ops buf (write_pos + 1))
         else bindE (fo_pwrite ops (take block_remain buf) write_pos)
                (\<lambda>written. raw_write_loop fuel ops (drop written buf) (write_pos + written)))"

definition raw_write :: "'h couch_file_ops \<Rightarrow> byte list \<Rightarrow> nat \<Rightarrow> ('h, nat) cmd" where
  "raw_write ops buf pos =
     bindE (raw_write_loop (2 * length buf + 1) ops buf pos) (\<lambda>write_pos. returnE (write_pos - pos))"

definition align_block :: "nat \<Rightarrow> nat" where
  "align_block pos =
     (if pos mod COUCH_BLOCK_SIZE \<noteq> 0 then pos + (COUCH_BLOCK_SIZE - pos mod COUCH_BLOCK_SIZE) else pos)"

definition write_header :: "'h couch_file_ops \<Rightarrow> byte list \<Rightarrow> ('h tree_file, nat) cmd" where
  "write_header ops buf =
     bindE (getE tf_pos) (\<lambda>file_pos.
       let size = be_bytes 4 (word_of_nat (length buf + 4) :: u32);
           crc32 = be_bytes 4 (hash_crc32 buf);
           pos = align_block file_pos
       in bindE (on_handle (fo_pwrite ops (1 # size @ crc32) pos)) (\<lambda>written.
            let write_pos = pos + written
            in bindE (on_handle (raw_write ops buf write_pos)) (\<lambda>written.
                 bindE (modifyE (tf_pos_update (\<lambda>_. write_pos + written))) (\<lambda>_. returnE pos))))"

definition db_write_buf :: "'h couch_file_ops \<Rightarrow> byte list \<Rightarrow> ('h tree_file, nat \<times> nat) cmd" where
  "db_write_buf ops buf =
     bindE (getE tf_pos) (\<lambda>write_pos.
       let size = be_bytes 4 ((word_of_nat (length buf) :: u32) OR 0x80000000);
           crc32 = be_bytes 4 (hash_crc32 buf)
       in bindE (on_handle (raw_write ops (size @ crc32) write_pos)) (\<lambda>written.
            let end_pos = write_pos + written
            in bindE (on_handle (raw_write ops buf end_pos)) (\<lambda>written.
                 let end_pos = end_pos + written
                 in bindE (modifyE (tf_pos_update (\<lambda>_. end_pos)))
                      (\<lambda>_. returnE (write_pos, end_pos - write_pos)))))"

definition db_write_buf_compressed ::
  "snappy \<Rightarrow> 'h couch_file_ops \<Rightarrow> byte list \<Rightarrow> ('h tree_file, nat \<times> nat) cmd" where
  "db_write_buf_compressed sn ops buf =
     bindE (on_handle (fo_malloc ops)) (\<lambda>ok.
       if \<not> ok then throwE (Err COUCHSTORE_ERROR_ALLOC_FAIL)
       else db_write_buf ops (sn_compress sn buf))"

section \<open>The byte-level specification\<close>

text \<open>The bytes that writing \<open>bs\<close> from \<open>pos\<close> on puts into the file.\<close>

fun raw_image :: "nat \<Rightarrow> byte list \<Rightarrow> byte list" where
  "raw_image pos [] = []"
| "raw_image pos (b # bs) =
     (if pos mod COUCH_BLOCK_SIZE = 0 then 0 # b # raw_image (pos + 2) bs
      else b # raw_image (pos + 1) bs)"

text \<open>The \<open>n\<close> bytes of data found from \<open>pos\<close> on, and the position after them.\<close>

fun skip_bytes :: "byte list \<Rightarrow> nat \<Rightarrow> nat \<Rightarrow> byte list option" where
  "skip_bytes c pos 0 = Some []"
| "skip_bytes c pos (Suc n) =
     (let p = skip_prefix pos
      in if p < length c then map_option (\<lambda>bs. c ! p # bs) (skip_bytes c (p + 1) n) else None)"

fun skip_end :: "nat \<Rightarrow> nat \<Rightarrow> nat" where
  "skip_end pos 0 = skip_prefix pos"
| "skip_end pos (Suc n) = skip_end (skip_prefix pos + 1) n"

text \<open>The chunk stored at \<open>pos\<close>: as \<open>pread_bin_internal\<close> decides, without its I/O.\<close>

definition chunk_payload :: "u32 \<Rightarrow> byte list \<Rightarrow> (byte list \<Rightarrow> bool) \<times> nat option" where
  "chunk_payload max_header_size info =
     (let chunk_len = (be_word (take 4 info) :: u32) AND NOT 0x80000000;
          crc32 = (be_word (drop 4 info) :: u32)
      in (\<lambda>buf. crc32 = 0 \<or> crc32 = hash_crc32 buf,
          if max_header_size \<noteq> 0 \<and> (chunk_len < 4 \<or> max_header_size < chunk_len) then None
          else Some (unat (if max_header_size \<noteq> 0 then chunk_len - 4 else chunk_len))))"

definition disk_chunk :: "byte list \<Rightarrow> nat \<Rightarrow> u32 \<Rightarrow> byte list option" where
  "disk_chunk c pos max_header_size =
     (case skip_bytes c pos 8 of
        None \<Rightarrow> None
      | Some info \<Rightarrow>
          (case chunk_payload max_header_size info of (good, len) \<Rightarrow>
             (case len of
                None \<Rightarrow> None
              | Some n \<Rightarrow>
                  (case skip_bytes c (skip_end pos 8) n of
                     None \<Rightarrow> None
                   | Some buf \<Rightarrow> if good buf then Some buf else None))))"

text \<open>The decompressed chunk stored at \<open>pos\<close>: what a B-tree node or a compressed document is.\<close>

definition disk_compressed :: "snappy \<Rightarrow> byte list \<Rightarrow> nat \<Rightarrow> byte list option" where
  "disk_compressed sn c pos =
     (case disk_chunk c pos 0 of
        None \<Rightarrow> None
      | Some buf \<Rightarrow> if sn_length sn buf = None then None else sn_uncompress sn buf)"

section \<open>The specification is consistent: what is written is found\<close>

lemma block_size_simps [simp]: "COUCH_BLOCK_SIZE > 1" "COUCH_BLOCK_SIZE > 0" "COUCH_BLOCK_SIZE \<noteq> Suc 0"
  "Suc 0 \<noteq> COUCH_BLOCK_SIZE"
  by (simp_all add: COUCH_BLOCK_SIZE_def)

lemma skip_prefix_le: "pos \<le> skip_prefix pos"
  by (simp add: skip_prefix_def)

lemma skip_prefix_mod: "skip_prefix pos mod COUCH_BLOCK_SIZE \<noteq> 0"
  by (auto simp: skip_prefix_def mod_Suc)

lemma skip_prefix_idem [simp]: "skip_prefix (skip_prefix pos) = skip_prefix pos"
  using skip_prefix_mod [of pos] by (simp add: skip_prefix_def [of "skip_prefix pos"])

lemma skip_bytes_prefix [simp]: "skip_bytes c (skip_prefix pos) n = skip_bytes c pos n"
  by (cases n) (simp_all add: Let_def)

lemma skip_end_prefix [simp]: "skip_end (skip_prefix pos) n = skip_end pos n"
  by (cases n) simp_all

lemma skip_end_add: "skip_end pos (m + n) = skip_end (skip_end pos m) n"
  by (induction m arbitrary: pos) simp_all

lemma skip_prefix_skip_end [simp]: "skip_prefix (skip_end pos n) = skip_end pos n"
  by (induction n arbitrary: pos) simp_all

lemma length_skip_bytes: "skip_bytes c pos n = Some bs \<Longrightarrow> length bs = n"
  by (induction n arbitrary: pos bs) (auto simp: Let_def split: if_splits)

lemma skip_bytes_add:
  "skip_bytes c pos (m + n) =
     (case skip_bytes c pos m of
        None \<Rightarrow> None
      | Some as \<Rightarrow> map_option ((@) as) (skip_bytes c (skip_end pos m) n))"
proof (induction m arbitrary: pos)
  case 0
  have "(@) [] = (\<lambda>bs. bs :: byte list)" by auto
  then show ?case by (simp add: option.map_ident)
next
  case (Suc m)
  then show ?case
    by (auto simp: Let_def option.map_comp comp_def fun_eq_iff split: option.splits
        intro!: option.map_cong)
qed

lemma skip_bytes_mono:
  "skip_bytes c pos n = Some bs \<Longrightarrow> prefix c c' \<Longrightarrow> skip_bytes c' pos n = Some bs"
proof (induction n arbitrary: pos bs)
  case (Suc n)
  then show ?case
    by (auto simp: Let_def prefix_def nth_append split: if_splits)
qed simp

lemma disk_chunk_mono:
  "disk_chunk c pos m = Some buf \<Longrightarrow> prefix c c' \<Longrightarrow> disk_chunk c' pos m = Some buf"
proof -
  assume chunk: "disk_chunk c pos m = Some buf" and "prefix c c'"
  note mono = skip_bytes_mono [OF _ \<open>prefix c c'\<close>]
  from chunk obtain info good len where info: "skip_bytes c pos 8 = Some info"
    and payload: "chunk_payload m info = (good, Some len)"
    and bytes: "skip_bytes c (skip_end pos 8) len = Some buf" and "good buf"
    by (auto simp: disk_chunk_def split: option.splits prod.splits if_splits)
  then show ?thesis
    by (simp add: disk_chunk_def mono [OF info] payload mono [OF bytes])
qed

lemma disk_compressed_mono:
  "disk_compressed sn c pos = Some buf \<Longrightarrow> prefix c c' \<Longrightarrow> disk_compressed sn c' pos = Some buf"
  by (auto simp: disk_compressed_def dest: disk_chunk_mono split: option.splits)

text \<open>Within one block the data are contiguous.\<close>

lemma skip_bytes_run:
  assumes "pos mod COUCH_BLOCK_SIZE \<noteq> 0" and "k \<le> COUCH_BLOCK_SIZE - pos mod COUCH_BLOCK_SIZE"
    and "pos + k \<le> length c"
  shows "skip_bytes c pos k = Some (take k (drop pos c))"
  using assms
proof (induction k arbitrary: pos)
  case (Suc k)
  have p: "skip_prefix pos = pos" using Suc.prems(1) by (simp add: skip_prefix_def)
  have "skip_bytes c (pos + 1) k = Some (take k (drop (pos + 1) c))"
  proof (cases "k = 0")
    case False
    then have "Suc (pos mod COUCH_BLOCK_SIZE) < COUCH_BLOCK_SIZE" using Suc.prems(2) by linarith
    then have "(pos + 1) mod COUCH_BLOCK_SIZE = Suc (pos mod COUCH_BLOCK_SIZE)"
      by (simp add: mod_Suc)
    then show ?thesis using Suc.prems by (intro Suc.IH) auto
  qed simp
  moreover have "drop pos c = c ! pos # drop (pos + 1) c"
    using Suc.prems(3) by (simp add: Cons_nth_drop_Suc)
  ultimately show ?case using Suc.prems(3) p by (simp add: Let_def)
qed simp

lemma skip_end_run:
  assumes "pos mod COUCH_BLOCK_SIZE \<noteq> 0" and "0 < k"
    and "k \<le> COUCH_BLOCK_SIZE - pos mod COUCH_BLOCK_SIZE"
  shows "skip_end pos k = skip_prefix (pos + k)"
  using assms
proof (induction k arbitrary: pos)
  case (Suc k)
  have p: "skip_prefix pos = pos" using Suc.prems(1) by (simp add: skip_prefix_def)
  show ?case
  proof (cases "k = 0")
    case False
    then have "Suc (pos mod COUCH_BLOCK_SIZE) < COUCH_BLOCK_SIZE" using Suc.prems(3) by linarith
    then have "(pos + 1) mod COUCH_BLOCK_SIZE = Suc (pos mod COUCH_BLOCK_SIZE)"
      by (simp add: mod_Suc)
    then have "skip_end (pos + 1) k = skip_prefix (pos + 1 + k)"
      using Suc.prems False by (intro Suc.IH) auto
    then show ?thesis by (simp add: p)
  qed (simp add: p)
qed simp

lemma skip_bytes_beyond:
  assumes "length c \<le> pos" and "0 < n"
  shows "skip_bytes c pos n = None"
  using assms skip_prefix_le [of pos] by (cases n) (auto simp: Let_def)

lemma raw_image_append:
  "raw_image pos (as @ bs) = raw_image pos as @ raw_image (pos + length (raw_image pos as)) bs"
proof (induction as arbitrary: pos)
  case (Cons a as)
  show ?case
  proof (cases "pos mod COUCH_BLOCK_SIZE = 0")
    case True
    then show ?thesis using Cons.IH [of "pos + 2"] by simp
  next
    case False
    then show ?thesis using Cons.IH [of "pos + 1"] by simp
  qed
qed simp

lemma length_raw_image_ge: "length bs \<le> length (raw_image pos bs)"
  by (induction bs arbitrary: pos) (auto simp: le_SucI)

lemma raw_image_Nil_iff [simp]: "raw_image pos bs = [] \<longleftrightarrow> bs = []"
  by (cases bs) auto

lemma skip_bytes_raw_image:
  assumes "length a = pos"
  shows "skip_bytes (a @ raw_image pos bs @ z) pos (length bs) = Some bs"
  using assms
proof (induction bs arbitrary: a pos)
  case (Cons b bs)
  show ?case
  proof (cases "pos mod COUCH_BLOCK_SIZE = 0")
    case True
    then have p: "skip_prefix pos = pos + 1" by (simp add: skip_prefix_def)
    have "skip_bytes ((a @ [0, b]) @ raw_image (pos + 2) bs @ z) (pos + 2) (length bs) = Some bs"
      using Cons by (intro Cons.IH) simp
    then show ?thesis using True Cons.prems by (simp add: Let_def p nth_append)
  next
    case False
    then have p: "skip_prefix pos = pos" by (simp add: skip_prefix_def)
    have "skip_bytes ((a @ [b]) @ raw_image (pos + 1) bs @ z) (pos + 1) (length bs) = Some bs"
      using Cons by (intro Cons.IH) simp
    then show ?thesis using False Cons.prems by (simp add: Let_def p nth_append)
  qed
qed simp

lemma skip_end_raw_image:
  "skip_end pos (length bs) = skip_prefix (pos + length (raw_image pos bs))"
proof (induction bs arbitrary: pos)
  case (Cons b bs)
  then show ?case
    using Cons.IH [of "pos + 2"] Cons.IH [of "pos + 1"]
    by (simp add: skip_prefix_def)
qed simp

lemma write_at_split:
  assumes "bs \<noteq> []"
  obtains a z where "write_at c off bs = a @ bs @ z" and "length a = off"
    and "take off (write_at c off bs) = a"
  using assms by (intro that [of "take off c @ replicate (off - length c) 0" "drop (off + length bs) c"])
    (auto simp: write_at_def)

lemma skip_bytes_write_at:
  "skip_bytes (write_at c pos (raw_image pos bs)) pos (length bs) = Some bs"
proof (cases "bs = []")
  case False
  then obtain a z where "write_at c pos (raw_image pos bs) = a @ raw_image pos bs @ z" "length a = pos"
    using write_at_split [of "raw_image pos bs" c pos] raw_image_Nil_iff [of pos bs] by metis
  then show ?thesis using skip_bytes_raw_image [of a pos bs z] by simp
qed simp

text \<open>The header bytes of a chunk, for data (top bit set) and for file headers.\<close>

definition chunk_header :: "byte list \<Rightarrow> byte list" where
  "chunk_header buf =
     be_bytes 4 ((word_of_nat (length buf) :: u32) OR 0x80000000) @ be_bytes 4 (hash_crc32 buf)"

definition chunk_image :: "nat \<Rightarrow> byte list \<Rightarrow> byte list" where
  "chunk_image pos buf = raw_image pos (chunk_header buf @ buf)"

lemma length_chunk_header [simp]: "length (chunk_header buf) = 8"
  by (simp add: chunk_header_def)

lemma chunk_image_append:
  "chunk_image pos buf =
     raw_image pos (chunk_header buf) @ raw_image (pos + length (raw_image pos (chunk_header buf))) buf"
  unfolding chunk_image_def by (rule raw_image_append)

lemma be_word_be_bytes4: "be_word (be_bytes 4 (w :: u32)) = w"
  by (simp add: be_word_be_bytes take_bit_word_eq_self)

lemma clear_top_bit:
  assumes "\<not> bit (n :: u32) 31"
  shows "(n OR 0x80000000) AND NOT 0x80000000 = n"
proof -
  define t :: u32 where "t = push_bit 31 1"
  have "bit t k \<longleftrightarrow> k = 31" for k
    unfolding t_def bit_push_bit_iff by (auto simp: bit_1_iff)
  then have "(n OR t) AND NOT t = n"
    using assms by (intro bit_word_eqI) (auto simp: bit_and_iff bit_or_iff bit_not_iff)
  then show ?thesis by (simp add: t_def push_bit_eq_mult)
qed

lemma clear_top_bit':
  assumes "\<not> bit (n :: u32) 31"
  shows "n AND NOT 0x80000000 = n"
proof -
  define t :: u32 where "t = push_bit 31 1"
  have "bit t k \<longleftrightarrow> k = 31" for k
    unfolding t_def bit_push_bit_iff by (auto simp: bit_1_iff)
  then have "n AND NOT t = n"
    using assms by (intro bit_word_eqI) (auto simp: bit_and_iff bit_not_iff)
  then show ?thesis by (simp add: t_def push_bit_eq_mult)
qed

lemma chunk_payload_data:
  assumes "length buf < 2 ^ 31"
  shows "chunk_payload 0 (chunk_header buf) = (\<lambda>b. hash_crc32 buf = 0 \<or> hash_crc32 buf = hash_crc32 b, Some (length buf))"
proof -
  let ?n = "word_of_nat (length buf) :: u32"
  have un: "unat ?n = length buf" using assms by (simp add: unat_of_nat)
  then have n: "take_bit 31 ?n = ?n" using assms by (intro take_bit_word_id) simp
  then have "\<not> bit ?n 31" by (metis bit_take_bit_iff less_irrefl)
  then have "(?n OR 0x80000000) AND NOT 0x80000000 = ?n" by (rule clear_top_bit)
  then show ?thesis by (simp add: chunk_payload_def chunk_header_def Let_def be_word_be_bytes4 un)
qed

lemma skip_bytes_image_header:
  "skip_bytes (write_at c pos (raw_image pos (hdr @ buf))) pos (length hdr) = Some hdr"
proof -
  define w where "w = write_at c pos (raw_image pos (hdr @ buf))"
  have "skip_bytes w pos (length hdr + length buf) = Some (hdr @ buf)"
    using skip_bytes_write_at [of c pos "hdr @ buf"] by (simp add: w_def)
  then obtain h b where "skip_bytes w pos (length hdr) = Some h" "h @ b = hdr @ buf"
    by (auto simp: skip_bytes_add split: option.splits)
  then show ?thesis using length_skip_bytes [of w pos "length hdr" h] by (simp add: w_def)
qed

lemma disk_chunk_image:
  assumes "length hdr = 8" and "chunk_payload m hdr = (good, Some (length buf))" and "good buf"
  shows "disk_chunk (write_at c pos (raw_image pos (hdr @ buf))) pos m = Some buf"
proof -
  define w where "w = write_at c pos (raw_image pos (hdr @ buf))"
  have all: "skip_bytes w pos (8 + length buf) = Some (hdr @ buf)"
    using skip_bytes_write_at [of c pos "hdr @ buf"] assms(1) by (simp add: w_def)
  obtain h b where hb: "skip_bytes w pos 8 = Some h"
    "skip_bytes w (skip_end pos 8) (length buf) = Some b" "h @ b = hdr @ buf"
    using all by (auto simp: skip_bytes_add split: option.splits)
  then have "h = hdr" "b = buf"
    using length_skip_bytes [OF hb(1)] assms(1) by auto
  then show ?thesis using hb assms by (simp add: disk_chunk_def flip: w_def)
qed

lemma disk_chunk_write_at:
  assumes "length buf < 2 ^ 31"
  shows "disk_chunk (write_at c pos (chunk_image pos buf)) pos 0 = Some buf"
  unfolding chunk_image_def by (rule disk_chunk_image [OF _ chunk_payload_data [OF assms]]) simp_all

text \<open>A file header: the marker byte 1 at the start of a block, then a chunk whose length counts
  the checksum too.\<close>

definition header_image :: "nat \<Rightarrow> byte list \<Rightarrow> byte list" where
  "header_image pos buf =
     1 # raw_image (pos + 1) ((be_bytes 4 (word_of_nat (length buf + 4) :: u32)
                                @ be_bytes 4 (hash_crc32 buf)) @ buf)"

lemma chunk_payload_header:
  assumes "length buf + 4 \<le> unat m" and "length buf + 4 < 2 ^ 31"
  shows "chunk_payload m (be_bytes 4 (word_of_nat (length buf + 4) :: u32)
      @ be_bytes 4 (hash_crc32 buf)) = (\<lambda>b. hash_crc32 buf = 0 \<or> hash_crc32 buf = hash_crc32 b, Some (length buf))"
proof -
  define n :: u32 where "n = word_of_nat (length buf + 4)"
  have un: "unat n = length buf + 4" using assms(2) by (simp add: unat_of_nat n_def del: of_nat_add of_nat_numeral)
  then have "take_bit 31 n = n" using assms(2) by (intro take_bit_word_id) simp
  then have "\<not> bit n 31" by (metis bit_take_bit_iff less_irrefl)
  then have top: "n AND NOT 0x80000000 = n" by (rule clear_top_bit')
  have hd: "be_word (take 4 (be_bytes 4 n @ z)) = n" for z by (simp add: be_word_be_bytes4)
  have "4 \<le> n" "n \<le> m" using un assms(1) by (simp_all add: word_le_nat_alt)
  moreover from \<open>4 \<le> n\<close> have "unat (n - 4) = length buf"
    using un by (simp add: unat_sub)
  moreover have "m \<noteq> 0" using assms(1) by auto
  ultimately show ?thesis
    unfolding n_def [symmetric] chunk_payload_def Let_def hd top
    by (simp add: be_word_be_bytes4 not_less)
qed

lemma disk_chunk_header:
  assumes "length buf + 4 \<le> unat m" and "length buf + 4 < 2 ^ 31"
  shows "disk_chunk (write_at c pos (header_image pos buf)) (pos + 1) m = Some buf"
proof -
  define img where "img = raw_image (pos + 1) ((be_bytes 4 (word_of_nat (length buf + 4) :: u32)
      @ be_bytes 4 (hash_crc32 buf)) @ buf)"
  have "disk_chunk (write_at c' (pos + 1) img) (pos + 1) m = Some buf" for c'
    unfolding img_def by (rule disk_chunk_image [OF _ chunk_payload_header [OF assms]]) simp_all
  moreover have "write_at c pos (1 # img) = write_at (write_at c pos [1]) (pos + 1) img"
    using write_at_append [of c pos "[1]" img] by simp
  ultimately show ?thesis unfolding header_image_def img_def [symmetric] by simp
qed

lemma raw_image_run:
  "pos mod COUCH_BLOCK_SIZE \<noteq> 0 \<Longrightarrow> length bs \<le> COUCH_BLOCK_SIZE - pos mod COUCH_BLOCK_SIZE \<Longrightarrow>
     raw_image pos bs = bs"
proof (induction bs arbitrary: pos)
  case (Cons b bs)
  show ?case
  proof (cases "bs = []")
    case False
    then have "Suc (pos mod COUCH_BLOCK_SIZE) < COUCH_BLOCK_SIZE"
      using Cons.prems by (cases bs) auto
    then have "(pos + 1) mod COUCH_BLOCK_SIZE = Suc (pos mod COUCH_BLOCK_SIZE)"
      by (simp add: mod_Suc)
    then show ?thesis using Cons.prems by (simp add: Cons.IH)
  qed (use Cons.prems in simp)
qed simp

lemma pread_bin_internal_alt:
  "pread_bin_internal ops pos m =
     bindE (read_skipping_prefixes ops pos 8) (\<lambda>(info, pos).
       case chunk_payload m info of (good, len) \<Rightarrow>
         (case len of
            None \<Rightarrow> throwE (Err COUCHSTORE_ERROR_CORRUPT)
          | Some n \<Rightarrow> bindE (fo_malloc ops) (\<lambda>ok.
              if \<not> ok then throwE (Err COUCHSTORE_ERROR_ALLOC_FAIL)
              else bindE (read_skipping_prefixes ops pos n) (\<lambda>(buf, _).
                if good buf then returnE buf else throwE (Err COUCHSTORE_ERROR_CHECKSUM_FAIL)))))"
proof -
  have flip: "(if c \<noteq> 0 \<and> c \<noteq> d then x else y) = (if c = 0 \<or> c = d then y else x)" for c d :: u32 and x y :: 'z
    by simp
  show ?thesis
    unfolding pread_bin_internal_def chunk_payload_def Let_def flip
    by (intro arg_cong2 [where f = bindE] refl ext) (auto split: prod.splits)
qed

text \<open>What one turn of the write loop hands to \<open>pwrite\<close>, and what is left for the next.\<close>

definition next_write :: "nat \<Rightarrow> byte list \<Rightarrow> byte list" where
  "next_write pos buf =
     (if pos mod COUCH_BLOCK_SIZE = 0 then [0]
      else take (min (COUCH_BLOCK_SIZE - pos mod COUCH_BLOCK_SIZE) (length buf)) buf)"

lemma next_write_nonempty: "buf \<noteq> [] \<Longrightarrow> next_write pos buf \<noteq> []"
  by (auto simp: next_write_def)

lemma raw_write_loop_step:
  "buf \<noteq> [] \<Longrightarrow> raw_write_loop (Suc fuel) ops buf pos =
     bindE (fo_pwrite ops (next_write pos buf) pos)
       (\<lambda>k. if pos mod COUCH_BLOCK_SIZE = 0 then raw_write_loop fuel ops buf (pos + 1)
            else raw_write_loop fuel ops (drop k buf) (pos + k))"
  by (simp add: next_write_def Let_def)

lemma raw_image_step:
  assumes "buf \<noteq> []" and "k \<le> length (next_write pos buf)"
  shows "raw_image pos buf = take k (next_write pos buf) @
    raw_image (pos + k) (if pos mod COUCH_BLOCK_SIZE = 0 then buf else drop k buf)"
proof (cases "pos mod COUCH_BLOCK_SIZE = 0")
  case True
  then have "k = 0 \<or> k = 1" "Suc pos mod COUCH_BLOCK_SIZE \<noteq> 0"
    using assms(2) by (auto simp: next_write_def mod_Suc)
  then show ?thesis using True assms(1) by (cases buf) (auto simp: next_write_def)
next
  case False
  then have "raw_image pos (take k buf) = take k buf" "k \<le> length buf"
      "take k (next_write pos buf) = take k buf"
    using assms(2) by (auto intro!: raw_image_run simp: next_write_def min_def split: if_splits)
  then show ?thesis using False raw_image_append [of pos "take k buf" "drop k buf"] by simp
qed

lemma db_write_buf_alt:
  "db_write_buf ops buf =
     bindE (getE tf_pos) (\<lambda>write_pos.
       bindE (on_handle (raw_write ops (chunk_header buf) write_pos)) (\<lambda>n1.
         bindE (on_handle (raw_write ops buf (write_pos + n1))) (\<lambda>n2.
           bindE (modifyE (tf_pos_update (\<lambda>_. write_pos + n1 + n2)))
             (\<lambda>_. returnE (write_pos, n1 + n2)))))"
  unfolding db_write_buf_def Let_def chunk_header_def by (simp add: add.assoc)

lemma on_handle_app: "on_handle m f = (fst (m (tf_handle f)), f\<lparr>tf_handle := snd (m (tf_handle f))\<rparr>)"
  by (simp add: on_handle_def zoomE_def split_beta)

lemma on_handle_InrD:
  assumes "on_handle m f = (Inr a, f')"
  obtains h where "m (tf_handle f) = (Inr a, h)" and "f' = f\<lparr>tf_handle := h\<rparr>"
  using assms by (cases "m (tf_handle f)") (auto simp: on_handle_app)

lemma write_at_prefix: "length c \<le> off \<Longrightarrow> prefix c (write_at c off bs)"
  by (auto simp: write_at_def)

lemma align_block_ge: "pos \<le> align_block pos"
  unfolding align_block_def by (metis le_add1 order_refl)

lemma align_block_mod: "align_block pos mod COUCH_BLOCK_SIZE = 0"
proof (cases "pos mod COUCH_BLOCK_SIZE = 0")
  case False
  have "pos = COUCH_BLOCK_SIZE * (pos div COUCH_BLOCK_SIZE) + pos mod COUCH_BLOCK_SIZE" by simp
  moreover have "pos mod COUCH_BLOCK_SIZE < COUCH_BLOCK_SIZE" by simp
  moreover have "align_block pos = pos + (COUCH_BLOCK_SIZE - pos mod COUCH_BLOCK_SIZE)"
    using False by (simp add: align_block_def)
  ultimately have "align_block pos = COUCH_BLOCK_SIZE * (pos div COUCH_BLOCK_SIZE) + COUCH_BLOCK_SIZE"
    by linarith
  then show ?thesis by simp
qed (simp add: align_block_def)

section \<open>The loops implement the specification, over every backend\<close>

context file_backend
begin

text \<open>\<open>reads h h'\<close>: only reads happened between the two states of the handle. \<open>wrote pos img h h'\<close>:
  the bytes \<open>img\<close> were written at \<open>pos\<close>.\<close>

definition reads :: "'h \<Rightarrow> 'h \<Rightarrow> bool" where
  "reads h h' \<longleftrightarrow> inv h' \<and> content h' = content h \<and> cached h' \<le> max (cached h) (length (content h))"

definition wrote :: "nat \<Rightarrow> byte list \<Rightarrow> 'h \<Rightarrow> 'h \<Rightarrow> bool" where
  "wrote pos img h h' \<longleftrightarrow> inv h' \<and> cached h' \<le> cached h \<and> content h' = write_at (content h) pos img"

lemma reads_refl: "inv h \<Longrightarrow> reads h h"
  by (simp add: reads_def)

lemma reads_trans: "reads h h' \<Longrightarrow> reads h' h'' \<Longrightarrow> reads h h''"
  by (auto simp: reads_def)

lemma readsD: "reads h h' \<Longrightarrow> inv h'" "reads h h' \<Longrightarrow> content h' = content h"
  by (simp_all add: reads_def)

lemma wroteD: "wrote pos img h h' \<Longrightarrow> inv h'" "wrote pos img h h' \<Longrightarrow> cached h' \<le> cached h"
    "wrote pos img h h' \<Longrightarrow> content h' = write_at (content h) pos img"
  by (simp_all add: wrote_def)

lemma wrote_Nil: "inv h \<Longrightarrow> wrote pos [] h h"
  by (simp add: wrote_def)

lemma wrote_append:
  "wrote pos as h h' \<Longrightarrow> wrote (pos + length as) bs h' h'' \<Longrightarrow> wrote pos (as @ bs) h h''"
  by (auto simp: wrote_def write_at_append)

lemma read_blocks_any:
  "inv h \<Longrightarrow> skip_prefix pos = pos \<Longrightarrow> read_blocks ops pos len h = (res, h') \<Longrightarrow>
     reads h h' \<and>
     (case res of
        Inl e \<Rightarrow> \<exists>c. e = Err c
      | Inr (bs, pos') \<Rightarrow> skip_bytes (content h) pos len = Some bs \<and> pos' = skip_end pos len)"
proof (induction len arbitrary: pos h res h' rule: less_induct)
  case (less len)
  show ?case
  proof (cases "len = 0")
    case True
    then show ?thesis using less.prems by (auto simp: read_blocks.simps reads_refl)
  next
    case False
    define n where "n = min (COUCH_BLOCK_SIZE - pos mod COUCH_BLOCK_SIZE) len"
    have mod: "pos mod COUCH_BLOCK_SIZE \<noteq> 0" using less.prems(2) skip_prefix_mod [of pos] by simp
    obtain r1 h1 where step: "fo_pread ops n pos h = (r1, h1)" by fastforce
    show ?thesis
    proof (cases r1)
      case (Inl e)
      then show ?thesis using pread_Inl [of h n pos e h1] less.prems step False
        by (auto simp: read_blocks.simps [of _ _ len] bindE_def reads_def n_def)
    next
      case (Inr got)
      have got: "reads h h1" "prefix got (take n (drop pos (content h)))"
        using pread_Inr [of h n pos got h1] less.prems(1) step Inr by (auto simp: reads_def)
      show ?thesis
      proof (cases "got = []")
        case True
        then show ?thesis using less.prems(3) step False Inr got(1)
          by (auto simp: read_blocks.simps [of _ _ len] bindE_def n_def)
      next
        case nonempty: False
        define k where "k = length got"
        have k: "0 < k" "k \<le> n" "pos + k \<le> length (content h)" "got = take k (drop pos (content h))"
          using prefix_take_drop [OF got(2)] nonempty by (auto simp: k_def)
        obtain r2 h2 where rest: "read_blocks ops (skip_prefix (pos + k)) (len - k) h1 = (r2, h2)"
          by fastforce
        have IH: "reads h1 h2 \<and> (case r2 of Inl e \<Rightarrow> \<exists>c. e = Err c
            | Inr (bs, pos') \<Rightarrow> skip_bytes (content h1) (skip_prefix (pos + k)) (len - k) = Some bs \<and>
                pos' = skip_end (skip_prefix (pos + k)) (len - k))"
          using k got(1) rest False by (intro less.IH) (auto simp: readsD)
        have run: "skip_bytes (content h) pos k = Some got" "skip_end pos k = skip_prefix (pos + k)"
          using skip_bytes_run [of pos k] skip_end_run [of pos k] mod k by (auto simp: n_def)
        have "len = k + (len - k)" using k by (simp add: n_def)
        then have "skip_bytes (content h) pos len =
            map_option ((@) got) (skip_bytes (content h) (skip_prefix (pos + k)) (len - k))"
          "skip_end pos len = skip_end (skip_prefix (pos + k)) (len - k)"
          using skip_bytes_add [of "content h" pos k "len - k"] skip_end_add [of pos k "len - k"] run
          by simp_all
        then show ?thesis
          using less.prems(3) step Inr nonempty False rest IH got(1) reads_trans [OF got(1)]
          by (auto simp: read_blocks.simps [of _ _ len] bindE_def n_def k_def readsD split: sum.splits)
      qed
    qed
  qed
qed

lemma read_blocks_calm:
  "inv h \<Longrightarrow> calm h \<Longrightarrow> skip_prefix pos = pos \<Longrightarrow> skip_bytes (content h) pos len \<noteq> None \<Longrightarrow>
     \<exists>x h'. read_blocks ops pos len h = (Inr x, h') \<and> calm h'"
proof (induction len arbitrary: pos h rule: less_induct)
  case (less len)
  show ?case
  proof (cases "len = 0")
    case True
    then show ?thesis using less.prems by (simp add: read_blocks.simps)
  next
    case False
    define n where "n = min (COUCH_BLOCK_SIZE - pos mod COUCH_BLOCK_SIZE) len"
    have mod: "pos mod COUCH_BLOCK_SIZE \<noteq> 0" using less.prems(3) skip_prefix_mod [of pos] by simp
    then have n: "0 < n" using False by (simp add: n_def)
    define got where "got = take n (drop pos (content h))"
    define k where "k = length got"
    obtain h1 where step: "fo_pread ops n pos h = (Inr got, h1)" and "calm h1"
      using pread_calm [OF less.prems(1,2), of n pos] by (auto simp: got_def)
    then have h1: "inv h1" "content h1 = content h" using pread_Inr [OF less.prems(1) step] by auto
    have "pos < length (content h)"
      using skip_bytes_beyond [of "content h" pos len] less.prems(4) False by (meson not_less bot_nat_0.not_eq_extremum)
    then have k: "0 < k" "k \<le> n" "pos + k \<le> length (content h)" "k \<le> len" using n
      by (auto simp: k_def got_def n_def)
    have "skip_bytes (content h) pos k = Some (take k (drop pos (content h)))"
      "skip_end pos k = skip_prefix (pos + k)"
      using skip_bytes_run [of pos k] skip_end_run [of pos k] mod k by (auto simp: n_def)
    moreover have "len = k + (len - k)" using k by simp
    ultimately have "skip_bytes (content h1) (skip_prefix (pos + k)) (len - k) \<noteq> None"
      using skip_bytes_add [of "content h" pos k "len - k"] less.prems(4) h1(2) by auto
    then obtain x h2 where "read_blocks ops (skip_prefix (pos + k)) (len - k) h1 = (Inr x, h2)" "calm h2"
      using less.IH [of "len - k" h1 "skip_prefix (pos + k)"] k False h1(1) \<open>calm h1\<close> by auto
    moreover have "got \<noteq> []" using k(1) by (auto simp: k_def)
    ultimately show ?thesis
      using False step by (auto simp: read_blocks.simps [of _ _ len] bindE_def k_def split: prod.splits
          simp flip: n_def)
  qed
qed

definition reads_err :: "'h \<Rightarrow> fault \<Rightarrow> 'h \<Rightarrow> bool" where
  "reads_err h0 e h \<longleftrightarrow> reads h0 h \<and> (\<exists>c. e = Err c)"

lemma reads_errI: "reads h0 h \<Longrightarrow> reads_err h0 (Err c) h"
  by (simp add: reads_err_def)

lemma read_skipping_prefixes_any:
  "hoare (reads h0) (read_skipping_prefixes ops pos len)
     (\<lambda>x h. reads h0 h \<and> (skip_bytes (content h0) pos len = Some (fst x) \<and> snd x = skip_end pos len))
     (reads_err h0)"
proof (rule hoareI)
  fix h a h' assume "reads h0 h" "read_skipping_prefixes ops pos len h = (Inr a, h')"
  then show "reads h0 h' \<and> (skip_bytes (content h0) pos len = Some (fst a) \<and> snd a = skip_end pos len)"
    using read_blocks_any [of h "skip_prefix pos" len "Inr a" h'] reads_trans [of h0 h h']
    by (auto simp: read_skipping_prefixes_def readsD split: prod.splits)
next
  fix h e h' assume "reads h0 h" "read_skipping_prefixes ops pos len h = (Inl e, h')"
  then show "reads_err h0 e h'"
    using read_blocks_any [of h "skip_prefix pos" len "Inl e" h']
      reads_trans [of h0 h h']
    by (auto simp: read_skipping_prefixes_def reads_err_def readsD)
qed

lemma read_skipping_prefixes_calm:
  assumes "inv h" and "calm h" and "skip_bytes (content h) pos len = Some bs"
  obtains h' where "read_skipping_prefixes ops pos len h = (Inr (bs, skip_end pos len), h')"
    and "calm h'" and "reads h h'"
proof -
  obtain x h' where run: "read_skipping_prefixes ops pos len h = (Inr x, h')" and "calm h'"
    using read_blocks_calm [of h "skip_prefix pos" len] assms by (auto simp: read_skipping_prefixes_def)
  then show ?thesis
    using that [of h'] hoare_InrD [OF read_skipping_prefixes_any reads_refl [OF assms(1)] run] assms(3)
    by (cases x) auto
qed

lemma malloc_reads: "hoare (reads h0) (fo_malloc ops) (\<lambda>_. reads h0) (reads_err h0)"
proof (rule hoareI)
  fix h a h' assume *: "reads h0 h" "fo_malloc ops h = (Inr a, h')"
  then show "reads h0 h'" using malloc_any [of h "Inr a" h'] readsD(1) [of h0 h] by (auto simp: reads_def)
next
  fix h e h' assume "reads h0 h" "fo_malloc ops h = (Inl e, h')"
  then show "reads_err h0 e h'" using malloc_any [of h "Inl e" h'] readsD(1) [of h0 h] by auto
qed

lemma pread_bin_internal_any:
  "hoare (reads h0) (pread_bin_internal ops pos m)
     (\<lambda>buf h. reads h0 h \<and> disk_chunk (content h0) pos m = Some buf) (reads_err h0)"
  unfolding pread_bin_internal_alt
proof (rule hoare_bindE_keep [OF read_skipping_prefixes_any], goal_cases)
  case (1 x)
  obtain good len where payload: "chunk_payload m (fst x) = (good, len)" by fastforce
  show ?case
  proof (cases len)
    case None
    then show ?thesis by (auto simp: payload split_beta intro!: hoare_throwE reads_errI)
  next
    case (Some n)
    have "hoare (reads h0) (bindE (read_skipping_prefixes ops (snd x) n)
        (\<lambda>(buf, _). if good buf then returnE buf else throwE (Err COUCHSTORE_ERROR_CHECKSUM_FAIL)))
        (\<lambda>buf h. reads h0 h \<and> disk_chunk (content h0) pos m = Some buf) (reads_err h0)"
      using 1 payload Some
      by (intro hoare_bindE_keep [OF read_skipping_prefixes_any])
        (auto simp: disk_chunk_def split_beta intro!: hoare_if hoare_throwE hoare_returnE reads_errI)
    then show ?thesis
      using Some by (auto simp: payload split_beta intro!: hoare_bindE [OF malloc_reads] hoare_if
          hoare_throwE reads_errI)
  qed
qed

lemma malloc_calm_reads:
  assumes "inv h" and "calm h"
  obtains h' where "fo_malloc ops h = (Inr True, h')" and "calm h'" and "reads h h'"
  using malloc_calm [OF assms] hoare_InrD [OF malloc_reads reads_refl [OF assms(1)]] that by blast

lemma pread_bin_internal_calm:
  assumes "inv h" and "calm h" and "disk_chunk (content h) pos m = Some buf"
  obtains h' where "pread_bin_internal ops pos m h = (Inr buf, h')" and "calm h'" and "reads h h'"
proof -
  obtain info good len where info: "skip_bytes (content h) pos 8 = Some info"
    and payload: "chunk_payload m info = (good, Some len)"
    and bytes: "skip_bytes (content h) (skip_end pos 8) len = Some buf" and "good buf"
    using assms(3) by (auto simp: disk_chunk_def split: option.splits prod.splits if_splits)
  obtain h1 where h1: "read_skipping_prefixes ops pos 8 h = (Inr (info, skip_end pos 8), h1)"
    "calm h1" "reads h h1" using read_skipping_prefixes_calm assms(1,2) info by blast
  obtain h2 where h2: "fo_malloc ops h1 = (Inr True, h2)" "calm h2" "reads h1 h2"
    using malloc_calm_reads h1 readsD(1) by blast
  obtain h3 where h3: "read_skipping_prefixes ops (skip_end pos 8) len h2 =
      (Inr (buf, skip_end (skip_end pos 8) len), h3)" "calm h3" "reads h2 h3"
    using read_skipping_prefixes_calm [of h2 "skip_end pos 8" len buf] h1 h2 bytes
    by (auto simp: readsD)
  show ?thesis
    using that [of h3] h1 h2 h3 \<open>good buf\<close> payload reads_trans [OF reads_trans [OF h1(3) h2(3)] h3(3)]
    by (simp add: pread_bin_internal_alt bindE_def)
qed

lemma raw_write_loop_any:
  "inv h \<Longrightarrow> cached h \<le> pos \<Longrightarrow>
   2 * length buf + 1 \<le> fuel + (if pos mod COUCH_BLOCK_SIZE \<noteq> 0 \<and> buf \<noteq> [] then 1 else 0) \<Longrightarrow>
   raw_write_loop fuel ops buf pos h = (res, h') \<Longrightarrow>
   (case res of
      Inl e \<Rightarrow> (\<exists>c. e = Err c) \<and> (\<exists>k. wrote pos (take k (raw_image pos buf)) h h')
    | Inr p \<Rightarrow> p = pos + length (raw_image pos buf) \<and> wrote pos (raw_image pos buf) h h')"
proof (induction fuel arbitrary: buf pos h res h')
  case 0
  then show ?case by (simp split: if_splits)
next
  case (Suc fuel)
  show ?case
  proof (cases "buf = []")
    case True
    then show ?thesis using Suc.prems by (auto simp: wrote_Nil)
  next
    case False
    define bs where "bs = next_write pos buf"
    note loop = Suc.prems(4) [unfolded raw_write_loop_step [OF False], folded bs_def]
    obtain r1 h1 where step: "fo_pwrite ops bs pos h = (r1, h1)" by fastforce
    show ?thesis
    proof (cases r1)
      case (Inl e)
      then obtain k where "wrote pos (take k bs) h h1" "\<exists>c. e = Err c"
        using pwrite_Inl [OF Suc.prems(1,2) step [unfolded Inl]] by (auto simp: wrote_def)
      moreover have "take k bs = take (min k (length bs)) (raw_image pos buf)"
        using raw_image_step [OF False, of "length bs" pos] by (simp add: bs_def min_def)
      ultimately show ?thesis
        using loop step Inl by (auto simp: bindE_def)
    next
      case (Inr k)
      have k: "wrote pos (take k bs) h h1" "k \<le> length bs" "0 < k" "cached h1 \<le> cached h" "inv h1"
        using pwrite_Inr [OF Suc.prems(1,2) step [unfolded Inr]] next_write_nonempty [OF False]
        by (auto simp: wrote_def bs_def)
      define buf' where "buf' = (if pos mod COUCH_BLOCK_SIZE = 0 then buf else drop k buf)"
      have run: "raw_write_loop fuel ops buf' (pos + k) h1 = (res, h')"
        using loop step Inr k(2,3)
        by (auto simp: bindE_def buf'_def bs_def next_write_def le_Suc_eq split: if_splits)
      have rest: "raw_image pos buf = take k bs @ raw_image (pos + k) buf'"
        using raw_image_step [OF False, of k pos] k(2) by (simp add: bs_def buf'_def)
      have fuel: "2 * length buf' + 1 \<le> fuel + (if (pos + k) mod COUCH_BLOCK_SIZE \<noteq> 0 \<and> buf' \<noteq> [] then 1 else 0)"
      proof (cases "pos mod COUCH_BLOCK_SIZE = 0")
        case True
        then show ?thesis using Suc.prems(3) False k(2,3)
          by (simp add: buf'_def bs_def next_write_def mod_Suc le_Suc_eq)
      next
        case inside: False
        then have "length buf' < length buf" using k(3) False by (simp add: buf'_def)
        then show ?thesis using Suc.prems(3) inside False by simp
      qed
      have IH: "case res of
          Inl e \<Rightarrow> (\<exists>c. e = Err c) \<and> (\<exists>j. wrote (pos + k) (take j (raw_image (pos + k) buf')) h1 h')
        | Inr p \<Rightarrow> p = pos + k + length (raw_image (pos + k) buf') \<and>
            wrote (pos + k) (raw_image (pos + k) buf') h1 h'"
        using Suc.IH [OF k(5) _ fuel run] k(4) Suc.prems(2) by simp
      have "wrote (pos + k) (take j (raw_image (pos + k) buf')) h1 h' \<Longrightarrow>
          wrote pos (take (k + j) (raw_image pos buf)) h h'" for j
        using wrote_append [OF k(1), of "take j (raw_image (pos + k) buf')" h'] k(2) rest by simp
      moreover have "wrote (pos + k) (raw_image (pos + k) buf') h1 h' \<Longrightarrow> wrote pos (raw_image pos buf) h h'"
        using wrote_append [OF k(1), of "raw_image (pos + k) buf'" h'] k(2) rest by simp
      moreover have "length (raw_image pos buf) = k + length (raw_image (pos + k) buf')"
        using rest k(2) by simp
      ultimately show ?thesis using IH by (cases res) auto
    qed
  qed
qed

lemma raw_write_loop_calm:
  "inv h \<Longrightarrow> cached h \<le> pos \<Longrightarrow> calm h \<Longrightarrow>
   2 * length buf + 1 \<le> fuel + (if pos mod COUCH_BLOCK_SIZE \<noteq> 0 \<and> buf \<noteq> [] then 1 else 0) \<Longrightarrow>
   \<exists>p h'. raw_write_loop fuel ops buf pos h = (Inr p, h') \<and> calm h'"
proof (induction fuel arbitrary: buf pos h)
  case (Suc fuel)
  show ?case
  proof (cases "buf = []")
    case False
    define bs where "bs = next_write pos buf"
    obtain h1 where h1: "fo_pwrite ops bs pos h = (Inr (length bs), h1)" "calm h1"
      using pwrite_calm Suc.prems(1-3) by blast
    then have "inv h1" "cached h1 \<le> pos + j" for j
      using pwrite_Inr [OF Suc.prems(1,2) h1(1)] Suc.prems(2) by (auto intro: le_trans trans_le_add1)
    then have IH: "2 * length b + 1 \<le> fuel + (if (pos + j) mod COUCH_BLOCK_SIZE \<noteq> 0 \<and> b \<noteq> [] then 1 else 0) \<Longrightarrow>
        \<exists>p h'. raw_write_loop fuel ops b (pos + j) h1 = (Inr p, h') \<and> calm h'" for b j
      using Suc.IH h1(2) by blast
    show ?thesis
    proof (cases "pos mod COUCH_BLOCK_SIZE = 0")
      case True
      then show ?thesis using IH [of buf 1] Suc.prems(4) False h1
        by (simp add: raw_write_loop_step bindE_def mod_Suc del: raw_write_loop.simps flip: bs_def)
    next
      case inside: False
      have "length (drop (length bs) buf) < length buf"
        using next_write_nonempty [OF False, of pos] False by (auto simp: bs_def)
      then show ?thesis using IH [of "drop (length bs) buf" "length bs"] Suc.prems(4) inside False h1
        by (simp add: raw_write_loop_step bindE_def del: raw_write_loop.simps flip: bs_def)
    qed
  qed (use Suc.prems in simp)
qed (simp split: if_splits)

lemma raw_write_Inr:
  assumes "inv h" and "cached h \<le> pos" and "raw_write ops buf pos h = (Inr n, h')"
  shows "n = length (raw_image pos buf)" and "wrote pos (raw_image pos buf) h h'"
proof -
  obtain p where "raw_write_loop (2 * length buf + 1) ops buf pos h = (Inr p, h')" "n = p - pos"
    using assms(3) by (auto simp: raw_write_def simp del: raw_write_loop.simps elim!: bindE_InrD)
  then show "n = length (raw_image pos buf)" "wrote pos (raw_image pos buf) h h'"
    using raw_write_loop_any [OF assms(1,2), of buf "2 * length buf + 1" "Inr p" h'] by auto
qed

lemma raw_write_Inl:
  assumes "inv h" and "cached h \<le> pos" and "raw_write ops buf pos h = (Inl e, h')"
  shows "\<exists>c. e = Err c" and "\<exists>k. wrote pos (take k (raw_image pos buf)) h h'"
  using assms raw_write_loop_any [of h pos buf "2 * length buf + 1" "Inl e" h']
  by (auto simp: raw_write_def bindE_def simp del: raw_write_loop.simps split: prod.splits sum.splits)

lemma raw_write_calm:
  assumes "inv h" and "cached h \<le> pos" and "calm h"
  obtains h' where "raw_write ops buf pos h = (Inr (length (raw_image pos buf)), h')" and "calm h'"
    and "wrote pos (raw_image pos buf) h h'"
proof -
  obtain p h' where "raw_write_loop (2 * length buf + 1) ops buf pos h = (Inr p, h')" "calm h'"
    using raw_write_loop_calm [OF assms, of buf "2 * length buf + 1"] by auto
  then have "raw_write ops buf pos h = (Inr (p - pos), h')" by (simp add: raw_write_def bindE_def)
  then show ?thesis using that raw_write_Inr [OF assms(1,2)] \<open>calm h'\<close> by metis
qed

lemma db_write_buf_InrE:
  assumes "db_write_buf ops buf f = (Inr (p, n), f')"
  obtains n1 h1 n2 h2 where "raw_write ops (chunk_header buf) (tf_pos f) (tf_handle f) = (Inr n1, h1)"
    and "raw_write ops buf (tf_pos f + n1) h1 = (Inr n2, h2)"
    and "f' = \<lparr>tf_pos = tf_pos f + n1 + n2, tf_handle = h2\<rparr>" and "p = tf_pos f" and "n = n1 + n2"
proof -
  have "bindE (on_handle (raw_write ops (chunk_header buf) (tf_pos f))) (\<lambda>n1.
      bindE (on_handle (raw_write ops buf (tf_pos f + n1))) (\<lambda>n2.
        bindE (modifyE (tf_pos_update (\<lambda>_. tf_pos f + n1 + n2)))
          (\<lambda>_. returnE (tf_pos f, n1 + n2)))) f = (Inr (p, n), f')"
    using assms by (simp add: db_write_buf_alt)
  then obtain n1 f1 where 1: "on_handle (raw_write ops (chunk_header buf) (tf_pos f)) f = (Inr n1, f1)"
    and "bindE (on_handle (raw_write ops buf (tf_pos f + n1))) (\<lambda>n2.
        bindE (modifyE (tf_pos_update (\<lambda>_. tf_pos f + n1 + n2)))
          (\<lambda>_. returnE (tf_pos f, n1 + n2))) f1 = (Inr (p, n), f')"
    by (rule bindE_InrD)
  from this(2) obtain n2 f2 where 2: "on_handle (raw_write ops buf (tf_pos f + n1)) f1 = (Inr n2, f2)"
    and "bindE (modifyE (tf_pos_update (\<lambda>_. tf_pos f + n1 + n2)))
          (\<lambda>_. returnE (tf_pos f, n1 + n2)) f2 = (Inr (p, n), f')"
    by (rule bindE_InrD)
  then have f': "f' = f2\<lparr>tf_pos := tf_pos f + n1 + n2\<rparr>" "p = tf_pos f" "n = n1 + n2" by auto
  obtain h1 where h1: "raw_write ops (chunk_header buf) (tf_pos f) (tf_handle f) = (Inr n1, h1)"
    "f1 = f\<lparr>tf_handle := h1\<rparr>" by (rule on_handle_InrD [OF 1])
  obtain h2 where h2: "raw_write ops buf (tf_pos f + n1) (tf_handle f1) = (Inr n2, h2)"
    "f2 = f1\<lparr>tf_handle := h2\<rparr>" by (rule on_handle_InrD [OF 2])
  show ?thesis using that [OF h1(1), of n2 h2] h1(2) h2 f' by simp
qed

text \<open>The tree file: its handle, and \<open>tf_pos\<close>, the offset at which the next chunk is written.\<close>

definition can_write :: "'h tree_file \<Rightarrow> bool" where
  "can_write f \<longleftrightarrow> inv (tf_handle f) \<and> cached (tf_handle f) \<le> tf_pos f"

lemma db_write_buf_Inr:
  assumes "can_write f" and "db_write_buf ops buf f = (Inr (p, n), f')"
  shows "p = tf_pos f" and "n = length (chunk_image (tf_pos f) buf)" and "tf_pos f' = tf_pos f + n"
    and "wrote (tf_pos f) (chunk_image (tf_pos f) buf) (tf_handle f) (tf_handle f')"
proof -
  let ?hdr = "chunk_header buf"
  obtain n1 h1 n2 h2 where
    w1: "raw_write ops ?hdr (tf_pos f) (tf_handle f) = (Inr n1, h1)" and
    w2: "raw_write ops buf (tf_pos f + n1) h1 = (Inr n2, h2)" and
    f': "f' = \<lparr>tf_pos = tf_pos f + n1 + n2, tf_handle = h2\<rparr>" "p = tf_pos f" "n = n1 + n2"
    using assms(2) by (rule db_write_buf_InrE)
  have i: "inv (tf_handle f)" "cached (tf_handle f) \<le> tf_pos f" using assms(1) by (simp_all add: can_write_def)
  note r1 = raw_write_Inr [OF i w1]
  have "inv h1" "cached h1 \<le> tf_pos f + n1" using wroteD(1,2) [OF r1(2)] i by auto
  note r2 = raw_write_Inr [OF this w2]
  have img: "chunk_image (tf_pos f) buf = raw_image (tf_pos f) ?hdr @ raw_image (tf_pos f + n1) buf"
    by (simp add: chunk_image_append r1(1))
  show "p = tf_pos f" "n = length (chunk_image (tf_pos f) buf)" "tf_pos f' = tf_pos f + n"
    using f' r1 r2 img by simp_all
  show "wrote (tf_pos f) (chunk_image (tf_pos f) buf) (tf_handle f) (tf_handle f')"
    unfolding img using wrote_append [OF r1(2)] r1(1) r2 f' by simp
qed

lemma db_write_buf_Inl:
  assumes "can_write f" and "db_write_buf ops buf f = (Inl e, f')"
  shows "\<exists>c. e = Err c" and "tf_pos f' = tf_pos f"
    and "\<exists>k. wrote (tf_pos f) (take k (chunk_image (tf_pos f) buf)) (tf_handle f) (tf_handle f')"
proof -
  let ?hdr = "chunk_header buf"
  have i: "inv (tf_handle f)" "cached (tf_handle f) \<le> tf_pos f" using assms(1) by (simp_all add: can_write_def)
  obtain r1 h1 where w1: "raw_write ops ?hdr (tf_pos f) (tf_handle f) = (r1, h1)" by fastforce
  have img: "chunk_image (tf_pos f) buf = raw_image (tf_pos f) ?hdr @
      raw_image (tf_pos f + length (raw_image (tf_pos f) ?hdr)) buf"
    by (rule chunk_image_append)
  have "(\<exists>c. e = Err c) \<and> tf_pos f' = tf_pos f \<and>
      (\<exists>k. wrote (tf_pos f) (take k (chunk_image (tf_pos f) buf)) (tf_handle f) (tf_handle f'))"
  proof (cases r1)
    case (Inl e1)
    then obtain k where "wrote (tf_pos f) (take k (raw_image (tf_pos f) ?hdr)) (tf_handle f) h1" "\<exists>c. e1 = Err c"
      using raw_write_Inl [OF i] w1 by blast
    moreover have "take k (raw_image (tf_pos f) ?hdr) =
        take (min k (length (raw_image (tf_pos f) ?hdr))) (chunk_image (tf_pos f) buf)"
      unfolding img by (auto simp: min_def)
    moreover have "e = e1" "f' = f\<lparr>tf_handle := h1\<rparr>"
      using assms(2) w1 Inl by (simp_all add: db_write_buf_alt bindE_Inl on_handle_app)
    ultimately show ?thesis by auto
  next
    case (Inr n1)
    note r1 = raw_write_Inr [OF i w1 [unfolded Inr]]
    have h1: "inv h1" "cached h1 \<le> tf_pos f + n1" using wroteD(1,2) [OF r1(2)] i by auto
    obtain r2 h2 where w2: "raw_write ops buf (tf_pos f + n1) h1 = (r2, h2)" by fastforce
    then have "raw_write ops buf (tf_pos f + n1) h1 = (Inl e, h2)" "f' = f\<lparr>tf_handle := h2\<rparr>"
      using assms(2) w1 Inr
      by (auto simp: db_write_buf_alt bindE_def on_handle_app split: sum.splits)
    moreover from this obtain k where "wrote (tf_pos f + n1) (take k (raw_image (tf_pos f + n1) buf)) h1 h2"
      using raw_write_Inl [OF h1] by blast
    then have "wrote (tf_pos f) (take (n1 + k) (chunk_image (tf_pos f) buf)) (tf_handle f) h2"
      unfolding img using wrote_append [OF r1(2)] r1(1) by simp
    ultimately show ?thesis using raw_write_Inl(1) [OF h1] by auto
  qed
  then show "\<exists>c. e = Err c" "tf_pos f' = tf_pos f"
      "\<exists>k. wrote (tf_pos f) (take k (chunk_image (tf_pos f) buf)) (tf_handle f) (tf_handle f')"
    by simp_all
qed

lemma db_write_buf_calm:
  assumes "can_write f" and "calm (tf_handle f)"
  obtains n f' where "db_write_buf ops buf f = (Inr (tf_pos f, n), f')" and "calm (tf_handle f')"
proof -
  let ?hdr = "chunk_header buf"
  have i: "inv (tf_handle f)" "cached (tf_handle f) \<le> tf_pos f" using assms(1) by (simp_all add: can_write_def)
  define n1 where "n1 = length (raw_image (tf_pos f) ?hdr)"
  define n2 where "n2 = length (raw_image (tf_pos f + n1) buf)"
  obtain h1 where w1: "raw_write ops ?hdr (tf_pos f) (tf_handle f) = (Inr n1, h1)" "calm h1"
    "wrote (tf_pos f) (raw_image (tf_pos f) ?hdr) (tf_handle f) h1"
    unfolding n1_def by (rule raw_write_calm [OF i assms(2)])
  moreover have "inv h1" "cached h1 \<le> tf_pos f + n1" using wroteD(1,2) [OF w1(3)] i(2) by auto
  from raw_write_calm [OF this w1(2), of buf] obtain h2
    where "raw_write ops buf (tf_pos f + n1) h1 = (Inr n2, h2)" "calm h2"
    unfolding n2_def by blast
  ultimately show ?thesis
    by (intro that [of "n1 + n2" "\<lparr>tf_pos = tf_pos f + n1 + n2, tf_handle = h2\<rparr>"])
      (simp_all add: db_write_buf_alt on_handle_def zoomE_def bindE_def)
qed

lemma pread_compressed_any:
  "hoare (reads h0) (pread_compressed sn ops pos)
     (\<lambda>buf h. reads h0 h \<and> disk_compressed sn (content h0) pos = Some buf) (reads_err h0)"
  unfolding pread_compressed_def
proof (rule hoare_bindE_keep [OF pread_bin_internal_any], goal_cases)
  case (1 buf)
  show ?case
  proof (cases "sn_length sn buf")
    case None
    then show ?thesis by (auto intro!: hoare_throwE reads_errI)
  next
    case (Some n)
    then show ?thesis using 1
      by (auto simp: disk_compressed_def split: option.split
          intro!: hoare_bindE [OF malloc_reads] hoare_if hoare_throwE hoare_returnE reads_errI)
  qed
qed

lemma pread_compressed_calm:
  assumes "inv h" and "calm h" and "disk_compressed sn (content h) pos = Some buf"
  obtains h' where "pread_compressed sn ops pos h = (Inr buf, h')" and "calm h'" and "reads h h'"
proof -
  obtain b where b: "disk_chunk (content h) pos 0 = Some b" "sn_length sn b \<noteq> None" "sn_uncompress sn b = Some buf"
    using assms(3) by (auto simp: disk_compressed_def split: option.splits if_splits)
  obtain h1 where h1: "pread_bin_internal ops pos 0 h = (Inr b, h1)" "calm h1" "reads h h1"
    by (rule pread_bin_internal_calm [OF assms(1,2) b(1)])
  obtain h2 where h2: "fo_malloc ops h1 = (Inr True, h2)" "calm h2" "reads h1 h2"
    by (rule malloc_calm_reads [OF readsD(1) [OF h1(3)] h1(2)])
  show ?thesis
    using that [of h2] h1 h2 b reads_trans [OF h1(3) h2(3)]
    by (auto simp: pread_compressed_def bindE_def)
qed

text \<open>
  A tree file is ready to be appended to when nothing of it lies past the append position; what
  then happens to it only makes it grow, and every chunk found in it stays found.
\<close>

definition ready :: "'h tree_file \<Rightarrow> bool" where
  "ready f \<longleftrightarrow> can_write f \<and> length (content (tf_handle f)) \<le> tf_pos f"

definition grown :: "'h tree_file \<Rightarrow> 'h tree_file \<Rightarrow> bool" where
  "grown f f' \<longleftrightarrow> ready f' \<and> tf_pos f \<le> tf_pos f' \<and>
     prefix (content (tf_handle f)) (content (tf_handle f'))"

lemma grown_refl: "ready f \<Longrightarrow> grown f f"
  by (simp add: grown_def)

lemma grown_trans: "grown f f' \<Longrightarrow> grown f' f'' \<Longrightarrow> grown f f''"
  by (auto simp: grown_def intro: prefix_order.trans)

lemma grown_ready: "grown f f' \<Longrightarrow> ready f'"
  by (simp add: grown_def)

lemma grown_compressed:
  "grown f f' \<Longrightarrow> disk_compressed sn (content (tf_handle f)) pos = Some b \<Longrightarrow>
     disk_compressed sn (content (tf_handle f')) pos = Some b"
  by (auto simp: grown_def intro: disk_compressed_mono)

lemma reads_grown: "ready f \<Longrightarrow> reads (tf_handle f) h \<Longrightarrow> grown f (f\<lparr>tf_handle := h\<rparr>)"
  by (auto simp: ready_def can_write_def grown_def reads_def)

lemma wrote_grown:
  assumes "ready f" and "wrote (tf_pos f) img (tf_handle f) (tf_handle f')"
    and "tf_pos f' = tf_pos f + length img"
  shows "grown f f'"
  using assms
  by (auto simp: ready_def can_write_def grown_def wrote_def length_write_at write_at_prefix)

lemma db_write_buf_grown:
  assumes "ready f" and "db_write_buf ops buf f = (Inr (p, n), f')"
  shows "grown f f'" and "p = tf_pos f" and "n = length (chunk_image (tf_pos f) buf)"
    and "tf_pos f' = tf_pos f + n"
    and "length buf < 2 ^ 31 \<Longrightarrow> disk_chunk (content (tf_handle f')) p 0 = Some buf"
proof -
  have "can_write f" using assms(1) by (simp add: ready_def)
  note w = db_write_buf_Inr [OF this assms(2)]
  show "grown f f'" using wrote_grown [OF assms(1) w(4)] w(2,3) by simp
  show "p = tf_pos f" "n = length (chunk_image (tf_pos f) buf)" "tf_pos f' = tf_pos f + n"
    by (rule w(1-3))+
  show "disk_chunk (content (tf_handle f')) p 0 = Some buf" if "length buf < 2 ^ 31"
    using disk_chunk_write_at [OF that] wroteD(3) [OF w(4)] w(1) by simp
qed

lemma db_write_buf_compressed_calm:
  assumes "snappy_ok sn" and "ready f" and "calm (tf_handle f)"
  obtains n f' where "db_write_buf_compressed sn ops buf f = (Inr (tf_pos f, n), f')"
    and "calm (tf_handle f')" and "grown f f'" and "tf_pos f' = tf_pos f + n"
    and "length buf + length buf div 6 + 32 < 2 ^ 31 \<or> n < 2 ^ 31 \<longrightarrow>
      disk_compressed sn (content (tf_handle f')) (tf_pos f) = Some buf"
proof -
  have i: "inv (tf_handle f)" using assms(2) by (simp add: ready_def can_write_def)
  obtain h1 where h1: "fo_malloc ops (tf_handle f) = (Inr True, h1)" "calm h1" "reads (tf_handle f) h1"
    by (rule malloc_calm_reads [OF i assms(3)])
  define f1 where "f1 = f\<lparr>tf_handle := h1\<rparr>"
  have g1: "grown f f1" using reads_grown [OF assms(2) h1(3)] by (simp add: f1_def)
  then have "can_write f1" by (simp add: grown_def ready_def)
  then obtain n f' where w: "db_write_buf ops (sn_compress sn buf) f1 = (Inr (tf_pos f1, n), f')"
      "calm (tf_handle f')"
    using db_write_buf_calm [of f1] h1(2) by (auto simp: f1_def)
  note g2 = db_write_buf_grown [OF grown_ready [OF g1] w(1)]
  have sn: "length (sn_compress sn buf) \<le> 32 + length buf + length buf div 6" "sn_length sn (sn_compress sn buf) = Some (length buf)"
      "sn_uncompress sn (sn_compress sn buf) = Some buf"
    using assms(1) by (simp_all add: snappy_ok_def)
  show ?thesis
  proof (rule that)
    show "db_write_buf_compressed sn ops buf f = (Inr (tf_pos f, n), f')"
      using w h1(1) by (simp add: db_write_buf_compressed_def bindE_def on_handle_app f1_def)
    show "grown f f'" by (rule grown_trans [OF g1 g2(1)])
    show "length buf + length buf div 6 + 32 < 2 ^ 31 \<or> n < 2 ^ 31 \<longrightarrow>
        disk_compressed sn (content (tf_handle f')) (tf_pos f) = Some buf"
    proof
      assume "length buf + length buf div 6 + 32 < 2 ^ 31 \<or> n < 2 ^ 31"
      moreover have "length (sn_compress sn buf) \<le> n"
        using g2(3) length_raw_image_ge [of "chunk_header (sn_compress sn buf) @ sn_compress sn buf" "tf_pos f1"]
        by (simp add: chunk_image_def)
      ultimately have "length (sn_compress sn buf) < 2 ^ 31" using sn(1) by linarith
      then show "disk_compressed sn (content (tf_handle f')) (tf_pos f) = Some buf"
        using g2(5) sn by (simp add: disk_compressed_def f1_def)
    qed
  qed (use w g2 in \<open>simp_all add: f1_def\<close>)
qed

lemma write_header_calm:
  assumes "can_write f" and "calm (tf_handle f)"
  defines "pos \<equiv> align_block (tf_pos f)"
  obtains f' where "write_header ops buf f = (Inr pos, f')" and "calm (tf_handle f')"
    and "can_write f'" and "ready f \<Longrightarrow> grown f f'" and "tf_pos f' = pos + length (header_image pos buf)"
    and "content (tf_handle f') = write_at (content (tf_handle f)) pos (header_image pos buf)"
proof -
  let ?hdr = "be_bytes 4 (word_of_nat (length buf + 4) :: u32) @ be_bytes 4 (hash_crc32 buf)"
  have i: "inv (tf_handle f)" "cached (tf_handle f) \<le> pos" "tf_pos f \<le> pos"
    using assms(1) align_block_ge [of "tf_pos f"] by (auto simp: can_write_def pos_def)
  obtain h1 where h1: "fo_pwrite ops (1 # ?hdr) pos (tf_handle f) = (Inr 9, h1)" "calm h1"
    using pwrite_calm [OF i(1,2) assms(2), of "1 # ?hdr"] by auto
  then have w1: "wrote pos (1 # ?hdr) (tf_handle f) h1"
    using pwrite_Inr [OF i(1,2) h1(1)] by (simp add: wrote_def)
  then have "inv h1" "cached h1 \<le> pos + 9" using i by (auto dest: wroteD)
  then obtain h2 where h2: "raw_write ops buf (pos + 9) h1 = (Inr (length (raw_image (pos + 9) buf)), h2)"
    "calm h2" "wrote (pos + 9) (raw_image (pos + 9) buf) h1 h2"
    using raw_write_calm h1(2) by blast
  have "pos mod COUCH_BLOCK_SIZE = 0" by (simp add: pos_def align_block_mod)
  then have "raw_image (pos + 1) ?hdr = ?hdr"
    by (intro raw_image_run) (simp_all add: mod_Suc, simp_all add: COUCH_BLOCK_SIZE_def)
  then have img: "header_image pos buf = (1 # ?hdr) @ raw_image (pos + 9) buf"
    using raw_image_append [of "pos + 1" ?hdr buf]
    by (simp add: header_image_def add.commute del: of_nat_add of_nat_numeral append_assoc)
  define f' where "f' = \<lparr>tf_pos = pos + length (header_image pos buf), tf_handle = h2\<rparr>"
  have w: "wrote pos (header_image pos buf) (tf_handle f) h2"
    unfolding img by (rule wrote_append [OF w1]) (use h2(3) in simp)
  show ?thesis
  proof (rule that [of f'])
    show "write_header ops buf f = (Inr pos, f')"
      using h1(1) h2(1) img unfolding write_header_def pos_def [symmetric]
      by (simp add: bindE_def on_handle_app f'_def Let_def del: of_nat_add of_nat_numeral flip: pos_def)
    show "can_write f'"
      using w i by (auto simp: can_write_def wrote_def f'_def)
    show "grown f f'" if "ready f"
      using w that i by (auto simp: grown_def ready_def can_write_def wrote_def f'_def length_write_at
          intro!: write_at_prefix)
  qed (use h2 w in \<open>simp_all add: f'_def wrote_def\<close>)
qed

end

section \<open>Properties of the chunk format over the default file operations\<close>

text \<open>
  C6. Writing a chunk and reading it back. Whatever short transfers, interruptions and failed
  system calls the environment has in store: once \<open>db_write_buf\<close> has reported success, reading the
  reported offset, in this or any later state of the file that still starts with what was
  written, returns exactly the bytes written or reports an error; and it returns them if no
  disturbance comes.
\<close>

theorem db_write_buf_pread_bin:
  assumes "db_write_buf default_file_ops buf f = (Inr (p, n), f')" and "length buf < 2 ^ 31"
    and "prefix (os_content (tf_handle f')) (os_content h)"
    and "pread_bin default_file_ops p h = (res, h')"
  shows "res = Inr buf \<or> (\<exists>c. res = Inl (Err c)) \<and> \<not> os_calm h"
proof -
  have "os.can_write f" by (simp add: os.can_write_def)
  note w = os.db_write_buf_Inr [OF this assms(1)]
  have "disk_chunk (os_content (tf_handle f')) p 0 = Some buf"
    using disk_chunk_write_at [OF assms(2)] os.wroteD(3) [OF w(4)] w(1) by simp
  then have chunk: "disk_chunk (os_content h) p 0 = Some buf" using assms(3) by (rule disk_chunk_mono)
  have h: "os.reads h h" by (rule os.reads_refl) simp
  show ?thesis
  proof (cases "os_calm h")
    case True
    with chunk show ?thesis using os.pread_bin_internal_calm [of h p 0 buf] assms(4)
      by (auto simp: pread_bin_def)
  next
    case False
    then show ?thesis
      using hoare_InrD [OF os.pread_bin_internal_any h] hoare_InlD [OF os.pread_bin_internal_any h]
        assms(4) chunk
      by (cases res) (fastforce simp: pread_bin_def os.reads_err_def)+
  qed
qed

text \<open>
  C7. Append-only. Whatever happens to its system calls, \<open>db_write_buf\<close> keeps every byte below
  the append position, and an error leaves the append position where it was.
\<close>

theorem db_write_buf_append_only:
  assumes "db_write_buf default_file_ops buf f = (res, f')" and "k \<le> tf_pos f"
    and "k \<le> length (os_content (tf_handle f))"
  shows "take k (os_content (tf_handle f')) = take k (os_content (tf_handle f)) \<and>
    (case res of
       Inl e \<Rightarrow> (\<exists>c. e = Err c) \<and> tf_pos f' = tf_pos f
     | Inr (p, n) \<Rightarrow> p = tf_pos f \<and> tf_pos f' = p + n \<and> length buf + 8 \<le> n)"
proof -
  have f: "os.can_write f" by (simp add: os.can_write_def)
  show ?thesis
  proof (cases res)
    case (Inl e)
    then show ?thesis using os.db_write_buf_Inl [OF f, of buf e f'] assms
      by (auto simp: os.wrote_def take_write_at)
  next
    case (Inr pn)
    then obtain p n where pn: "res = Inr (p, n)" by (cases pn) auto
    then show ?thesis using os.db_write_buf_Inr [OF f, of buf p n f'] assms
        length_raw_image_ge [of "chunk_header buf @ buf" "tf_pos f"]
      by (auto simp: os.wrote_def take_write_at chunk_image_def)
  qed
qed

definition example_file :: "nat \<Rightarrow> byte list \<Rightarrow> io_event list \<Rightarrow> os_file tree_file" where
  "example_file pos c es =
     \<lparr>tf_pos = pos, tf_handle = \<lparr>os_content = c, os_synced = [], os_events = es, os_allocs = [], os_errinfo = 0\<rparr>\<rparr>"

text \<open>The hypotheses of the two theorems are met by a run with a short transfer and an interruption.\<close>

theorem db_write_buf_pread_bin_witness:
  "\<exists>p n f' res h'. db_write_buf default_file_ops [1, 2, 3] (example_file 5 [7, 7, 7, 7, 7] [Short 1, Interrupt])
       = (Inr (p, n), f') \<and>
     pread_bin default_file_ops p (tf_handle f') = (res, h') \<and> res = Inr [1, 2, 3]"
proof -
  let ?f = "example_file 5 [7, 7, 7, 7, 7] [Short 1, Interrupt]"
  have "case db_write_buf default_file_ops [1, 2, 3] ?f of
      (Inr (p, n), f') \<Rightarrow> os_calm (tf_handle f') | _ \<Rightarrow> False"
    by code_simp
  then obtain p n f' where w: "db_write_buf default_file_ops [1, 2, 3] ?f = (Inr (p, n), f')" "os_calm (tf_handle f')"
    by (auto split: prod.splits sum.splits)
  then show ?thesis
    using db_write_buf_pread_bin [OF w(1), of "tf_handle f'"] by (cases "pread_bin default_file_ops p (tf_handle f')") auto
qed

theorem db_write_buf_append_only_witness:
  "\<exists>res f'. db_write_buf default_file_ops [1, 2, 3] (example_file 2 [7, 8, 9] [Short 1, Failure 5]) = (res, f') \<and>
     take 2 (os_content (tf_handle f')) = [7, 8] \<and> tf_pos f' = 2"
proof -
  let ?f = "example_file 2 [7, 8, 9] [Short 1, Failure 5]"
  obtain res f' where w: "db_write_buf default_file_ops [1, 2, 3] ?f = (res, f')" by fastforce
  have "case db_write_buf default_file_ops [1, 2, 3] ?f of (r, _) \<Rightarrow> (case r of Inl _ \<Rightarrow> True | Inr _ \<Rightarrow> False)"
    by code_simp
  then show ?thesis
    using db_write_buf_append_only [OF w, of 2] w
    by (auto simp: example_file_def split: sum.splits)
qed

section \<open>Corruption\<close>

text \<open>\<open>skip_end pos i\<close> is the offset of byte \<open>i\<close> of the data from \<open>pos\<close> on.\<close>

lemma skip_end_ge: "pos + i \<le> skip_end pos i"
proof (induction i arbitrary: pos)
  case (Suc i)
  have "skip_prefix pos + 1 + i \<le> skip_end (skip_prefix pos + 1) i" by (rule Suc.IH)
  then show ?case using skip_prefix_le [of pos] by simp
qed (simp add: skip_prefix_le)

lemma skip_bytes_update_below:
  "j < pos \<Longrightarrow> skip_bytes (c[j := x]) pos n = skip_bytes c pos n"
proof (induction n arbitrary: pos)
  case (Suc n)
  then show ?case using skip_prefix_le [of pos] by (auto simp: Let_def)
qed simp

lemma skip_bytes_update:
  "i < n \<Longrightarrow> skip_bytes (c[skip_end pos i := x]) pos n = map_option (\<lambda>bs. bs[i := x]) (skip_bytes c pos n)"
proof (induction n arbitrary: pos i)
  case (Suc n)
  show ?case
  proof (cases i)
    case 0
    then show ?thesis
      by (auto simp: Let_def skip_bytes_update_below option.map_comp comp_def)
  next
    case (Suc k)
    have "skip_prefix pos < skip_end (skip_prefix pos + 1) k"
      using skip_end_ge [of "skip_prefix pos + 1" k] by simp
    then show ?thesis
      using Suc.prems Suc.IH [of k "skip_prefix pos + 1"] Suc
      by (auto simp: Let_def option.map_comp comp_def)
  qed
qed simp

lemma skip_bytes_update_above:
  "skip_end pos n \<le> j \<Longrightarrow> skip_bytes (c[j := x]) pos n = skip_bytes c pos n"
proof (induction n arbitrary: pos)
  case (Suc n)
  have "skip_prefix pos < skip_end (skip_prefix pos + 1) n"
    using skip_end_ge [of "skip_prefix pos + 1" n] by simp
  then show ?case using Suc by (auto simp: Let_def)
qed simp

lemma pread_bin_corrupt:
  assumes "disk_chunk c pos 0 = Some buf" and "hash_crc32 buf \<noteq> 0"
    and "skip_bytes c pos 8 = Some info" and "be_word (drop 4 info) = hash_crc32 buf"
    and "i < length buf" and "x \<noteq> buf ! i"
    and "os_content h = c[skip_end pos (8 + i) := x]" and "os_calm h"
  shows "\<exists>h'. pread_bin default_file_ops pos h = (Inl (Err COUCHSTORE_ERROR_CHECKSUM_FAIL), h')"
proof -
  obtain good len where payload: "chunk_payload 0 info = (good, Some len)"
    and bytes: "skip_bytes c (skip_end pos 8) len = Some buf"
    using assms(1,3) by (auto simp: disk_chunk_def split: option.splits prod.splits if_splits)
  have len: "len = length buf" using length_skip_bytes [OF bytes] by simp
  have crc: "hash_crc32 (buf[i := x]) \<noteq> hash_crc32 buf"
    using assms(5,6) hash_crc32_byte_inject [of "take i buf" x "drop (Suc i) buf" "buf ! i"]
    by (simp add: upd_conv_take_nth_drop flip: id_take_nth_drop)
  have info: "skip_bytes (os_content h) pos 8 = Some info"
    using assms(3,7) skip_end_ge [of "skip_end pos 8" i] by (simp add: skip_end_add skip_bytes_update_above)
  have data: "skip_bytes (os_content h) (skip_end pos 8) len = Some (buf[i := x])"
    using assms(5,7) bytes len by (simp add: skip_end_add skip_bytes_update)
  have bad: "\<not> good (buf[i := x])"
    using payload assms(2,4) crc by (auto simp: chunk_payload_def Let_def)
  obtain h1 where h1: "read_skipping_prefixes default_file_ops pos 8 h = (Inr (info, skip_end pos 8), h1)"
    "os_calm h1" "os.reads h h1" using os.read_skipping_prefixes_calm [OF _ assms(8) info] by blast
  obtain h2 where h2: "fo_malloc default_file_ops h1 = (Inr True, h2)" "os_calm h2" "os.reads h1 h2"
    using os.malloc_calm_reads [OF _ h1(2)] by blast
  have "skip_bytes (os_content h2) (skip_end pos 8) len = Some (buf[i := x])"
    using data os.readsD(2) [OF h1(3)] os.readsD(2) [OF h2(3)] by simp
  then obtain h3 where h3: "read_skipping_prefixes default_file_ops (skip_end pos 8) len h2 =
      (Inr (buf[i := x], skip_end (skip_end pos 8) len), h3)"
    using os.read_skipping_prefixes_calm [OF _ h2(2)] by blast
  show ?thesis
    using h1(1) h2(1) h3 payload bad
    by (simp add: pread_bin_def pread_bin_internal_alt bindE_def)
qed

text \<open>
  C8. A damaged byte is noticed. After \<open>db_write_buf\<close> has stored a chunk (with a checksum other
  than 0, which the reader takes for ``no checksum''), let any one of its data bytes be changed on
  disk, to any other value: the read reports a checksum failure instead of returning wrong data.
\<close>

theorem pread_bin_detects_corruption:
  assumes "db_write_buf default_file_ops buf f = (Inr (p, n), f')" and "length buf < 2 ^ 31"
    and "hash_crc32 buf \<noteq> 0" and "i < length buf" and "x \<noteq> buf ! i"
    and "os_content h = (os_content (tf_handle f'))[skip_end p (8 + i) := x]" and "os_calm h"
  shows "\<exists>h'. pread_bin default_file_ops p h = (Inl (Err COUCHSTORE_ERROR_CHECKSUM_FAIL), h')"
proof -
  have "os.can_write f" by (simp add: os.can_write_def)
  note w = os.db_write_buf_Inr [OF this assms(1)]
  have c: "os_content (tf_handle f') = write_at (os_content (tf_handle f)) p (chunk_image p buf)"
    using os.wroteD(3) [OF w(4)] w(1) by simp
  have "skip_bytes (os_content (tf_handle f')) p 8 = Some (chunk_header buf)"
    using skip_bytes_image_header [of "os_content (tf_handle f)" p "chunk_header buf" buf]
    by (simp add: c chunk_image_def)
  moreover have "be_word (drop 4 (chunk_header buf)) = hash_crc32 buf"
    by (simp add: chunk_header_def be_word_be_bytes4)
  moreover have "disk_chunk (os_content (tf_handle f')) p 0 = Some buf"
    using disk_chunk_write_at [OF assms(2)] c by simp
  ultimately show ?thesis using assms(3-7) by (intro pread_bin_corrupt)
qed

theorem pread_bin_detects_corruption_witness:
  "\<exists>p n f' h'. db_write_buf default_file_ops [1, 2, 3] (example_file 5 [7, 7, 7, 7, 7] []) = (Inr (p, n), f') \<and>
     pread_bin default_file_ops p
       ((tf_handle f')\<lparr>os_content := (os_content (tf_handle f'))[skip_end p (8 + 1) := 77]\<rparr>)
       = (Inl (Err COUCHSTORE_ERROR_CHECKSUM_FAIL), h')"
proof -
  let ?f = "example_file 5 [7, 7, 7, 7, 7] []"
  have "case db_write_buf default_file_ops [1, 2, 3] ?f of
      (Inr (p, n), f') \<Rightarrow> os_calm (tf_handle f') | _ \<Rightarrow> False"
    by code_simp
  then obtain p n f' where w: "db_write_buf default_file_ops [1, 2, 3] ?f = (Inr (p, n), f')" "os_calm (tf_handle f')"
    by (auto split: prod.splits sum.splits)
  have "hash_crc32 [1, 2, 3] \<noteq> 0" by code_simp
  then show ?thesis
    using pread_bin_detects_corruption [OF w(1), of 1 77
        "(tf_handle f')\<lparr>os_content := (os_content (tf_handle f'))[skip_end p (8 + 1) := 77]\<rparr>"] w
    by (simp add: os_calm_def)
qed

end
