(* ===== verification/Btree_Node.thy ===== *)
theory Btree_Node
  imports Couch_File Couch_Util
begin

text \<open>
  What the two halves of the B-tree code share: the items of a node as both
  \<^verbatim>\<open>couchstore/src/btree_read.cc\<close> and \<^verbatim>\<open>btree_modify.cc\<close> read them, the stored form of a pointer to a
  child (\<open>raw_node_pointer\<close>, \<open>encode_pointer\<close>, \<open>read_pointer\<close>), and the abstract tree the bytes
  stand for.

  \<open>kv_items\<close> is the sequence of items the loops \<open>while (bufpos < nodebuflen) read_kv(...)\<close> run
  through. It is consumed item by item, so a malformed tail (\<open>None\<close>, a read past the end of the
  node) is only reached by code that reads that far.

  \<open>btree\<close> is the abstract tree: leaves with items, inner nodes with the pointer to every child and
  the child. \<open>on_disk sn c pos t\<close>: the file content \<open>c\<close> holds \<open>t\<close> with its root node at \<open>pos\<close>.
\<close>

section \<open>Items and pointers\<close>

function kv_items :: "byte list \<Rightarrow> (sized_buf \<times> sized_buf) option list" where
  "kv_items buf =
     (if buf = [] then []
      else case read_kv buf of
          None \<Rightarrow> [None]
        | Some (k, v, n) \<Rightarrow> Some (k, v) # kv_items (drop n buf))"
  by pat_completeness auto
termination
  by (relation "measure length") (auto dest!: read_kv_Some)

declare kv_items.simps [simp del]

definition sizeof_raw_node_pointer :: nat where
  "sizeof_raw_node_pointer = 14"

text \<open>The bytes \<open>encode_pointer\<close> puts into its node.\<close>

definition raw_node_pointer :: "node_pointer \<Rightarrow> sized_buf" where
  "raw_node_pointer ptr =
     couchstore_encode_raw48 (np_pointer ptr) @ couchstore_encode_raw48 (np_subtreesize ptr)
       @ couchstore_encode_raw16 (word_of_nat (length (np_reduce_value ptr)))
       @ np_reduce_value ptr"

text \<open>\<open>None\<close>: the value is too short for the fields or the reduce value it claims to hold.\<close>

definition read_pointer :: "sized_buf \<Rightarrow> sized_buf \<Rightarrow> node_pointer option" where
  "read_pointer key buf =
     (if length buf < sizeof_raw_node_pointer then None
      else let size = unat (couchstore_decode_raw16 (take 2 (drop 12 buf)))
           in if length buf < sizeof_raw_node_pointer + size then None
              else Some \<lparr>np_key = key,
                         np_pointer = couchstore_decode_raw48p (take 6 buf),
                         np_reduce_value = take size (drop sizeof_raw_node_pointer buf),
                         np_subtreesize = couchstore_decode_raw48p (take 6 (drop 6 buf))\<rparr>)"

section \<open>The abstract tree\<close>

datatype btree =
    KV "(sized_buf \<times> sized_buf) list"
  | KP "(node_pointer \<times> btree) list"

fun items :: "btree \<Rightarrow> (sized_buf \<times> sized_buf) list" where
  "items (KV xs) = xs"
| "items (KP ts) = concat (map (\<lambda>pt. items (snd pt)) ts)"

fun height :: "btree \<Rightarrow> nat" where
  "height (KV xs) = 0"
| "height (KP ts) = Suc (Max (set (0 # map (\<lambda>pt. height (snd pt)) ts)))"

text \<open>Every node has an item, every pointer carries the last key of its child, and all leaves are
  at the same depth.\<close>

fun bt_wf :: "btree \<Rightarrow> bool" where
  "bt_wf (KV xs) \<longleftrightarrow> xs \<noteq> []"
| "bt_wf (KP ts) \<longleftrightarrow> ts \<noteq> [] \<and>
     (\<forall>pt\<in>set ts. bt_wf (snd pt) \<and> np_key (fst pt) = fst (last (items (snd pt))))"

fun bt_balanced :: "nat \<Rightarrow> btree \<Rightarrow> bool" where
  "bt_balanced n (KV xs) \<longleftrightarrow> n = 0"
| "bt_balanced n (KP ts) \<longleftrightarrow> 0 < n \<and> (\<forall>pt\<in>set ts. bt_balanced (n - 1) (snd pt))"

section \<open>Its bytes\<close>

definition node_body :: "(sized_buf \<times> sized_buf) list \<Rightarrow> byte list" where
  "node_body xs = concat (map (\<lambda>(k, v). write_kv k v) xs)"

definition ptr_item :: "node_pointer \<Rightarrow> sized_buf \<times> sized_buf" where
  "ptr_item p = (np_key p, raw_node_pointer p)"

definition ptr_fits :: "node_pointer \<Rightarrow> bool" where
  "ptr_fits p \<longleftrightarrow> unat (np_pointer p) < 2 ^ 48 \<and> unat (np_subtreesize p) < 2 ^ 48 \<and>
     length (np_reduce_value p) < 2 ^ 16"

fun on_disk :: "snappy \<Rightarrow> byte list \<Rightarrow> nat \<Rightarrow> btree \<Rightarrow> bool" where
  "on_disk sn c pos (KV xs) \<longleftrightarrow>
     disk_compressed sn c pos = Some (1 # node_body xs) \<and> (\<forall>x\<in>set xs. kv_fits (fst x) (snd x))"
| "on_disk sn c pos (KP ts) \<longleftrightarrow>
     disk_compressed sn c pos = Some (0 # node_body (map (\<lambda>pt. ptr_item (fst pt)) ts)) \<and>
     (\<forall>pt\<in>set ts. ptr_fits (fst pt) \<and> kv_fits (np_key (fst pt)) (raw_node_pointer (fst pt)) \<and>
        on_disk sn c (unat (np_pointer (fst pt))) (snd pt))"

section \<open>Lemmas\<close>

lemma btree_induct [case_names KV KP]:
  assumes "\<And>xs. P (KV xs)" and "\<And>ts. (\<And>pt. pt \<in> set ts \<Longrightarrow> P (snd pt)) \<Longrightarrow> P (KP ts)"
  shows "P t"
proof (induction t)
  case (KP ts)
  then have "P (snd pt)" if "pt \<in> set ts" for pt using that by (cases pt) auto
  then show ?case by (rule assms(2))
qed (rule assms(1))

lemma kv_items_node_body:
  "\<forall>x\<in>set xs. kv_fits (fst x) (snd x) \<Longrightarrow> kv_items (node_body xs) = map Some xs"
proof (induction xs)
  case (Cons x xs)
  obtain k v where x: "x = (k, v)" by fastforce
  have "read_kv (write_kv k v @ node_body xs) = Some (k, v, length (write_kv k v))"
    using Cons.prems by (simp add: x read_write_kv)
  moreover have "write_kv k v \<noteq> []" by (simp add: write_kv_def encode_kv_length_def Let_def)
  ultimately show ?case
    using Cons by (subst kv_items.simps) (simp add: x node_body_def)
qed (simp add: node_body_def kv_items.simps)

lemma length_raw_node_pointer [simp]:
  "length (raw_node_pointer p) = 14 + length (np_reduce_value p)"
  by (simp add: raw_node_pointer_def)

lemma read_pointer_raw [simp]:
  assumes "ptr_fits p"
  shows "read_pointer (np_key p) (raw_node_pointer p) = Some p"
proof -
  have "length (np_reduce_value p) < 2 ^ 16" using assms by (simp add: ptr_fits_def)
  then have "unat (word_of_nat (length (np_reduce_value p)) :: u16) = length (np_reduce_value p)"
    by (simp add: unat_of_nat take_bit_nat_eq_self)
  then show ?thesis
    using assms
    by (simp add: read_pointer_def raw_node_pointer_def sizeof_raw_node_pointer_def ptr_fits_def)
qed

lemma on_disk_mono: "on_disk sn c pos t \<Longrightarrow> prefix c c' \<Longrightarrow> on_disk sn c' pos t"
proof (induction t arbitrary: pos)
  case (KP ts)
  then show ?case by (fastforce intro: disk_compressed_mono)
qed (auto intro: disk_compressed_mono)

lemma items_nonempty: "bt_wf t \<Longrightarrow> items t \<noteq> []"
proof (induction t)
  case (KP ts)
  then obtain p t ts' where ts: "ts = (p, t) # ts'" by (cases ts) auto
  then have "items t \<noteq> []" using KP.prems by (intro KP.IH [of "(p, t)"]) auto
  then show ?case by (simp add: ts)
qed simp

lemma height_child: "pt \<in> set ts \<Longrightarrow> height (snd pt) < height (KP ts)"
  by (auto simp: less_Suc_eq_le)

lemma bt_balanced_height: "bt_balanced n t \<Longrightarrow> bt_wf t \<Longrightarrow> height t = n"
proof (induction t arbitrary: n)
  case (KP ts)
  have "height (snd pt) = n - 1" if "pt \<in> set ts" for pt
    using KP that by (cases pt) fastforce
  then have "(\<lambda>pt. height (snd pt)) ` set ts \<subseteq> {n - 1}" by auto
  moreover have "ts \<noteq> []" "0 < n" using KP.prems by auto
  ultimately have "(\<lambda>pt. height (snd pt)) ` set ts = {n - 1}" by (cases ts) auto
  then show ?case using \<open>0 < n\<close> by simp
qed simp

end
