(* ===== verification/Btree_Read.thy ===== *)
theory Btree_Read
  imports Btree_Node
begin

text \<open>
  Model of \<^verbatim>\<open>couchstore/src/btree_read.cc\<close>: looking up a sorted list of keys, or all items from a
  key on (\<open>fold\<close>), with a callback for every key or item.

  A range \<open>current .. end\<close> of indices into \<open>rq->keys\<close> is the list of the keys in it together with
  \<open>beyond\<close>, the key at index \<open>end\<close>: \<open>None\<close> when \<open>end\<close> is the number of keys and the access would
  leave the array. The callback gets \<open>None\<close> as key in that case. Recursion is bounded by fuel; the
  height of the tree is enough.
\<close>

section \<open>The lookup request and its state\<close>

record 'c lookup_request =
  lr_compare :: "sized_buf \<Rightarrow> sized_buf \<Rightarrow> int"
  lr_keys :: "sized_buf list"
  lr_fetch_callback :: "sized_buf option \<Rightarrow> sized_buf option \<Rightarrow> ('c, unit) cmd"
  lr_node_callback :: "(u64 \<Rightarrow> sized_buf option \<Rightarrow> ('c, unit) cmd) option"

record ('h, 'c) lookup_state =
  lk_handle :: 'h
  lk_fold :: bool
  lk_in_fold :: bool
  lk_ctx :: 'c

definition on_lk_handle :: "('h, 'a) cmd \<Rightarrow> (('h, 'c) lookup_state, 'a) cmd" where
  "on_lk_handle m = zoomE lk_handle (\<lambda>h s. s\<lparr>lk_handle := h\<rparr>) m"

definition on_ctx :: "('c, 'a) cmd \<Rightarrow> (('h, 'c) lookup_state, 'a) cmd" where
  "on_ctx m = zoomE lk_ctx (\<lambda>c s. s\<lparr>lk_ctx := c\<rparr>) m"

definition fetch_callback ::
  "'c lookup_request \<Rightarrow> sized_buf option \<Rightarrow> sized_buf option \<Rightarrow> (('h, 'c) lookup_state, unit) cmd" where
  "fetch_callback rq k v = on_ctx (lr_fetch_callback rq k v)"

definition node_callback ::
  "'c lookup_request \<Rightarrow> u64 \<Rightarrow> sized_buf option \<Rightarrow> (('h, 'c) lookup_state, unit) cmd" where
  "node_callback rq subtreeSize red =
     (case lr_node_callback rq of None \<Rightarrow> returnE () | Some f \<Rightarrow> on_ctx (f subtreeSize red))"

section \<open>The lookup\<close>

definition lookup_compare :: "'c lookup_request \<Rightarrow> sized_buf \<Rightarrow> sized_buf \<Rightarrow> int" where
  "lookup_compare rq key1 key2 =
     (if key1 = [] \<or> key2 = []
      then if key1 = [] then - 1 else if key2 = [] then 1 else 0
      else lr_compare rq key1 key2)"

definition first_or :: "'a option \<Rightarrow> 'a list \<Rightarrow> 'a option" where
  "first_or d xs = (case xs of [] \<Rightarrow> d | x # _ \<Rightarrow> Some x)"

text \<open>The loop over the pointers of an inner node. \<open>descend\<close> is the recursive call.\<close>

fun lookup_kp ::
  "(u64 \<Rightarrow> sized_buf list \<Rightarrow> sized_buf option \<Rightarrow> (('h, 'c) lookup_state, unit) cmd) \<Rightarrow> 'c lookup_request \<Rightarrow>
   (sized_buf \<times> sized_buf) option list \<Rightarrow> sized_buf list \<Rightarrow> sized_buf option \<Rightarrow>
   (('h, 'c) lookup_state, sized_buf list) cmd" where
  "lookup_kp descend rq [] ks beyond = returnE ks"
| "lookup_kp descend rq (x # xs) ks beyond =
     (case ks of
        [] \<Rightarrow> returnE []
      | key # more_keys \<Rightarrow>
          (case x of
             None \<Rightarrow> throwE InvalidAccess
           | Some (cmp_key, val_buf) \<Rightarrow>
               if 0 \<le> lookup_compare rq cmp_key key
               then bindE (modifyE (\<lambda>s. if lk_fold s then s\<lparr>lk_in_fold := True\<rparr> else s)) (\<lambda>_.
                 let matching = takeWhile (\<lambda>k. 0 \<le> lookup_compare rq cmp_key k) more_keys;
                     after = drop (length matching) more_keys
                 in case read_pointer cmp_key val_buf of
                      None \<Rightarrow> throwE InvalidAccess
                    | Some raw \<Rightarrow>
                        bindE (node_callback rq (np_subtreesize raw) (Some (np_reduce_value raw))) (\<lambda>_.
                          bindE (descend (np_pointer raw) (key # matching) (first_or beyond after)) (\<lambda>_.
                            bindE (getE lk_in_fold) (\<lambda>in_fold.
                              bindE (node_callback rq 0 None) (\<lambda>_.
                                lookup_kp descend rq xs (if in_fold then ks else after) beyond)))))
               else lookup_kp descend rq xs ks beyond))"

text \<open>
  The turns of the leaf loop that look at one item: while \<open>next_key\<close> is false the same item is
  compared with the next key, but only as long as there are bytes left in the node after it
  (\<open>bytes_left\<close>).
\<close>

fun lookup_item ::
  "'c lookup_request \<Rightarrow> bool \<Rightarrow> sized_buf \<Rightarrow> sized_buf \<Rightarrow> sized_buf list \<Rightarrow> sized_buf option \<Rightarrow>
   (('h, 'c) lookup_state, sized_buf list) cmd" where
  "lookup_item rq bytes_left cmp_key val_buf [] beyond = returnE []"
| "lookup_item rq bytes_left cmp_key val_buf (key # ks) beyond =
     (let cmp_val = lookup_compare rq cmp_key key
      in bindE (getE (\<lambda>s. (lk_fold s, lk_in_fold s))) (\<lambda>(fold, in_fold).
        let enter = (0 \<le> cmp_val \<and> fold \<and> \<not> in_fold);
            past = (\<not> enter \<and> in_fold \<and> ks \<noteq> [] \<and> 0 < lookup_compare rq cmp_key (hd ks));
            in_fold = ((enter \<or> in_fold) \<and> \<not> past)
        in bindE (modifyE (\<lambda>s. s\<lparr>lk_in_fold := in_fold, lk_fold := fold \<and> \<not> past\<rparr>)) (\<lambda>_.
          if 0 \<le> cmp_val
          then bindE (if cmp_val = 0 \<or> in_fold then fetch_callback rq (Some cmp_key) (Some val_buf)
                      else fetch_callback rq (if past then beyond else Some key) None) (\<lambda>_.
            if in_fold then returnE (key # ks)
            else if past then returnE []
            else if cmp_val = 0 \<or> \<not> bytes_left then returnE ks
            else lookup_item rq bytes_left cmp_key val_buf ks beyond)
          else returnE (if past then [] else key # ks))))"

fun lookup_kv ::
  "'c lookup_request \<Rightarrow> (sized_buf \<times> sized_buf) option list \<Rightarrow> sized_buf list \<Rightarrow> sized_buf option \<Rightarrow>
   (('h, 'c) lookup_state, sized_buf list) cmd" where
  "lookup_kv rq [] ks beyond = returnE ks"
| "lookup_kv rq (x # xs) ks beyond =
     (if ks = [] then returnE []
      else case x of
          None \<Rightarrow> throwE InvalidAccess
        | Some (cmp_key, val_buf) \<Rightarrow>
            bindE (lookup_item rq (xs \<noteq> []) cmp_key val_buf ks beyond) (\<lambda>ks'. lookup_kv rq xs ks' beyond))"

text \<open>Any remaining items are not found.\<close>

fun report_missing :: "'c lookup_request \<Rightarrow> sized_buf list \<Rightarrow> (('h, 'c) lookup_state, unit) cmd" where
  "report_missing rq [] = returnE ()"
| "report_missing rq (key # ks) =
     bindE (getE lk_fold) (\<lambda>fold.
       if fold then returnE ()
       else bindE (fetch_callback rq (Some key) None) (\<lambda>_. report_missing rq ks))"

fun btree_lookup_inner ::
  "nat \<Rightarrow> snappy \<Rightarrow> 'h couch_file_ops \<Rightarrow> 'c lookup_request \<Rightarrow> u64 \<Rightarrow> sized_buf list \<Rightarrow> sized_buf option \<Rightarrow>
   (('h, 'c) lookup_state, unit) cmd" where
  "btree_lookup_inner 0 sn ops rq diskpos ks beyond = throwE OutOfFuel"
| "btree_lookup_inner (Suc fuel) sn ops rq diskpos ks beyond =
     (if ks = [] then returnE ()
      else bindE (on_lk_handle (pread_compressed sn ops (unat diskpos))) (\<lambda>nodebuf.
        case nodebuf of
          [] \<Rightarrow> throwE InvalidAccess
        | node_type # body \<Rightarrow>
            bindE (if node_type = 0
                   then lookup_kp (btree_lookup_inner fuel sn ops rq) rq (kv_items body) ks beyond
                   else if node_type = 1 then lookup_kv rq (kv_items body) ks beyond
                   else returnE ks)
              (report_missing rq)))"

definition btree_lookup ::
  "nat \<Rightarrow> snappy \<Rightarrow> 'h couch_file_ops \<Rightarrow> 'c lookup_request \<Rightarrow> u64 \<Rightarrow> (('h, 'c) lookup_state, unit) cmd" where
  "btree_lookup fuel sn ops rq root_pointer =
     bindE (modifyE (\<lambda>s. s\<lparr>lk_in_fold := False\<rparr>)) (\<lambda>_.
       btree_lookup_inner fuel sn ops rq root_pointer (lr_keys rq) None)"

section \<open>The calls of a lookup\<close>

text \<open>
  The calls of the callback that a lookup makes, as a function of the abstract tree: \<open>item_step\<close>,
  \<open>leaf_calls\<close> and \<open>tree_calls\<close> for a lookup of several keys.
\<close>

type_synonym callback_call = "sized_buf option \<times> sized_buf option"

definition found :: "sized_buf \<times> sized_buf \<Rightarrow> callback_call" where
  "found x = (Some (fst x), Some (snd x))"

definition missing :: "sized_buf \<Rightarrow> callback_call" where
  "missing key = (Some key, None)"

fun item_step ::
  "(sized_buf \<Rightarrow> sized_buf \<Rightarrow> int) \<Rightarrow> bool \<Rightarrow> sized_buf \<times> sized_buf \<Rightarrow> sized_buf list \<Rightarrow>
   callback_call list \<times> sized_buf list" where
  "item_step lc bytes_left x [] = ([], [])"
| "item_step lc bytes_left x (key # ks) =
     (if lc (fst x) key < 0 then ([], key # ks)
      else if lc (fst x) key = 0 then ([found x], ks)
      else if \<not> bytes_left then ([missing key], ks)
      else (case item_step lc bytes_left x ks of (cs, r) \<Rightarrow> (missing key # cs, r)))"

fun leaf_calls ::
  "(sized_buf \<Rightarrow> sized_buf \<Rightarrow> int) \<Rightarrow> (sized_buf \<times> sized_buf) list \<Rightarrow> sized_buf list \<Rightarrow> callback_call list" where
  "leaf_calls lc [] ks = map missing ks"
| "leaf_calls lc (x # xs) ks =
     (case item_step lc (xs \<noteq> []) x ks of (cs, r) \<Rightarrow> cs @ leaf_calls lc xs r)"

fun tree_calls :: "(sized_buf \<Rightarrow> sized_buf \<Rightarrow> int) \<Rightarrow> btree \<Rightarrow> sized_buf list \<Rightarrow> callback_call list"
  and kids_calls :: "(sized_buf \<Rightarrow> sized_buf \<Rightarrow> int) \<Rightarrow> (node_pointer \<times> btree) list \<Rightarrow> sized_buf list \<Rightarrow> callback_call list"
  where
  "tree_calls lc (KV xs) ks = leaf_calls lc xs ks"
| "tree_calls lc (KP ts) ks = kids_calls lc ts ks"
| "kids_calls lc [] ks = map missing ks"
| "kids_calls lc ((p, t) # ts) ks =
     (case ks of
        [] \<Rightarrow> []
      | key # more_keys \<Rightarrow>
          if 0 \<le> lc (np_key p) key
          then tree_calls lc t (key # takeWhile (\<lambda>k. 0 \<le> lc (np_key p) k) more_keys)
            @ kids_calls lc ts (dropWhile (\<lambda>k. 0 \<le> lc (np_key p) k) more_keys)
          else kids_calls lc ts ks)"

fun run_calls :: "'c lookup_request \<Rightarrow> callback_call list \<Rightarrow> ('c, unit) cmd" where
  "run_calls rq [] = returnE ()"
| "run_calls rq (c # cs) = bindE (lr_fetch_callback rq (fst c) (snd c)) (\<lambda>_. run_calls rq cs)"

lemma run_calls_append: "run_calls rq (as @ bs) = bindE (run_calls rq as) (\<lambda>_. run_calls rq bs)"
proof (induction as)
  case Nil
  show ?case by (simp only: append_Nil run_calls.simps bindE_returnE)
qed (simp add: bindE_assoc)

lemma leaf_calls_Nil [simp]: "leaf_calls lc xs [] = []"
  by (induction xs) auto

lemma kids_calls_Nil [simp]: "kids_calls lc ts [] = []"
  by (cases ts) auto

lemma drop_takeWhile [simp]: "drop (length (takeWhile P xs)) xs = dropWhile P xs"
  by (metis append_eq_conv_conj takeWhile_dropWhile_id)

section \<open>The code makes these calls\<close>

context file_backend
begin

text \<open>
  \<open>lookup_does rq m s cs a f i\<close>: run from \<open>s\<close> in a calm environment, \<open>m\<close> has the effect of the
  calls \<open>cs\<close>; when none of them fails it returns \<open>a\<close> and leaves the two fold flags as \<open>f\<close> and \<open>i\<close>.
\<close>

definition lookup_does ::
  "'c lookup_request \<Rightarrow> (('h, 'c) lookup_state, 'a) cmd \<Rightarrow> ('h, 'c) lookup_state \<Rightarrow> callback_call list \<Rightarrow>
   'a \<Rightarrow> bool \<Rightarrow> bool \<Rightarrow> bool" where
  "lookup_does rq m s cs a f i \<longleftrightarrow>
     (\<exists>h'. calm h' \<and> reads (lk_handle s) h' \<and>
       (case run_calls rq cs (lk_ctx s) of
          (Inl e, c) \<Rightarrow> \<exists>s'. m s = (Inl e, s') \<and> lk_ctx s' = c \<and> lk_handle s' = h'
        | (Inr _, c) \<Rightarrow> m s = (Inr a, \<lparr>lk_handle = h', lk_fold = f, lk_in_fold = i, lk_ctx = c\<rparr>)))"

definition lk_ready :: "('h, 'c) lookup_state \<Rightarrow> bool" where
  "lk_ready s \<longleftrightarrow> inv (lk_handle s) \<and> calm (lk_handle s)"

lemma lookup_does_return:
  "lk_ready s \<Longrightarrow> m s = (Inr a, s') \<Longrightarrow> lk_handle s' = lk_handle s \<Longrightarrow> lk_ctx s' = lk_ctx s \<Longrightarrow>
     lookup_does rq m s [] a (lk_fold s') (lk_in_fold s')"
  unfolding lookup_does_def lk_ready_def
  by (intro exI [of _ "lk_handle s"]) (auto intro: reads_refl)

lemma lookup_does_returnE:
  "lk_ready s \<Longrightarrow> lk_fold s = f \<Longrightarrow> lk_in_fold s = i \<Longrightarrow> lookup_does rq (Pair (Inr a)) s [] a f i"
  "lk_ready s \<Longrightarrow> lk_fold s = f \<Longrightarrow> lk_in_fold s = i \<Longrightarrow> lookup_does rq (returnE a) s [] a f i"
  using lookup_does_return [of s "Pair (Inr a)" a s rq] lookup_does_return [of s "returnE a" a s rq]
  by (simp_all add: returnE_def)

lemma lookup_does_bind:
  assumes "lookup_does rq m s cs a f i"
    and "\<And>h' c. calm h' \<Longrightarrow> reads (lk_handle s) h' \<Longrightarrow>
      lookup_does rq (g a) \<lparr>lk_handle = h', lk_fold = f, lk_in_fold = i, lk_ctx = c\<rparr> cs' b f' i'"
  shows "lookup_does rq (bindE m g) s (cs @ cs') b f' i'"
proof -
  from assms(1) obtain h' where h': "calm h'" "reads (lk_handle s) h'"
    and m: "case run_calls rq cs (lk_ctx s) of
          (Inl e, c) \<Rightarrow> \<exists>s'. m s = (Inl e, s') \<and> lk_ctx s' = c \<and> lk_handle s' = h'
        | (Inr _, c) \<Rightarrow> m s = (Inr a, \<lparr>lk_handle = h', lk_fold = f, lk_in_fold = i, lk_ctx = c\<rparr>)"
    unfolding lookup_does_def by (elim exE conjE) (rule that)
  obtain r c where run: "run_calls rq cs (lk_ctx s) = (r, c)" by fastforce
  show ?thesis
  proof (cases r)
    case (Inl e)
    then show ?thesis
      using m run h' by (auto simp: lookup_does_def run_calls_append bindE_def intro!: exI [of _ h'])
  next
    case (Inr u)
    let ?s' = "\<lparr>lk_handle = h', lk_fold = f, lk_in_fold = i, lk_ctx = c\<rparr>"
    have ms: "m s = (Inr a, ?s')" using m run Inr by simp
    have "lookup_does rq (g a) ?s' cs' b f' i'" using h' by (rule assms(2))
    then obtain h'' where h'': "calm h''" "reads h' h''"
      and g: "case run_calls rq cs' c of
          (Inl e, c) \<Rightarrow> \<exists>s'. g a ?s' = (Inl e, s') \<and> lk_ctx s' = c \<and> lk_handle s' = h''
        | (Inr _, c) \<Rightarrow> g a ?s' = (Inr b, \<lparr>lk_handle = h'', lk_fold = f', lk_in_fold = i', lk_ctx = c\<rparr>)"
      unfolding lookup_does_def lookup_state.simps by (elim exE conjE) (rule that)
    have "run_calls rq (cs @ cs') (lk_ctx s) = run_calls rq cs' c"
      using run Inr by (simp add: run_calls_append bindE_Inr)
    then show ?thesis
      using g h''(1) reads_trans [OF h'(2) h''(2)] bindE_Inr [of m s a ?s' g, OF ms]
      unfolding lookup_does_def by (intro exI [of _ h''] conjI) (auto split: prod.splits sum.splits)
  qed
qed

lemma lookup_does_transfer:
  assumes "lookup_does rq m' s cs a f i" and "m s = m' s" and "cs = cs'"
  shows "lookup_does rq m s cs' a f i"
  using assms(1) unfolding lookup_does_def assms(2,3) .

lemma lookup_does_start:
  assumes "lookup_does rq m' s' cs a f i" and "m s = m' s'"
    and "lk_handle s' = lk_handle s" and "lk_ctx s' = lk_ctx s" and "cs = cs'" and "i = i'"
  shows "lookup_does rq m s cs' a f i'"
  using assms(1) unfolding lookup_does_def assms(2-6) .

lemma lookup_does_bind_pure:
  assumes "m s = (Inr a, s')" and "lookup_does rq (g a) s' cs b f i"
    and "lk_handle s' = lk_handle s" and "lk_ctx s' = lk_ctx s"
  shows "lookup_does rq (bindE m g) s cs b f i"
proof -
  have "bindE m g s = g a s'" using assms(1) by (rule bindE_Inr)
  then show ?thesis using assms(2) unfolding lookup_does_def assms(3,4) by (simp only:)
qed

lemma lookup_does_callback:
  assumes "lk_ready s"
  shows "lookup_does rq (fetch_callback rq k v) s [(k, v)] () (lk_fold s) (lk_in_fold s)"
  using assms
  by (auto simp: lookup_does_def lk_ready_def fetch_callback_def on_ctx_def zoomE_def bindE_def
      intro!: exI [of _ "lk_handle s"] reads_refl split: prod.splits sum.splits)

lemma lk_ready_reads: "calm h \<Longrightarrow> reads h0 h \<Longrightarrow> lk_ready \<lparr>lk_handle = h, lk_fold = f, lk_in_fold = i, lk_ctx = c\<rparr>"
  by (simp add: lk_ready_def readsD)

lemma lookup_item_does:
  "lk_ready s \<Longrightarrow> \<not> lk_fold s \<Longrightarrow> \<not> lk_in_fold s \<Longrightarrow>
   item_step (lookup_compare rq) bytes_left x ks = (cs, r) \<Longrightarrow>
     lookup_does rq (lookup_item rq bytes_left (fst x) (snd x) ks beyond) s cs r False False"
  for rq :: "'c lookup_request"
proof (induction ks arbitrary: s cs r)
  case Nil
  then show ?case by (simp add: lookup_does_returnE)
next
  case (Cons key ks)
  let ?lc = "lookup_compare rq (fst x) key"
  define rest where "rest = (\<lambda>_ :: unit. if ?lc = 0 \<or> \<not> bytes_left then returnE ks
      else lookup_item rq bytes_left (fst x) (snd x) ks beyond :: (('h, _) lookup_state, _) cmd)"
  have item: "lookup_item rq bytes_left (fst x) (snd x) (key # ks) beyond s =
      (if 0 \<le> ?lc then bindE (fetch_callback rq (if ?lc = 0 then Some (fst x) else Some key)
             (if ?lc = 0 then Some (snd x) else None)) rest
       else returnE (key # ks)) s"
    using Cons.prems(2,3) by (cases s) (simp add: rest_def)
  show ?case
  proof (cases "0 \<le> ?lc")
    case False
    then have "lookup_item rq bytes_left (fst x) (snd x) (key # ks) beyond s = (Inr (key # ks), s)"
      using item by simp
    then show ?thesis
      using lookup_does_return [of s "lookup_item rq bytes_left (fst x) (snd x) (key # ks) beyond"
          "key # ks" s] Cons.prems False by (auto simp del: lookup_item.simps)
  next
    case True
    define c where "c = (if ?lc = 0 then found x else missing key)"
    obtain cs' where cs: "cs = c # cs'" "cs' = (if ?lc = 0 \<or> \<not> bytes_left then [] else fst (item_step (lookup_compare rq) bytes_left x ks))"
      "r = (if ?lc = 0 \<or> \<not> bytes_left then ks else snd (item_step (lookup_compare rq) bytes_left x ks))"
      using Cons.prems(4) True by (auto simp: c_def split: if_splits prod.splits)
    have "lookup_does rq (bindE (fetch_callback rq (fst c) (snd c)) rest) s ([c] @ cs') r False False"
    proof (rule lookup_does_bind)
      show "lookup_does rq (fetch_callback rq (fst c) (snd c)) s [c] () False False"
        using lookup_does_callback [OF Cons.prems(1), of rq "fst c" "snd c"] Cons.prems(2,3) by simp
      fix h' and ctx :: 'c assume h': "calm h'" "reads (lk_handle s) h'"
      let ?s' = "\<lparr>lk_handle = h', lk_fold = False, lk_in_fold = False, lk_ctx = ctx\<rparr>"
      have ready: "lk_ready ?s'" using h' by (rule lk_ready_reads)
      show "lookup_does rq (rest ()) ?s' cs' r False False"
      proof (cases "?lc = 0 \<or> \<not> bytes_left")
        case True
        then show ?thesis using ready cs by (simp add: rest_def lookup_does_returnE)
      next
        case False
        then show ?thesis using Cons.IH [OF ready, of cs' r] cs by (simp add: rest_def)
      qed
    qed
    moreover have "lookup_item rq bytes_left (fst x) (snd x) (key # ks) beyond s =
        bindE (fetch_callback rq (fst c) (snd c)) rest s"
      using item True by (simp add: c_def found_def missing_def)
    ultimately show ?thesis by (rule lookup_does_transfer) (simp add: cs(1))
  qed
qed

lemma report_missing_does:
  "lk_ready s \<Longrightarrow> \<not> lk_fold s \<Longrightarrow> \<not> lk_in_fold s \<Longrightarrow>
     lookup_does rq (report_missing rq ks) s (map missing ks) () False False"
proof (induction ks arbitrary: s)
  case Nil
  then show ?case by (simp add: lookup_does_returnE)
next
  case (Cons key ks)
  have "lookup_does rq (bindE (fetch_callback rq (Some key) None) (\<lambda>_. report_missing rq ks)) s
      ([(Some key, None)] @ map missing ks) () False False"
  proof (rule lookup_does_bind)
    show "lookup_does rq (fetch_callback rq (Some key) None) s [(Some key, None)] () False False"
      using lookup_does_callback [OF Cons.prems(1), of rq "Some key" None] Cons.prems(2,3) by simp
    fix h' ctx assume "calm h'" "reads (lk_handle s) h'"
    then show "lookup_does rq (report_missing rq ks)
        \<lparr>lk_handle = h', lk_fold = False, lk_in_fold = False, lk_ctx = ctx\<rparr> (map missing ks) () False False"
      using lk_ready_reads by (intro Cons.IH) auto
  qed
  moreover have "report_missing rq (key # ks) s =
      bindE (fetch_callback rq (Some key) None) (\<lambda>_. report_missing rq ks) s"
    using Cons.prems(2) by simp
  ultimately show ?case by (rule lookup_does_transfer) (simp add: missing_def [of key])
qed

lemma lookup_kv_does:
  "lk_ready s \<Longrightarrow> \<not> lk_fold s \<Longrightarrow> \<not> lk_in_fold s \<Longrightarrow>
     lookup_does rq (bindE (lookup_kv rq (map Some xs) ks beyond) (report_missing rq)) s
       (leaf_calls (lookup_compare rq) xs ks) () False False"
  for rq :: "'c lookup_request"
proof (induction xs arbitrary: s ks)
  case Nil
  then show ?case using report_missing_does by simp
next
  case (Cons x xs)
  show ?case
  proof (cases "ks = []")
    case True
    then show ?thesis using Cons.prems by (cases x) (auto simp: lookup_does_returnE)
  next
    case False
    obtain cs r where step: "item_step (lookup_compare rq) (xs \<noteq> []) x ks = (cs, r)" by fastforce
    have "lookup_does rq (bindE (lookup_item rq (xs \<noteq> []) (fst x) (snd x) ks beyond)
        (\<lambda>ks'. bindE (lookup_kv rq (map Some xs) ks' beyond) (report_missing rq))) s
        (cs @ leaf_calls (lookup_compare rq) xs r) () False False"
    proof (rule lookup_does_bind [OF lookup_item_does [OF Cons.prems step]])
      fix h' and ctx :: 'c assume "calm h'" "reads (lk_handle s) h'"
      then show "lookup_does rq (bindE (lookup_kv rq (map Some xs) r beyond) (report_missing rq))
          \<lparr>lk_handle = h', lk_fold = False, lk_in_fold = False, lk_ctx = ctx\<rparr>
          (leaf_calls (lookup_compare rq) xs r) () False False"
        using lk_ready_reads by (intro Cons.IH) auto
    qed
    then show ?thesis using False step by (simp add: bindE_assoc split_beta)
  qed
qed

lemma read_node_does:
  assumes "lk_ready s" and "disk_compressed sn (content (lk_handle s)) pos = Some buf"
  shows "lookup_does rq (on_lk_handle (pread_compressed sn ops pos)) s [] buf (lk_fold s) (lk_in_fold s)"
proof -
  obtain h' where "pread_compressed sn ops pos (lk_handle s) = (Inr buf, h')" "calm h'" "reads (lk_handle s) h'"
    using assms(1) by (auto simp: lk_ready_def elim: pread_compressed_calm [OF _ _ assms(2)])
  then show ?thesis
    by (auto simp: lookup_does_def on_lk_handle_def zoomE_def intro!: exI [of _ h'])
qed

lemma lookup_kp_does:
  fixes rq :: "'c lookup_request"
  assumes "lr_node_callback rq = None"
    and "\<forall>pt\<in>set ts. ptr_fits (fst pt) \<and>
      (\<forall>s ks beyond. lk_ready s \<longrightarrow> content (lk_handle s) = c \<longrightarrow> \<not> lk_fold s \<longrightarrow> \<not> lk_in_fold s \<longrightarrow> ks \<noteq> [] \<longrightarrow>
        lookup_does rq (descend (np_pointer (fst pt)) ks beyond) s (tree_calls (lookup_compare rq) (snd pt) ks) () False False)"
    and "lk_ready s" and "content (lk_handle s) = c" and "\<not> lk_fold s" and "\<not> lk_in_fold s"
  shows "lookup_does rq (bindE (lookup_kp descend rq (map (\<lambda>pt. Some (ptr_item (fst pt))) ts) ks beyond) (report_missing rq)) s
      (kids_calls (lookup_compare rq) ts ks) () False False"
  using assms(2-)
proof (induction ts arbitrary: s ks)
  case Nil
  then show ?case using report_missing_does by simp
next
  case (Cons pt ts)
  obtain p t where pt: "pt = (p, t)" by fastforce
  have node: "node_callback rq n r = returnE ()" for n r by (simp add: node_callback_def assms(1))
  have IH: "lk_ready s \<Longrightarrow> content (lk_handle s) = c \<Longrightarrow> \<not> lk_fold s \<Longrightarrow> \<not> lk_in_fold s \<Longrightarrow>
      lookup_does rq (bindE (lookup_kp descend rq (map (\<lambda>pt. Some (ptr_item (fst pt))) ts) ks beyond) (report_missing rq)) s
      (kids_calls (lookup_compare rq) ts ks) () False False" for s ks
    using Cons.prems(1) by (intro Cons.IH) auto
  show ?case
  proof (cases ks)
    case Nil
    then show ?thesis using Cons.prems by (simp add: lookup_does_returnE)
  next
    case (Cons key more_keys)
    let ?seg = "key # takeWhile (\<lambda>k. 0 \<le> lookup_compare rq (np_key p) k) more_keys"
    let ?after = "dropWhile (\<lambda>k. 0 \<le> lookup_compare rq (np_key p) k) more_keys"
    show ?thesis
    proof (cases "0 \<le> lookup_compare rq (np_key p) key")
      case False
      then show ?thesis using IH Cons.prems Cons pt by (simp add: ptr_item_def)
    next
      case True
      let ?rest = "\<lambda>_. bindE (getE lk_in_fold) (\<lambda>in_fold. bindE (lookup_kp descend rq
          (map (\<lambda>pt. Some (ptr_item (fst pt))) ts) (if in_fold then ks else ?after) beyond) (report_missing rq))"
      have "lookup_does rq (bindE (descend (np_pointer p) ?seg (first_or beyond ?after)) ?rest) s
          (tree_calls (lookup_compare rq) t ?seg @ kids_calls (lookup_compare rq) ts ?after) () False False"
      proof (rule lookup_does_bind)
        show "lookup_does rq (descend (np_pointer p) ?seg (first_or beyond ?after)) s
            (tree_calls (lookup_compare rq) t ?seg) () False False"
          using Cons.prems pt by simp
        fix h' and ctx :: 'c assume h': "calm h'" "reads (lk_handle s) h'"
        let ?s' = "\<lparr>lk_handle = h', lk_fold = False, lk_in_fold = False, lk_ctx = ctx\<rparr>"
        show "lookup_does rq (?rest ()) ?s' (kids_calls (lookup_compare rq) ts ?after) () False False"
          by (rule lookup_does_bind_pure [where s' = ?s' and a = False])
            (use IH [of ?s' ?after] h' Cons.prems(3) lk_ready_reads [OF h', of False False ctx] in \<open>simp_all add: readsD\<close>)
      qed
      moreover have "bindE (lookup_kp descend rq (map (\<lambda>pt. Some (ptr_item (fst pt))) (pt # ts)) ks beyond) (report_missing rq) s =
          bindE (descend (np_pointer p) ?seg (first_or beyond ?after)) ?rest s"
        using True Cons Cons.prems pt by (cases s) (simp add: ptr_item_def node bindE_assoc Let_def cong: if_cong)
      ultimately show ?thesis
        by (rule lookup_does_transfer) (simp add: True Cons pt)
    qed
  qed
qed

lemma btree_lookup_inner_does:
  fixes rq :: "'c lookup_request"
  assumes "lr_node_callback rq = None"
  shows "on_disk sn c (unat pos) t \<Longrightarrow> height t < fuel \<Longrightarrow> lk_ready s \<Longrightarrow> content (lk_handle s) = c \<Longrightarrow>
    \<not> lk_fold s \<Longrightarrow> \<not> lk_in_fold s \<Longrightarrow> ks \<noteq> [] \<Longrightarrow>
    lookup_does rq (btree_lookup_inner fuel sn ops rq pos ks beyond) s
      (tree_calls (lookup_compare rq) t ks) () False False"
proof (induction fuel arbitrary: t pos s ks beyond)
  case (Suc fuel)
  have read: "lookup_does rq (on_lk_handle (pread_compressed sn ops (unat pos))) s [] buf False False"
    if "disk_compressed sn c (unat pos) = Some buf" for buf
    using read_node_does [OF Suc.prems(3), of sn "unat pos" buf rq] that Suc.prems(4-6) by simp
  note bind = lookup_does_bind [OF read, where cs' = "tree_calls (lookup_compare rq) t ks", simplified append_Nil]
  show ?case
  proof (cases t)
    case (KV xs)
    then have disk: "disk_compressed sn c (unat pos) = Some (1 # node_body xs)"
      and items: "kv_items (node_body xs) = map Some xs"
      using Suc.prems(1) by (simp_all add: kv_items_node_body)
    show ?thesis
      unfolding btree_lookup_inner.simps using Suc.prems(7)
      by (simp, intro bind [OF disk])
        (simp add: items KV lookup_kv_does lk_ready_reads)
  next
    case (KP ts)
    then have disk: "disk_compressed sn c (unat pos) =
        Some (0 # node_body (map (\<lambda>pt. ptr_item (fst pt)) ts))"
      and items: "kv_items (node_body (map (\<lambda>pt. ptr_item (fst pt)) ts)) = map (\<lambda>pt. Some (ptr_item (fst pt))) ts"
      using Suc.prems(1) by (auto simp: kv_items_node_body ptr_item_def)
    have kids: "\<forall>pt\<in>set ts. ptr_fits (fst pt) \<and>
      (\<forall>s ks beyond. lk_ready s \<longrightarrow> content (lk_handle s) = c \<longrightarrow> \<not> lk_fold s \<longrightarrow> \<not> lk_in_fold s \<longrightarrow> ks \<noteq> [] \<longrightarrow>
        lookup_does rq (btree_lookup_inner fuel sn ops rq (np_pointer (fst pt)) ks beyond) s
          (tree_calls (lookup_compare rq) (snd pt) ks) () False False)"
      using Suc.prems(1,2) KP height_child [of _ ts] by (fastforce intro!: Suc.IH)
    show ?thesis
      unfolding btree_lookup_inner.simps using Suc.prems(7)
      by (simp, intro bind [OF disk])
        (use Suc.prems(4) in \<open>simp add: items KP lookup_kp_does [OF assms kids] lk_ready_reads readsD\<close>)
  qed
qed simp

end

section \<open>What the calls say\<close>

text \<open>Every key gets one call, in order; a call that delivers a value delivers a matching item.\<close>

definition answers ::
  "(sized_buf \<Rightarrow> sized_buf \<Rightarrow> int) \<Rightarrow> (sized_buf \<times> sized_buf) list \<Rightarrow> callback_call \<Rightarrow> sized_buf \<Rightarrow> bool" where
  "answers lc xs c key \<longleftrightarrow> c = missing key \<or> (\<exists>x\<in>set xs. c = found x \<and> lc (fst x) key = 0)"

lemma answers_mono: "answers lc xs c key \<Longrightarrow> set xs \<subseteq> set ys \<Longrightarrow> answers lc ys c key"
  by (auto simp: answers_def)

lemma answers_intros [simp]:
  "answers lc xs (missing key) key"
  "x \<in> set xs \<Longrightarrow> lc (fst x) key = 0 \<Longrightarrow> answers lc xs (found x) key"
  by (auto simp: answers_def)

lemma answers_missing: "list_all2 (answers lc xs) (map missing ks) ks"
  by (auto simp: list_all2_conv_all_nth)

lemma item_step_answers:
  "item_step lc b x ks = (cs, r) \<Longrightarrow> \<exists>ds. ks = ds @ r \<and> list_all2 (answers lc [x]) cs ds"
proof (induction ks arbitrary: cs)
  case (Cons key ks)
  show ?case
  proof (cases "lc (fst x) key > 0 \<and> b")
    case True
    then obtain cs' where cs': "item_step lc b x ks = (cs', r)" "cs = missing key # cs'"
      using Cons.prems by (auto split: prod.splits)
    then obtain ds where "ks = ds @ r" "list_all2 (answers lc [x]) cs' ds" using Cons.IH by blast
    then show ?thesis using cs' by (auto intro!: exI [of _ "key # ds"])
  next
    case False
    then show ?thesis
      using Cons.prems by (auto split: if_splits intro: exI [of _ "[]"] exI [of _ "[key]"])
  qed
qed simp

lemma leaf_calls_answers: "list_all2 (answers lc xs) (leaf_calls lc xs ks) ks"
proof (induction xs arbitrary: ks)
  case (Cons x xs)
  obtain cs r where step: "item_step lc (xs \<noteq> []) x ks = (cs, r)" by fastforce
  obtain ds where "ks = ds @ r" "list_all2 (answers lc [x]) cs ds" using item_step_answers [OF step] by blast
  moreover have "list_all2 (answers lc (x # xs)) (leaf_calls lc xs r) r"
    using Cons.IH [of r] by (rule list_all2_mono) (rule answers_mono, auto)
  moreover have "list_all2 (answers lc (x # xs)) cs ds"
    using \<open>list_all2 (answers lc [x]) cs ds\<close> by (rule list_all2_mono) (rule answers_mono, auto)
  ultimately show ?case using step by (auto intro: list_all2_appendI)
qed (simp add: answers_missing)

lemma tree_calls_answers:
  "list_all2 (answers lc (items t)) (tree_calls lc t ks) ks"
  "list_all2 (answers lc (items (KP ts))) (kids_calls lc ts ks) ks"
proof (induction lc t ks and lc ts ks rule: tree_calls_kids_calls.induct)
  case (4 lc p t ts ks)
  show ?case
  proof (cases ks)
    case (Cons key more)
    let ?P = "\<lambda>k. 0 \<le> lc (np_key p) k"
    show ?thesis
    proof (cases "?P key")
      case True
      have "list_all2 (answers lc (items (KP ((p, t) # ts)))) (tree_calls lc t (key # takeWhile ?P more)) (key # takeWhile ?P more)"
        using 4(1) [OF Cons True] by (rule list_all2_mono) (rule answers_mono, auto)
      moreover have "list_all2 (answers lc (items (KP ((p, t) # ts)))) (kids_calls lc ts (dropWhile ?P more)) (dropWhile ?P more)"
        using 4(2) [OF Cons True] by (rule list_all2_mono) (rule answers_mono, auto)
      ultimately have "list_all2 (answers lc (items (KP ((p, t) # ts))))
          (tree_calls lc t (key # takeWhile ?P more) @ kids_calls lc ts (dropWhile ?P more))
          ((key # takeWhile ?P more) @ dropWhile ?P more)"
        by (rule list_all2_appendI)
      then show ?thesis using Cons True by simp
    next
      case False
      have "list_all2 (answers lc (items (KP ((p, t) # ts)))) (kids_calls lc ts ks) ks"
        using 4(3) [OF Cons False] by (rule list_all2_mono) (rule answers_mono, auto)
      then show ?thesis using Cons False by simp
    qed
  qed simp
qed (simp_all add: leaf_calls_answers answers_missing)

text \<open>If every key is there, every call delivers.\<close>

definition sorted_items :: "(sized_buf \<Rightarrow> sized_buf \<Rightarrow> int) \<Rightarrow> (sized_buf \<times> sized_buf) list \<Rightarrow> bool" where
  "sorted_items cmp xs \<longleftrightarrow> sorted_wrt (\<lambda>a b. cmp (fst a) (fst b) < 0) xs"

definition sorted_keys :: "(sized_buf \<Rightarrow> sized_buf \<Rightarrow> int) \<Rightarrow> sized_buf list \<Rightarrow> bool" where
  "sorted_keys cmp ks \<longleftrightarrow> sorted_wrt (\<lambda>a b. cmp a b < 0) ks"

definition has_key :: "(sized_buf \<Rightarrow> sized_buf \<Rightarrow> int) \<Rightarrow> (sized_buf \<times> sized_buf) list \<Rightarrow> sized_buf \<Rightarrow> bool" where
  "has_key cmp xs key \<longleftrightarrow> (\<exists>x\<in>set xs. cmp (fst x) key = 0)"

lemma sorted_Nil [simp]: "sorted_items cmp []" "sorted_keys cmp []"
  by (simp_all add: sorted_items_def sorted_keys_def)

lemma sorted_items_Cons [simp]:
  "sorted_items cmp (x # xs) \<longleftrightarrow> (\<forall>y\<in>set xs. cmp (fst x) (fst y) < 0) \<and> sorted_items cmp xs"
  by (simp add: sorted_items_def)

lemma sorted_items_append:
  "sorted_items cmp (xs @ ys) \<longleftrightarrow> sorted_items cmp xs \<and> sorted_items cmp ys \<and>
     (\<forall>x\<in>set xs. \<forall>y\<in>set ys. cmp (fst x) (fst y) < 0)"
  by (simp add: sorted_items_def sorted_wrt_append)

lemma sorted_keys_Cons [simp]:
  "sorted_keys cmp (x # xs) \<longleftrightarrow> (\<forall>y\<in>set xs. cmp x y < 0) \<and> sorted_keys cmp xs"
  by (simp add: sorted_keys_def)

lemma has_key_append [simp]: "has_key cmp (xs @ ys) key \<longleftrightarrow> has_key cmp xs key \<or> has_key cmp ys key"
  by (auto simp: has_key_def)

context key_order
begin

lemma sorted_items_last:
  assumes "sorted_items cmp xs" and "x \<in> set xs"
  shows "cmp (fst x) (fst (last xs)) \<le> 0"
proof -
  obtain ys where "xs = ys @ [last xs]" using assms(2) by (metis append_butlast_last_id length_pos_if_in_set less_numeral_extra(3) list.size(3))
  then have "x \<in> set ys \<or> x = last xs" "\<forall>y\<in>set ys. cmp (fst y) (fst (last xs)) < 0"
    using assms sorted_items_append [of cmp ys "[last xs]"] by (metis Un_iff insertE list.set(1) list.simps(15) set_append empty_iff, simp)
  then show ?thesis using cmp_self by fastforce
qed

lemma has_key_split:
  assumes "sorted_items cmp (xs @ ys)" and "xs \<noteq> []" and "has_key cmp (xs @ ys) k"
  shows "if 0 \<le> cmp (fst (last xs)) k then has_key cmp xs k else has_key cmp ys k"
proof -
  obtain x where x: "x \<in> set xs \<union> set ys" "cmp (fst x) k = 0" using assms(3) by (auto simp: has_key_def)
  have "cmp (fst (last xs)) k < 0" if "x \<in> set ys"
    using assms(1,2) that x(2) cmp_less_le_trans [of "fst (last xs)" "fst x" k] by (simp add: sorted_items_append)
  moreover have "0 \<le> cmp (fst (last xs)) k" if "x \<in> set xs"
    using sorted_items_last [of xs x] assms(1) that x(2) cmp_trans [of k "fst x" "fst (last xs)"]
      cmp_zero_sym [of "fst x" k] cmp_le_iff [of k "fst (last xs)"] by (simp add: sorted_items_append)
  ultimately show ?thesis using x by (auto simp: has_key_def)
qed

text \<open>\<open>agree lc xs ks\<close>: on these keys the lookup comparison is the tree's.\<close>

definition agree :: "(sized_buf \<Rightarrow> sized_buf \<Rightarrow> int) \<Rightarrow> (sized_buf \<times> sized_buf) list \<Rightarrow> sized_buf list \<Rightarrow> bool" where
  "agree lc xs ks \<longleftrightarrow> (\<forall>x\<in>set xs. \<forall>k\<in>set ks. lc (fst x) k = cmp (fst x) k)"

lemma agree_mono: "agree lc xs ks \<Longrightarrow> set ys \<subseteq> set xs \<Longrightarrow> set zs \<subseteq> set ks \<Longrightarrow> agree lc ys zs"
  by (auto simp: agree_def)

lemma leaf_calls_complete:
  "agree lc xs ks \<Longrightarrow> sorted_items cmp xs \<Longrightarrow> sorted_keys cmp ks \<Longrightarrow> \<forall>key\<in>set ks. has_key cmp xs key \<Longrightarrow>
     \<forall>c\<in>set (leaf_calls lc xs ks). snd c \<noteq> None"
proof (induction xs arbitrary: ks)
  case Nil
  then show ?case by (auto simp: has_key_def)
next
  case (Cons x xs)
  show ?case
  proof (cases ks)
    case (Cons key ks')
    have lc: "lc (fst x) key = cmp (fst x) key" using Cons.prems(1) Cons by (simp add: agree_def)
    have later: "has_key cmp xs key'" if "key' \<in> set ks" "cmp (fst x) key' < 0" for key'
      using Cons.prems(4) that by (auto simp: has_key_def)
    have IH: "set zs \<subseteq> set ks \<Longrightarrow> sorted_keys cmp zs \<Longrightarrow> \<forall>key\<in>set zs. has_key cmp xs key \<Longrightarrow>
        \<forall>c\<in>set (leaf_calls lc xs zs). snd c \<noteq> None" for zs
      using Cons.prems(1,2) by (intro Cons.IH) (auto elim: agree_mono)
    have sorted: "\<forall>k\<in>set ks'. cmp key k < 0" "sorted_keys cmp ks'" using Cons.prems(3) Cons by auto
    consider "cmp (fst x) key < 0" | "cmp (fst x) key = 0" | "0 < cmp (fst x) key" by linarith
    then show ?thesis
    proof cases
      case 1
      then have "cmp (fst x) k < 0" if "k \<in> set ks" for k
        using that sorted Cons cmp_less_trans [of "fst x" key k] by auto
      then have "\<forall>c\<in>set (leaf_calls lc xs ks). snd c \<noteq> None" using later Cons.prems(3) by (intro IH) auto
      then show ?thesis using 1 lc Cons by simp
    next
      case 2
      then have "cmp (fst x) k < 0" if "k \<in> set ks'" for k
        using that sorted cmp_le_less_trans [of "fst x" key k] by auto
      then have "\<forall>c\<in>set (leaf_calls lc xs ks'). snd c \<noteq> None" using later Cons sorted by (intro IH) auto
      then show ?thesis using 2 lc Cons by (simp add: found_def)
    next
      case 3
      have "has_key cmp ([x] @ xs) key" using Cons.prems(4) Cons by simp
      then have "has_key cmp [x] key" using has_key_split [of "[x]" xs key] Cons.prems(2) 3 by simp
      then show ?thesis using 3 by (simp add: has_key_def)
    qed
  qed simp
qed

lemma sorted_keys_dropWhile:
  "sorted_keys cmp ks \<Longrightarrow> k \<in> set (dropWhile (\<lambda>k. 0 \<le> cmp m k) ks) \<Longrightarrow> cmp m k < 0"
proof (induction ks)
  case (Cons a ks)
  then show ?case using cmp_less_trans [of m a k] by (auto split: if_splits)
qed simp

lemma sorted_keys_sub:
  "sorted_keys cmp ks \<Longrightarrow> sorted_keys cmp (takeWhile P ks)" "sorted_keys cmp ks \<Longrightarrow> sorted_keys cmp (dropWhile P ks)"
  by (simp_all add: sorted_keys_def sorted_wrt_takeWhile sorted_wrt_dropWhile)

lemma tree_calls_complete:
  "agree lc (items t) ks \<Longrightarrow> bt_wf t \<Longrightarrow> sorted_items cmp (items t) \<Longrightarrow> sorted_keys cmp ks \<Longrightarrow>
   \<forall>key\<in>set ks. has_key cmp (items t) key \<Longrightarrow> \<forall>c\<in>set (tree_calls lc t ks). snd c \<noteq> None"
  "agree lc (items (KP ts)) ks \<Longrightarrow> \<forall>pt\<in>set ts. bt_wf (snd pt) \<and> np_key (fst pt) = fst (last (items (snd pt))) \<Longrightarrow>
   sorted_items cmp (items (KP ts)) \<Longrightarrow> sorted_keys cmp ks \<Longrightarrow>
   \<forall>key\<in>set ks. has_key cmp (items (KP ts)) key \<Longrightarrow> \<forall>c\<in>set (kids_calls lc ts ks). snd c \<noteq> None"
proof (induction lc t ks and lc ts ks rule: tree_calls_kids_calls.induct)
  case (1 lc xs ks)
  then show ?case using leaf_calls_complete [of lc xs ks] by auto
next
  case (3 lc ks)
  then show ?case by (auto simp: has_key_def)
next
  case (4 lc p t ts ks)
  show ?case
  proof (cases ks)
    case (Cons key more)
    let ?P = "\<lambda>k. 0 \<le> lc (np_key p) k"
    have t: "bt_wf t" "np_key p = fst (last (items t))" "items t \<noteq> []"
      using 4(5) items_nonempty by auto
    have lc: "\<forall>k\<in>set ks. lc (np_key p) k = cmp (np_key p) k" using 4(4) t by (simp add: agree_def)
    have side: "if ?P k then has_key cmp (items t) k else has_key cmp (items (KP ts)) k" if "k \<in> set ks" for k
      using has_key_split [of "items t" "items (KP ts)" k] 4(6,8) t that lc by simp
    have sorted: "sorted_items cmp (items t)" "sorted_items cmp (items (KP ts))"
      using 4(6) by (auto simp: sorted_items_append)
    have below: "\<forall>c\<in>set (tree_calls lc t zs). snd c \<noteq> None"
      if "zs = key # takeWhile ?P more" "?P key" for zs
    proof -
      have zs: "set zs \<subseteq> set ks" "\<forall>k\<in>set zs. ?P k" using that Cons by (auto dest: set_takeWhileD)
      then have "agree lc (items t) zs" using 4(4) by (auto elim: agree_mono)
      moreover have "sorted_keys cmp zs"
        using 4(7) Cons that(1) by (auto simp: sorted_keys_sub dest: set_takeWhileD)
      moreover have "\<forall>k\<in>set zs. has_key cmp (items t) k" using side zs by fastforce
      ultimately show ?thesis using 4(1) [OF Cons that(2)] t(1) sorted(1) that(1) by blast
    qed
    have above: "agree lc (items (KP ts)) zs \<and> (\<forall>k\<in>set zs. has_key cmp (items (KP ts)) k)"
      if "set zs \<subseteq> set ks" "\<forall>k\<in>set zs. \<not> ?P k" for zs
      using 4(4) side that by (fastforce elim: agree_mono)
    show ?thesis
    proof (cases "?P key")
      case True
      let ?zs = "dropWhile ?P more"
      have "?zs = dropWhile (\<lambda>k. 0 \<le> cmp (np_key p) k) more" using lc Cons by (intro dropWhile_cong) auto
      then have "cmp (np_key p) k < 0" if "k \<in> set ?zs" for k
        using sorted_keys_dropWhile [of more k] 4(7) Cons that by simp
      moreover have sub: "set ?zs \<subseteq> set ks" using Cons by (auto dest: set_dropWhileD)
      ultimately have "\<forall>k\<in>set ?zs. \<not> ?P k" using lc by force
      note zs = above [OF sub this]
      have "\<forall>pt\<in>set ts. bt_wf (snd pt) \<and> np_key (fst pt) = fst (last (items (snd pt)))" "sorted_keys cmp ?zs"
        using 4(5,7) Cons by (simp_all add: sorted_keys_sub)
      from 4(2) [OF Cons True conjunct1 [OF zs] this(1) sorted(2) this(2) conjunct2 [OF zs]]
      have "\<forall>c\<in>set (kids_calls lc ts ?zs). snd c \<noteq> None" .
      then show ?thesis using below [OF refl True] Cons True by auto
    next
      case False
      have "\<not> ?P k" if "k \<in> set ks" for k
        using that False 4(7) Cons lc cmp_less_trans [of "np_key p" key k] by auto
      note zs = above [of ks, OF order_refl ballI [OF this]]
      have "\<forall>pt\<in>set ts. bt_wf (snd pt) \<and> np_key (fst pt) = fst (last (items (snd pt)))"
        using 4(5) by simp
      from 4(3) [OF Cons False conjunct1 [OF zs] this sorted(2) 4(7) conjunct2 [OF zs]]
      have "\<forall>c\<in>set (kids_calls lc ts ks). snd c \<noteq> None" .
      then show ?thesis using Cons False by simp
    qed
  qed simp
qed auto

end

section \<open>Folding over all items from a key on\<close>

fun fold_calls :: "(sized_buf \<Rightarrow> sized_buf \<Rightarrow> int) \<Rightarrow> sized_buf \<Rightarrow> btree \<Rightarrow> callback_call list" where
  "fold_calls lc low (KV xs) = map found (filter (\<lambda>x. 0 \<le> lc (fst x) low) xs)"
| "fold_calls lc low (KP ts) =
     concat (map (\<lambda>pt. if 0 \<le> lc (np_key (fst pt)) low then fold_calls lc low (snd pt) else []) ts)"

fun fold_hit :: "(sized_buf \<Rightarrow> sized_buf \<Rightarrow> int) \<Rightarrow> sized_buf \<Rightarrow> btree \<Rightarrow> bool" where
  "fold_hit lc low (KV xs) \<longleftrightarrow> (\<exists>x\<in>set xs. 0 \<le> lc (fst x) low)"
| "fold_hit lc low (KP ts) \<longleftrightarrow> (\<exists>pt\<in>set ts. 0 \<le> lc (np_key (fst pt)) low)"

context file_backend
begin

lemma fold_kv_does:
  fixes rq :: "'c lookup_request"
  shows "lk_ready s \<Longrightarrow> lk_fold s \<Longrightarrow>
     lookup_does rq (lookup_kv rq (map Some xs) [low] beyond) s
       (fold_calls (lookup_compare rq) low (KV xs)) [low] True
       (lk_in_fold s \<or> fold_hit (lookup_compare rq) low (KV xs))"
proof (induction xs arbitrary: s)
  case Nil
  then show ?case by (simp add: lookup_does_returnE)
next
  case (Cons x xs)
  let ?c = "0 \<le> lookup_compare rq (fst x) low"
  have "lookup_does rq (lookup_item rq (xs \<noteq> []) (fst x) (snd x) [low] beyond) s
      (if ?c then [found x] else []) [low] True (lk_in_fold s \<or> ?c)"
  proof (cases ?c)
    case True
    have "lookup_does rq (bindE (fetch_callback rq (Some (fst x)) (Some (snd x))) (\<lambda>_. returnE [low]))
        (s\<lparr>lk_in_fold := True\<rparr>) ([found x] @ []) [low] True True"
    proof (rule lookup_does_bind)
      show "lookup_does rq (fetch_callback rq (Some (fst x)) (Some (snd x))) (s\<lparr>lk_in_fold := True\<rparr>) [found x] () True True"
        using lookup_does_callback [of "s\<lparr>lk_in_fold := True\<rparr>" rq] Cons.prems by (simp add: found_def lk_ready_def)
    qed (simp add: lookup_does_returnE lk_ready_reads)
    moreover have "lookup_item rq (xs \<noteq> []) (fst x) (snd x) [low] beyond s =
        bindE (fetch_callback rq (Some (fst x)) (Some (snd x))) (\<lambda>_. returnE [low]) (s\<lparr>lk_in_fold := True\<rparr>)"
      using True Cons.prems by (cases s) (simp add: Let_def)
    ultimately show ?thesis by (rule lookup_does_start) (simp_all add: True)
  next
    case False
    then have "lookup_item rq (xs \<noteq> []) (fst x) (snd x) [low] beyond s = (Inr [low], s)"
      using Cons.prems by (cases s) (simp add: Let_def)
    then show ?thesis
      using False Cons.prems lookup_does_return [of s "lookup_item rq (xs \<noteq> []) (fst x) (snd x) [low] beyond" "[low]" s rq]
      by simp
  qed
  then have "lookup_does rq (bindE (lookup_item rq (xs \<noteq> []) (fst x) (snd x) [low] beyond)
        (\<lambda>ks'. lookup_kv rq (map Some xs) ks' beyond)) s
      ((if ?c then [found x] else []) @ fold_calls (lookup_compare rq) low (KV xs)) [low] True
      ((lk_in_fold s \<or> ?c) \<or> fold_hit (lookup_compare rq) low (KV xs))"
  proof (rule lookup_does_bind)
    fix h' and ctx :: 'c assume "calm h'" "reads (lk_handle s) h'"
    then show "lookup_does rq (lookup_kv rq (map Some xs) [low] beyond)
          \<lparr>lk_handle = h', lk_fold = True, lk_in_fold = lk_in_fold s \<or> ?c, lk_ctx = ctx\<rparr>
          (fold_calls (lookup_compare rq) low (KV xs)) [low] True
          ((lk_in_fold s \<or> ?c) \<or> fold_hit (lookup_compare rq) low (KV xs))"
      using Cons.IH [of "\<lparr>lk_handle = h', lk_fold = True, lk_in_fold = lk_in_fold s \<or> ?c, lk_ctx = ctx\<rparr>"]
      by (simp add: lk_ready_reads)
  qed
  then show ?case by (rule lookup_does_start) (cases x, auto)
qed

lemma report_missing_fold:
  "lk_ready s \<Longrightarrow> lk_fold s \<Longrightarrow> lk_in_fold s = i \<Longrightarrow> lookup_does rq (report_missing rq ks) s [] () True i"
  by (cases ks) (auto simp: lookup_does_returnE intro: lookup_does_bind_pure)

text \<open>What the recursive call has to do for every child of an inner node.\<close>

definition folds_child :: "byte list \<Rightarrow> 'c lookup_request \<Rightarrow> sized_buf \<Rightarrow>
    (u64 \<Rightarrow> sized_buf list \<Rightarrow> sized_buf option \<Rightarrow> (('h, 'c) lookup_state, unit) cmd) \<Rightarrow> node_pointer \<times> btree \<Rightarrow> bool" where
  "folds_child c rq low descend pt \<longleftrightarrow> ptr_fits (fst pt) \<and>
     (\<forall>s beyond. lk_ready s \<longrightarrow> content (lk_handle s) = c \<longrightarrow> lk_fold s \<longrightarrow>
        lookup_does rq (descend (np_pointer (fst pt)) [low] beyond) s
          (fold_calls (lookup_compare rq) low (snd pt)) () True
          (lk_in_fold s \<or> fold_hit (lookup_compare rq) low (snd pt)))"

lemma folds_childD:
  assumes "folds_child c rq low descend pt" and "lk_ready s" and "content (lk_handle s) = c" and "lk_fold s"
  shows "lookup_does rq (descend (np_pointer (fst pt)) [low] beyond) s
          (fold_calls (lookup_compare rq) low (snd pt)) () True
          (lk_in_fold s \<or> fold_hit (lookup_compare rq) low (snd pt))"
  using assms by (simp add: folds_child_def)

lemma fold_kp_does:
  fixes rq :: "'c lookup_request"
  assumes "lr_node_callback rq = None" and "\<forall>pt\<in>set ts. folds_child c rq low descend pt"
  shows "lk_ready s \<Longrightarrow> content (lk_handle s) = c \<Longrightarrow> lk_fold s \<Longrightarrow>
    lookup_does rq (lookup_kp descend rq (map (\<lambda>pt. Some (ptr_item (fst pt))) ts) [low] beyond) s
      (fold_calls (lookup_compare rq) low (KP ts)) [low] True
      (lk_in_fold s \<or> fold_hit (lookup_compare rq) low (KP ts))"
  using assms(2)
proof (induction ts arbitrary: s)
  case Nil
  then show ?case by (simp add: lookup_does_returnE)
next
  case (Cons pt ts)
  let ?rest = "lookup_kp descend rq (map (\<lambda>pt. Some (ptr_item (fst pt))) ts)"
  have node: "node_callback rq n r = returnE ()" for n r by (simp add: node_callback_def assms(1))
  show ?case
  proof (cases "0 \<le> lookup_compare rq (np_key (fst pt)) low")
    case False
    then show ?thesis using Cons by (simp add: ptr_item_def)
  next
    case True
    let ?s = "s\<lparr>lk_in_fold := True\<rparr>"
    have "lookup_does rq (bindE (descend (np_pointer (fst pt)) [low] beyond)
        (\<lambda>_. bindE (getE lk_in_fold) (\<lambda>in_fold. ?rest (if in_fold then [low] else []) beyond))) ?s
        (fold_calls (lookup_compare rq) low (snd pt) @ fold_calls (lookup_compare rq) low (KP ts)) [low] True True"
    proof (rule lookup_does_bind)
      show "lookup_does rq (descend (np_pointer (fst pt)) [low] beyond) ?s
          (fold_calls (lookup_compare rq) low (snd pt)) () True True"
        using folds_childD [of c rq low descend pt ?s beyond] Cons.prems by (simp add: lk_ready_def)
      fix h' and ctx :: 'c assume h': "calm h'" "reads (lk_handle ?s) h'"
      let ?s' = "\<lparr>lk_handle = h', lk_fold = True, lk_in_fold = True, lk_ctx = ctx\<rparr>"
      have "lookup_does rq (?rest [low] beyond) ?s' (fold_calls (lookup_compare rq) low (KP ts)) [low] True True"
        using Cons.IH [of ?s'] Cons.prems h' by (simp add: lk_ready_reads readsD)
      then show "lookup_does rq (bindE (getE lk_in_fold) (\<lambda>in_fold. ?rest (if in_fold then [low] else []) beyond)) ?s'
          (fold_calls (lookup_compare rq) low (KP ts)) [low] True True"
        by (intro lookup_does_bind_pure [where s' = ?s' and a = True]) simp_all
    qed
    then show ?thesis
      by (rule lookup_does_start)
        (use True Cons.prems in \<open>simp_all add: ptr_item_def node folds_child_def first_or_def cong: if_cong\<close>)
  qed
qed

lemma btree_fold_does:
  fixes rq :: "'c lookup_request"
  assumes "lr_node_callback rq = None"
  shows "on_disk sn c (unat pos) t \<Longrightarrow> height t < fuel \<Longrightarrow> lk_ready s \<Longrightarrow> content (lk_handle s) = c \<Longrightarrow> lk_fold s \<Longrightarrow>
    lookup_does rq (btree_lookup_inner fuel sn ops rq pos [low] beyond) s
      (fold_calls (lookup_compare rq) low t) () True (lk_in_fold s \<or> fold_hit (lookup_compare rq) low t)"
proof (induction fuel arbitrary: t pos s beyond)
  case (Suc fuel)
  let ?i = "lk_in_fold s \<or> fold_hit (lookup_compare rq) low t"
  have run: "lookup_does rq (btree_lookup_inner (Suc fuel) sn ops rq pos [low] beyond) s
      (fold_calls (lookup_compare rq) low t) () True ?i"
    if disk: "disk_compressed sn c (unat pos) = Some (n # body)"
      and loop: "\<And>s. lk_ready s \<Longrightarrow> content (lk_handle s) = c \<Longrightarrow> lk_fold s \<Longrightarrow>
        lookup_does rq (if n = 0 then lookup_kp (btree_lookup_inner fuel sn ops rq) rq (kv_items body) [low] beyond
          else if n = 1 then lookup_kv rq (kv_items body) [low] beyond else returnE [low]) s
          (fold_calls (lookup_compare rq) low t) [low] True (lk_in_fold s \<or> fold_hit (lookup_compare rq) low t)" for n body
  proof -
    have read: "lookup_does rq (on_lk_handle (pread_compressed sn ops (unat pos))) s [] (n # body) True (lk_in_fold s)"
      using read_node_does [OF Suc.prems(3), of sn "unat pos" "n # body" rq] disk Suc.prems(4,5) by simp
    have "lookup_does rq (bindE (if n = 0 then lookup_kp (btree_lookup_inner fuel sn ops rq) rq (kv_items body) [low] beyond
          else if n = 1 then lookup_kv rq (kv_items body) [low] beyond else returnE [low]) (report_missing rq))
        \<lparr>lk_handle = h', lk_fold = True, lk_in_fold = lk_in_fold s, lk_ctx = ctx\<rparr>
        (fold_calls (lookup_compare rq) low t @ []) () True ?i"
      if "calm h'" "reads (lk_handle s) h'" for h' ctx
      by (rule lookup_does_bind [where a = "[low]" and f = True and i = ?i])
        (use loop [of "\<lparr>lk_handle = h', lk_fold = True, lk_in_fold = lk_in_fold s, lk_ctx = ctx\<rparr>"] that Suc.prems(4)
         in \<open>simp_all add: lk_ready_reads readsD report_missing_fold del: report_missing.simps\<close>)
    then have "lookup_does rq (bindE (on_lk_handle (pread_compressed sn ops (unat pos))) (\<lambda>nodebuf.
        case nodebuf of [] \<Rightarrow> throwE InvalidAccess | n # body \<Rightarrow>
          bindE (if n = 0 then lookup_kp (btree_lookup_inner fuel sn ops rq) rq (kv_items body) [low] beyond
            else if n = 1 then lookup_kv rq (kv_items body) [low] beyond else returnE [low]) (report_missing rq))) s
        ([] @ fold_calls (lookup_compare rq) low t) () True ?i"
      by (intro lookup_does_bind [OF read]) simp
    then show ?thesis by (rule lookup_does_transfer) simp_all
  qed
  show ?case
  proof (cases t)
    case (KV xs)
    then have "disk_compressed sn c (unat pos) = Some (1 # node_body xs)" "kv_items (node_body xs) = map Some xs"
      using Suc.prems(1) by (simp_all add: kv_items_node_body)
    then show ?thesis using fold_kv_does KV by (intro run) auto
  next
    case (KP ts)
    then have "disk_compressed sn c (unat pos) = Some (0 # node_body (map (\<lambda>pt. ptr_item (fst pt)) ts))"
      and items: "kv_items (node_body (map (\<lambda>pt. ptr_item (fst pt)) ts)) = map (\<lambda>pt. Some (ptr_item (fst pt))) ts"
      using Suc.prems(1) by (auto simp: kv_items_node_body ptr_item_def)
    moreover have "\<forall>pt\<in>set ts. folds_child c rq low (btree_lookup_inner fuel sn ops rq) pt"
      using Suc.prems(1,2) KP height_child [of _ ts] by (fastforce simp: folds_child_def intro!: Suc.IH)
    ultimately show ?thesis using fold_kp_does [OF assms] KP by (intro run) (auto simp: items)
  qed
qed simp

end

context key_order
begin

definition upward :: "(sized_buf \<Rightarrow> sized_buf \<Rightarrow> int) \<Rightarrow> sized_buf \<Rightarrow> (sized_buf \<times> sized_buf) list \<Rightarrow> bool" where
  "upward lc low xs \<longleftrightarrow>
     (\<forall>x\<in>set xs. \<forall>y\<in>set xs. cmp (fst x) (fst y) \<le> 0 \<longrightarrow> 0 \<le> lc (fst x) low \<longrightarrow> 0 \<le> lc (fst y) low)"

lemma fold_calls_filter:
  "upward lc low (items t) \<Longrightarrow> bt_wf t \<Longrightarrow> sorted_items cmp (items t) \<Longrightarrow>
     fold_calls lc low t = map found (filter (\<lambda>x. 0 \<le> lc (fst x) low) (items t))"
proof (induction t rule: btree_induct)
  case (KP ts)
  have "(if 0 \<le> lc (np_key (fst pt)) low then fold_calls lc low (snd pt) else []) =
      map found (filter (\<lambda>x. 0 \<le> lc (fst x) low) (items (snd pt)))" if pt: "pt \<in> set ts" for pt
  proof -
    have sub: "set (items (snd pt)) \<subseteq> set (items (KP ts))" using pt by auto
    have wf: "bt_wf (snd pt)" "np_key (fst pt) = fst (last (items (snd pt)))" using KP.prems(2) pt by auto
    obtain us vs where "ts = us @ pt # vs" using pt by (metis split_list)
    then have sorted: "sorted_items cmp (items (snd pt))" using KP.prems(3) by (simp add: sorted_items_append)
    have IH: "fold_calls lc low (snd pt) = map found (filter (\<lambda>x. 0 \<le> lc (fst x) low) (items (snd pt)))"
      using KP.prems(1) sub wf(1) sorted pt by (intro KP.IH) (auto simp: upward_def dest!: subsetD)
    have "\<not> 0 \<le> lc (fst x) low" if "x \<in> set (items (snd pt))" "\<not> 0 \<le> lc (np_key (fst pt)) low" for x
      using KP.prems(1) [unfolded upward_def] that wf(2) subsetD [OF sub]
        sorted_items_last [OF sorted that(1)] last_in_set [OF items_nonempty [OF wf(1)]]
      by metis
    then show ?thesis using IH by (auto simp: filter_empty_conv)
  qed
  then show ?case by (simp add: map_concat filter_concat comp_def cong: map_cong)
qed simp

end

section \<open>Properties of lookups over the default file operations\<close>

lemma lookup_compare_key [simp]: "k \<noteq> [] \<Longrightarrow> key \<noteq> [] \<Longrightarrow> lookup_compare rq k key = lr_compare rq k key"
  by (simp add: lookup_compare_def)

lemma lookup_doesD:
  assumes "os.lookup_does rq m s cs () f i"
  obtains s' where "m s = (fst (run_calls rq cs (lk_ctx s)), s')"
    and "lk_ctx s' = snd (run_calls rq cs (lk_ctx s))"
proof -
  obtain r c where run: "run_calls rq cs (lk_ctx s) = (r, c)" by fastforce
  show ?thesis
    using assms that unfolding os.lookup_does_def run by (cases r) auto
qed

text \<open>
  C15. Looking up a sorted list of ids in a tree on disk. The effect of \<open>btree_lookup\<close> on the
  caller's state is that of one callback per key, in the order of the keys: either with an item
  of the tree whose key compares equal, or with no value; and when all the keys are in the tree, every
  one of them is delivered. For a single key this says that the lookup is exact. Enough fuel is
  one more than the height of the tree. A failing callback ends the lookup with its error.
\<close>

theorem btree_lookup_answers:
  assumes "key_order (lr_compare rq)" and "lr_node_callback rq = None"
    and "on_disk sn (os_content (lk_handle s)) (unat root) t" and "bt_wf t"
    and "sorted_items (lr_compare rq) (items t)" and "\<forall>x\<in>set (items t). fst x \<noteq> []"
    and "sorted_keys (lr_compare rq) (lr_keys rq)" and "height t < fuel"
    and "os_calm (lk_handle s)" and "\<not> lk_fold s"
  shows "\<exists>cs s'. btree_lookup fuel sn default_file_ops rq root s = (fst (run_calls rq cs (lk_ctx s)), s') \<and>
    lk_ctx s' = snd (run_calls rq cs (lk_ctx s)) \<and>
    list_all2 (answers (lookup_compare rq) (items t)) cs (lr_keys rq) \<and>
    ((\<forall>key\<in>set (lr_keys rq). has_key (lookup_compare rq) (items t) key) \<longrightarrow> (\<forall>c\<in>set cs. snd c \<noteq> None))"
proof -
  define cs where "cs = tree_calls (lookup_compare rq) t (lr_keys rq)"
  let ?s = "s\<lparr>lk_in_fold := False\<rparr>"
  have answers: "list_all2 (answers (lookup_compare rq) (items t)) cs (lr_keys rq)"
    unfolding cs_def by (rule tree_calls_answers(1))
  have complete: "\<forall>c\<in>set cs. snd c \<noteq> None"
    if present: "\<forall>key\<in>set (lr_keys rq). has_key (lookup_compare rq) (items t) key"
  proof -
    have nonempty: "key \<noteq> []" if "key \<in> set (lr_keys rq)" for key
      using present assms(6) that by (force simp: has_key_def lookup_compare_def)
    then have "key_order.agree (lr_compare rq) (lookup_compare rq) (items t) (lr_keys rq)"
      using assms(6) by (simp add: key_order.agree_def [OF assms(1)])
    moreover have "\<forall>key\<in>set (lr_keys rq). has_key (lr_compare rq) (items t) key"
      using present assms(6) nonempty by (fastforce simp: has_key_def)
    ultimately show ?thesis
      unfolding cs_def using key_order.tree_calls_complete(1) [OF assms(1) _ assms(4,5,7)] by blast
  qed
  have run: "btree_lookup fuel sn default_file_ops rq root s =
      btree_lookup_inner fuel sn default_file_ops rq root (lr_keys rq) None ?s"
    by (simp add: btree_lookup_def)
  show ?thesis
  proof (cases "lr_keys rq = []")
    case True
    then have "cs = []" using answers by simp
    then show ?thesis
      using run True assms(8) by (intro exI [of _ "[]"] exI [of _ ?s]) (cases fuel, simp_all)
  next
    case False
    have "os.lookup_does rq (btree_lookup_inner fuel sn default_file_ops rq root (lr_keys rq) None) ?s cs () False False"
      unfolding cs_def
      by (rule os.btree_lookup_inner_does [OF assms(2,3,8)]) (use assms(9,10) False in \<open>simp_all add: os.lk_ready_def\<close>)
    then obtain s' where "btree_lookup fuel sn default_file_ops rq root s = (fst (run_calls rq cs (lk_ctx s)), s')"
      "lk_ctx s' = snd (run_calls rq cs (lk_ctx s))"
      by (rule lookup_doesD) (simp add: run)
    then show ?thesis using answers complete by blast
  qed
qed

text \<open>
  C16. Folding over a tree: with one key and the fold flag set, \<open>btree_lookup\<close> makes one callback for
  every item of the tree whose key is at or above the given one, in key order, and no other (an
  empty key stands for the start of the tree).
\<close>

theorem btree_lookup_folds:
  assumes "key_order (lr_compare rq)" and "lr_node_callback rq = None" and "lr_keys rq = [low]"
    and "on_disk sn (os_content (lk_handle s)) (unat root) t" and "bt_wf t"
    and "sorted_items (lr_compare rq) (items t)" and "\<forall>x\<in>set (items t). fst x \<noteq> []"
    and "height t < fuel" and "os_calm (lk_handle s)" and "lk_fold s"
  defines "cs \<equiv> map found (filter (\<lambda>x. low = [] \<or> 0 \<le> lr_compare rq (fst x) low) (items t))"
  shows "\<exists>s'. btree_lookup fuel sn default_file_ops rq root s = (fst (run_calls rq cs (lk_ctx s)), s') \<and>
    lk_ctx s' = snd (run_calls rq cs (lk_ctx s))"
proof -
  let ?s = "s\<lparr>lk_in_fold := False\<rparr>"
  have at_or_above: "0 \<le> lookup_compare rq (fst x) low \<longleftrightarrow> low = [] \<or> 0 \<le> lr_compare rq (fst x) low"
    if "x \<in> set (items t)" for x
    using assms(7) that by (auto simp: lookup_compare_def)
  then have "key_order.upward (lr_compare rq) (lookup_compare rq) low (items t)"
    unfolding key_order.upward_def [OF assms(1)]
    using key_order.cmp_trans [OF assms(1)] key_order.cmp_le_iff [OF assms(1)] by metis
  then have "fold_calls (lookup_compare rq) low t = cs"
    using key_order.fold_calls_filter [OF assms(1) _ assms(5,6)] at_or_above
    by (simp add: cs_def cong: filter_cong)
  then have "os.lookup_does rq (btree_lookup_inner fuel sn default_file_ops rq root [low] None) ?s cs () True
      (lk_in_fold ?s \<or> fold_hit (lookup_compare rq) low t)"
    using os.btree_fold_does [OF assms(2,4,8), of ?s low None] assms(9,10) by (simp add: os.lk_ready_def)
  then obtain s' where "btree_lookup fuel sn default_file_ops rq root s = (fst (run_calls rq cs (lk_ctx s)), s')"
      "lk_ctx s' = snd (run_calls rq cs (lk_ctx s))"
    by (rule lookup_doesD) (simp add: btree_lookup_def assms(3))
  then show ?thesis by blast
qed

text \<open>
  C17. A key that is in the tree can be reported as missing. Let the last item of a leaf be the
  key \<open>k\<close>, and let the lookup ask for an absent key \<open>a\<close> between the two last items and then for
  \<open>k\<close>: the loop over the leaf ends when the last item has been read, before it is compared with
  \<open>k\<close>, and the callback is told that \<open>k\<close> does not exist.
\<close>

theorem btree_lookup_loses_last_key:
  assumes "on_disk sn (os_content (lk_handle s)) (unat root) (KV (xs @ [(k, v)]))"
    and "lr_node_callback rq = None" and "lr_keys rq = [a, k]" and "a \<noteq> []" and "k \<noteq> []"
    and "0 < lr_compare rq k a" and "\<forall>x\<in>set xs. fst x \<noteq> [] \<and> lr_compare rq (fst x) a < 0"
    and "os_calm (lk_handle s)" and "\<not> lk_fold s" and "0 < fuel"
  shows "\<exists>s'. btree_lookup fuel sn default_file_ops rq root s =
      (fst (run_calls rq [(Some a, None), (Some k, None)] (lk_ctx s)), s') \<and>
    lk_ctx s' = snd (run_calls rq [(Some a, None), (Some k, None)] (lk_ctx s))"
proof -
  let ?s = "s\<lparr>lk_in_fold := False\<rparr>"
  have "leaf_calls (lookup_compare rq) (xs @ [(k, v)]) [a, k] = [(Some a, None), (Some k, None)]"
    using assms(4-7) by (induction xs) (auto simp: missing_def)
  then have "os.lookup_does rq (btree_lookup_inner fuel sn default_file_ops rq root [a, k] None) ?s
      [(Some a, None), (Some k, None)] () False False"
    using os.btree_lookup_inner_does [OF assms(2,1), of fuel ?s "[a, k]" None] assms(8-10)
    by (simp add: os.lk_ready_def)
  then obtain s' where "btree_lookup fuel sn default_file_ops rq root s =
      (fst (run_calls rq [(Some a, None), (Some k, None)] (lk_ctx s)), s')"
      "lk_ctx s' = snd (run_calls rq [(Some a, None), (Some k, None)] (lk_ctx s))"
    by (rule lookup_doesD) (simp add: btree_lookup_def assms(3))
  then show ?thesis by blast
qed

section \<open>Witnesses\<close>

text \<open>A file that holds one leaf, a codec that stores its input, and a request that logs its calls.\<close>

definition plain_codec :: snappy where
  "plain_codec = \<lparr>sn_compress = (\<lambda>x. x), sn_length = (\<lambda>x. Some (length x)), sn_uncompress = Some\<rparr>"

definition leaf_file :: "(sized_buf \<times> sized_buf) list \<Rightarrow> os_file" where
  "leaf_file xs = \<lparr>os_content = write_at [] 0 (chunk_image 0 (1 # node_body xs)), os_synced = [],
     os_events = [], os_allocs = [], os_errinfo = 0\<rparr>"

definition logging_request :: "sized_buf list \<Rightarrow> callback_call list lookup_request" where
  "logging_request keys =
     \<lparr>lr_compare = ebin_cmp, lr_keys = keys,
      lr_fetch_callback = (\<lambda>k v. modifyE (\<lambda>log. log @ [(k, v)])), lr_node_callback = None\<rparr>"

lemma logging_request_simps [simp]:
  "lr_compare (logging_request keys) = ebin_cmp" "lr_keys (logging_request keys) = keys"
  "lr_node_callback (logging_request keys) = None"
  "lr_fetch_callback (logging_request keys) k v = modifyE (\<lambda>log. log @ [(k, v)])"
  by (simp_all add: logging_request_def)

lemma plain_codec_ok: "snappy_ok plain_codec"
  by (simp add: snappy_ok_def plain_codec_def)

lemma leaf_file_on_disk:
  "\<forall>x\<in>set xs. kv_fits (fst x) (snd x) \<Longrightarrow> length (node_body xs) < 2 ^ 31 - 1 \<Longrightarrow>
     on_disk plain_codec (os_content (leaf_file xs)) 0 (KV xs)"
  using disk_chunk_write_at [of "1 # node_body xs" "[]" 0]
  by (simp add: leaf_file_def disk_compressed_def plain_codec_def)

lemma run_calls_logging: "run_calls (logging_request keys) cs log = (Inr (), log @ cs)"
  by (induction cs arbitrary: log) simp_all

lemma leaf_file_calm: "os_calm (leaf_file xs)"
  by (simp add: leaf_file_def os_calm_def)

theorem btree_lookup_answers_witness:
  "\<exists>cs s'. btree_lookup 1 plain_codec default_file_ops (logging_request [[97], [99]]) 0
      \<lparr>lk_handle = leaf_file [([97], [1]), ([99], [2])], lk_fold = False, lk_in_fold = False, lk_ctx = []\<rparr> = (Inr (), s') \<and>
    lk_ctx s' = cs \<and> list_all2 (answers (lookup_compare (logging_request [[97], [99]])) [([97], [1]), ([99], [2])]) cs [[97], [99]] \<and>
    (\<forall>c\<in>set cs. snd c \<noteq> None)"
  using btree_lookup_answers [of "logging_request [[97], [99]]" plain_codec
      "\<lparr>lk_handle = leaf_file [([97], [1]), ([99], [2])], lk_fold = False, lk_in_fold = False, lk_ctx = []\<rparr>"
      0 "KV [([97], [1]), ([99], [2])]" 1]
    leaf_file_on_disk [of "[([97], [1]), ([99], [2])]"] ebin.key_order_axioms
  by (simp add: run_calls_logging leaf_file_calm kv_fits_def node_body_def has_key_def)

theorem btree_lookup_folds_witness:
  "\<exists>s'. btree_lookup 1 plain_codec default_file_ops (logging_request [[98]]) 0
      \<lparr>lk_handle = leaf_file [([97], [1]), ([99], [2])], lk_fold = True, lk_in_fold = False, lk_ctx = []\<rparr> = (Inr (), s') \<and>
    lk_ctx s' = [(Some [99], Some [2])]"
  using btree_lookup_folds [of "logging_request [[98]]" "[98]" plain_codec
      "\<lparr>lk_handle = leaf_file [([97], [1]), ([99], [2])], lk_fold = True, lk_in_fold = False, lk_ctx = []\<rparr>"
      0 "KV [([97], [1]), ([99], [2])]" 1]
    leaf_file_on_disk [of "[([97], [1]), ([99], [2])]"] ebin.key_order_axioms
  by (simp add: run_calls_logging leaf_file_calm kv_fits_def node_body_def found_def)

theorem btree_lookup_loses_last_key_witness:
  "\<exists>s'. btree_lookup 1 plain_codec default_file_ops (logging_request [[98], [99]]) 0
      \<lparr>lk_handle = leaf_file [([97], [1]), ([99], [2])], lk_fold = False, lk_in_fold = False, lk_ctx = []\<rparr> = (Inr (), s') \<and>
    lk_ctx s' = [(Some [98], None), (Some [99], None)]"
  using btree_lookup_loses_last_key [of plain_codec
      "\<lparr>lk_handle = leaf_file [([97], [1]), ([99], [2])], lk_fold = False, lk_in_fold = False, lk_ctx = []\<rparr>"
      0 "[([97], [1])]" "[99]" "[2]" "logging_request [[98], [99]]" "[98]" 1]
    leaf_file_on_disk [of "[([97], [1]), ([99], [2])]"]
  by (simp add: run_calls_logging leaf_file_calm kv_fits_def node_body_def)

end
