(* ===== verification/Btree_Build.thy ===== *)
theory Btree_Build
  imports Btree_Node
begin

text \<open>
  First half of \<^verbatim>\<open>couchstore/src/btree_modify.cc\<close>: a \<open>couchfile_modify_result\<close> collects the items of
  the node being built, writes nodes out when enough has been collected, and keeps the pointers
  to the nodes written; \<open>finish_root\<close> puts inner nodes on top until one pointer is left, and
  \<open>new_btree_modres\<close>/\<open>complete_new_btree\<close> build a tree from sorted items (the compactor's way).

  A linked \<open>nodelist\<close> without its sentinel is a list. The result that is being filled, the file,
  the \<open>enable_purging\<close> flag of the request and the state its callbacks share make up the state
  \<open>modify_state\<close>. Allocations, from the heap or from an arena, ask the environment
  (\<open>fo_malloc\<close>), so any of them may fail.

  \<open>mr_quota\<close> is a \<open>size_t\<close> and is subtracted from without a check: it is a 64-bit word.
\<close>

section \<open>Data\<close>

record nodelist =
  nl_data :: sized_buf
  nl_key :: sized_buf
  nl_pointer :: "node_pointer option"

datatype node_type = KP_NODE | KV_NODE

datatype modify_action =
    ACTION_FETCH sized_buf
  | ACTION_REMOVE sized_buf
  | ACTION_INSERT sized_buf sized_buf

datatype purge_action = PURGE_ITEM | PURGE_STOP | PURGE_KEEP | PURGE_PARTIAL

type_synonym reduce_fn = "nodelist list \<Rightarrow> nat \<Rightarrow> fault + sized_buf"

record 'c modify_request =
  rq_compare :: "sized_buf \<Rightarrow> sized_buf \<Rightarrow> int"
  rq_actions :: "modify_action list"
  rq_fetch_callback :: "(sized_buf \<Rightarrow> sized_buf option \<Rightarrow> 'c \<Rightarrow> 'c) option"
  rq_reduce :: "reduce_fn option"
  rq_rereduce :: "reduce_fn option"
  rq_purge_kp :: "(node_pointer \<Rightarrow> ('c, purge_action) cmd) option"
  rq_purge_kv :: "(sized_buf \<Rightarrow> sized_buf \<Rightarrow> ('c, purge_action) cmd) option"
  rq_compacting :: bool
  rq_kv_chunk_threshold :: nat
  rq_kp_chunk_threshold :: nat

record modify_result =
  mr_values :: "nodelist list"
  mr_node_len :: int
  mr_count :: int
  mr_pointers :: "nodelist list"
  mr_modified :: bool
  mr_node_type :: node_type

record ('h, 'c) modify_state =
  ms_file :: "'h tree_file"
  ms_purging :: bool
  ms_ctx :: 'c
  ms_res :: modify_result

definition DB_CHUNK_THRESHOLD :: nat where
  "DB_CHUNK_THRESHOLD = 1279"

definition MAX_REDUCTION_SIZE :: nat where
  "MAX_REDUCTION_SIZE = 2 ^ 16 - 1"

definition node_type_byte :: "node_type \<Rightarrow> byte" where
  "node_type_byte ty = (case ty of KP_NODE \<Rightarrow> 0 | KV_NODE \<Rightarrow> 1)"

section \<open>State access\<close>

definition on_file :: "('h tree_file, 'a) cmd \<Rightarrow> (('h, 'c) modify_state, 'a) cmd" where
  "on_file m = zoomE ms_file (\<lambda>f s. s\<lparr>ms_file := f\<rparr>) m"

definition on_mctx :: "('c, 'a) cmd \<Rightarrow> (('h, 'c) modify_state, 'a) cmd" where
  "on_mctx m = zoomE ms_ctx (\<lambda>c s. s\<lparr>ms_ctx := c\<rparr>) m"

definition modify_res :: "(modify_result \<Rightarrow> modify_result) \<Rightarrow> (('h, 'c) modify_state, unit) cmd" where
  "modify_res f = modifyE (\<lambda>s. s\<lparr>ms_res := f (ms_res s)\<rparr>)"

text \<open>An allocation whose failure is reported as \<open>ALLOC_FAIL\<close>.\<close>

definition allocE :: "'h couch_file_ops \<Rightarrow> (('h, 'c) modify_state, unit) cmd" where
  "allocE ops = bindE (on_file (on_handle (fo_malloc ops))) (\<lambda>ok. unlessE ok COUCHSTORE_ERROR_ALLOC_FAIL)"

text \<open>\<open>with_local r m\<close> runs \<open>m\<close> on a result of its own and hands it back; the caller's is kept.\<close>

definition with_local ::
  "modify_result \<Rightarrow> (('h, 'c) modify_state, unit) cmd \<Rightarrow> (('h, 'c) modify_state, modify_result) cmd" where
  "with_local r m = (\<lambda>s. case m (s\<lparr>ms_res := r\<rparr>) of (res, s') \<Rightarrow>
     (case res of Inl e \<Rightarrow> Inl e | Inr _ \<Rightarrow> Inr (ms_res s'), s'\<lparr>ms_res := ms_res s\<rparr>))"

section \<open>Results\<close>

definition empty_modres :: "node_type \<Rightarrow> modify_result" where
  "empty_modres ty = \<lparr>mr_values = [], mr_node_len = 0, mr_count = 0, mr_pointers = [],
     mr_modified = False, mr_node_type = ty\<rparr>"

text \<open>The three allocations of \<open>make_modres\<close>: the result and the two list heads.\<close>

definition make_modres :: "'h couch_file_ops \<Rightarrow> node_type \<Rightarrow> (('h, 'c) modify_state, modify_result) cmd" where
  "make_modres ops ty =
     bindE (allocE ops) (\<lambda>_. bindE (allocE ops) (\<lambda>_. bindE (allocE ops) (\<lambda>_. returnE (empty_modres ty))))"

definition item_size :: "nodelist \<Rightarrow> nat" where
  "item_size i = length (nl_key i) + length (nl_data i) + sizeof_raw_kv_length"

definition encode_pointer :: "node_pointer \<Rightarrow> nodelist" where
  "encode_pointer ptr = \<lparr>nl_data = raw_node_pointer ptr, nl_key = np_key ptr, nl_pointer = Some ptr\<rparr>"

section \<open>Writing nodes\<close>

text \<open>The items that go into the node, and those that stay: the loop over the values list.\<close>

fun flush_items :: "node_type \<Rightarrow> u64 \<Rightarrow> nat \<Rightarrow> nodelist list \<Rightarrow> nodelist list \<times> nodelist list" where
  "flush_items ty mr_quota itmcount [] = ([], [])"
| "flush_items ty mr_quota itmcount (i # is) =
     (if 0 < mr_quota \<or> (itmcount < 2 \<and> ty = KP_NODE)
      then case flush_items ty (mr_quota - word_of_nat (item_size i)) (Suc itmcount) is of
          (out, rest) \<Rightarrow> (i # out, rest)
      else ([], i # is))"

text \<open>The call of a reduce function; without one the reduction is empty.\<close>

definition call_reduce :: "reduce_fn option \<Rightarrow> reduce_fn" where
  "call_reduce f values itmcount = (case f of None \<Rightarrow> Inr [] | Some g \<Rightarrow> g values itmcount)"

definition reduce_node ::
  "'c modify_request \<Rightarrow> node_type \<Rightarrow> nodelist list \<Rightarrow> nat \<Rightarrow> (('h, 'c) modify_state, sized_buf) cmd" where
  "reduce_node rq ty values itmcount =
     (case call_reduce (case ty of KV_NODE \<Rightarrow> rq_reduce rq | KP_NODE \<Rightarrow> rq_rereduce rq) values itmcount of
        Inl e \<Rightarrow> throwE e
      | Inr r \<Rightarrow> if MAX_REDUCTION_SIZE < length r then throwE InvalidAccess else returnE r)"

definition pointer_subtreesize :: "nodelist \<Rightarrow> u64" where
  "pointer_subtreesize i = (case nl_pointer i of Some p \<Rightarrow> np_subtreesize p | None \<Rightarrow> 0)"

definition flush_mr_partial ::
  "snappy \<Rightarrow> 'h couch_file_ops \<Rightarrow> 'c modify_request \<Rightarrow> u64 \<Rightarrow> (('h, 'c) modify_state, unit) cmd" where
  "flush_mr_partial sn ops rq mr_quota =
     bindE (getE ms_res) (\<lambda>res.
       if mr_values res = [] \<or> \<not> mr_modified res then returnE ()
       else bindE (allocE ops) (\<lambda>_.
         case flush_items (mr_node_type res) mr_quota 0 (mr_values res) of (out, rest) \<Rightarrow>
           let nodebuf = node_type_byte (mr_node_type res)
                 # concat (map (\<lambda>i. write_kv (nl_key i) (nl_data i)) out);
               subtreesize = sum_list (map pointer_subtreesize out);
               final_key = (if out = [] then [] else nl_key (last out))
           in bindE (modify_res (mr_count_update (\<lambda>c. c - int (length out)))) (\<lambda>_.
             bindE (on_file (db_write_buf_compressed sn ops nodebuf)) (\<lambda>(diskpos, disk_size).
               bindE (reduce_node rq (mr_node_type res) (mr_values res) (length out)) (\<lambda>reducebuf.
                 bindE (allocE ops) (\<lambda>_.
                   let ptr = \<lparr>np_key = final_key, np_pointer = word_of_nat diskpos,
                              np_reduce_value = reducebuf,
                              np_subtreesize = subtreesize + word_of_nat disk_size\<rparr>
                   in bindE (allocE ops) (\<lambda>_.
                        modify_res (\<lambda>r. r\<lparr>mr_pointers := mr_pointers r @ [encode_pointer ptr],
                                         mr_node_len := mr_node_len r - int (length nodebuf - 1),
                                         mr_values := rest\<rparr>))))))))"

definition flush_mr ::
  "snappy \<Rightarrow> 'h couch_file_ops \<Rightarrow> 'c modify_request \<Rightarrow> (('h, 'c) modify_state, unit) cmd" where
  "flush_mr sn ops rq =
     bindE (getE ms_res) (\<lambda>res. flush_mr_partial sn ops rq (word_of_int (mr_node_len res)))"

definition maybe_flush ::
  "snappy \<Rightarrow> 'h couch_file_ops \<Rightarrow> 'c modify_request \<Rightarrow> (('h, 'c) modify_state, unit) cmd" where
  "maybe_flush sn ops rq =
     bindE (getE ms_res) (\<lambda>mr.
       if rq_compacting rq
       then if mr_modified mr \<and>
               (mr_node_type mr = KV_NODE \<and> int (rq_kv_chunk_threshold rq * 2 div 3) < mr_node_len mr \<or>
                mr_node_type mr = KP_NODE \<and> int (rq_kp_chunk_threshold rq * 2 div 3) < mr_node_len mr \<and>
                1 < mr_count mr)
            then flush_mr sn ops rq
            else returnE ()
       else if mr_modified mr \<and> 3 < mr_count mr
       then if mr_node_type mr = KV_NODE \<and> int (rq_kv_chunk_threshold rq) < mr_node_len mr
            then flush_mr_partial sn ops rq (word_of_nat (rq_kv_chunk_threshold rq * 2 div 3))
            else if mr_node_type mr = KP_NODE \<and> int (rq_kp_chunk_threshold rq) < mr_node_len mr
            then flush_mr_partial sn ops rq (word_of_nat (rq_kp_chunk_threshold rq * 2 div 3))
            else returnE ()
       else returnE ())"

section \<open>Filling a result\<close>

definition push_value :: "nodelist \<Rightarrow> modify_result \<Rightarrow> modify_result" where
  "push_value itm r = r\<lparr>mr_values := mr_values r @ [itm], mr_node_len := mr_node_len r + int (item_size itm),
     mr_count := mr_count r + 1\<rparr>"

definition mr_push_item ::
  "snappy \<Rightarrow> 'h couch_file_ops \<Rightarrow> 'c modify_request \<Rightarrow> sized_buf \<Rightarrow> sized_buf \<Rightarrow> (('h, 'c) modify_state, unit) cmd" where
  "mr_push_item sn ops rq k v =
     bindE (allocE ops) (\<lambda>_.
       bindE (modify_res (push_value \<lparr>nl_data = v, nl_key = k, nl_pointer = None\<rparr>)) (\<lambda>_.
         maybe_flush sn ops rq))"

definition mr_push_pointerinfo ::
  "snappy \<Rightarrow> 'h couch_file_ops \<Rightarrow> 'c modify_request \<Rightarrow> node_pointer \<Rightarrow> (('h, 'c) modify_state, unit) cmd" where
  "mr_push_pointerinfo sn ops rq ptr =
     bindE (allocE ops) (\<lambda>_.
       bindE (modify_res (push_value (encode_pointer ptr))) (\<lambda>_. maybe_flush sn ops rq))"

text \<open>Move the pointers of a finished result to the end of the current one's values. The result
  they come from is not used again but by \<open>finish_root\<close>, which gets its emptied list.\<close>

fun mr_move_pointers ::
  "snappy \<Rightarrow> 'h couch_file_ops \<Rightarrow> 'c modify_request \<Rightarrow> nodelist list \<Rightarrow> (('h, 'c) modify_state, unit) cmd" where
  "mr_move_pointers sn ops rq [] = returnE ()"
| "mr_move_pointers sn ops rq (ptr # ptrs) =
     bindE (modify_res (push_value ptr)) (\<lambda>_.
       bindE (maybe_flush sn ops rq) (\<lambda>_. mr_move_pointers sn ops rq ptrs))"

section \<open>Finishing a tree\<close>

text \<open>
  The endless loop of \<open>finish_root\<close>: \<open>ms_res\<close> is \<open>root_result\<close>, the argument is \<open>collector\<close>, and the
  two are swapped in every turn.
\<close>

fun finish_root_loop ::
  "nat \<Rightarrow> snappy \<Rightarrow> 'h couch_file_ops \<Rightarrow> 'c modify_request \<Rightarrow> modify_result \<Rightarrow>
   (('h, 'c) modify_state, node_pointer option) cmd" where
  "finish_root_loop 0 sn ops rq collector = throwE OutOfFuel"
| "finish_root_loop (Suc fuel) sn ops rq collector =
     bindE (getE ms_res) (\<lambda>root_result.
       if length (mr_pointers root_result) = 1
       then returnE (nl_pointer (hd (mr_pointers root_result)))
       else bindE (modify_res (\<lambda>_. collector)) (\<lambda>_.
         bindE (mr_move_pointers sn ops rq (mr_pointers root_result)) (\<lambda>_.
           bindE (flush_mr sn ops rq) (\<lambda>_.
             finish_root_loop fuel sn ops rq (root_result\<lparr>mr_pointers := []\<rparr>)))))"

definition finish_root ::
  "nat \<Rightarrow> snappy \<Rightarrow> 'h couch_file_ops \<Rightarrow> 'c modify_request \<Rightarrow> (('h, 'c) modify_state, node_pointer option) cmd" where
  "finish_root fuel sn ops rq =
     bindE (make_modres ops KP_NODE) (\<lambda>collector.
       bindE (ignoreE (flush_mr sn ops rq)) (\<lambda>_.
         finish_root_loop fuel sn ops rq (collector\<lparr>mr_modified := True\<rparr>)))"

definition last_pointer :: "nodelist list \<Rightarrow> node_pointer option" where
  "last_pointer values = (if values = [] then None else nl_pointer (last values))"

text \<open>Copying a pointer to the heap: \<open>None\<close> also when the allocation fails.\<close>

definition copy_node_pointer ::
  "'h couch_file_ops \<Rightarrow> node_pointer option \<Rightarrow> (('h, 'c) modify_state, node_pointer option) cmd" where
  "copy_node_pointer ops ptr =
     (case ptr of
        None \<Rightarrow> returnE None
      | Some p \<Rightarrow> bindE (on_file (on_handle (fo_malloc ops))) (\<lambda>ok. returnE (if ok then Some p else None)))"

text \<open>
  A new tree: \<open>new_btree_modres\<close> makes the result that items are pushed to, with a request of its
  own (the first allocation is not checked). \<open>complete_new_btree\<close> writes what is left and builds
  the inner nodes.
\<close>

definition new_btree_request ::
  "(sized_buf \<Rightarrow> sized_buf \<Rightarrow> int) \<Rightarrow> reduce_fn option \<Rightarrow> reduce_fn option \<Rightarrow> nat \<Rightarrow> nat \<Rightarrow> 'c modify_request" where
  "new_btree_request cmp reduce rereduce kv_chunk_threshold kp_chunk_threshold =
     \<lparr>rq_compare = cmp, rq_actions = [], rq_fetch_callback = None, rq_reduce = reduce,
      rq_rereduce = rereduce, rq_purge_kp = None, rq_purge_kv = None, rq_compacting = True,
      rq_kv_chunk_threshold = kv_chunk_threshold, rq_kp_chunk_threshold = kp_chunk_threshold\<rparr>"

definition new_btree_modres :: "'h couch_file_ops \<Rightarrow> (('h, 'c) modify_state, modify_result) cmd" where
  "new_btree_modres ops =
     bindE (on_file (on_handle (fo_malloc ops))) (\<lambda>ok.
       if \<not> ok then throwE InvalidAccess
       else bindE (make_modres ops KV_NODE) (\<lambda>mr. returnE (mr\<lparr>mr_modified := True\<rparr>)))"

definition complete_new_btree ::
  "nat \<Rightarrow> snappy \<Rightarrow> 'h couch_file_ops \<Rightarrow> 'c modify_request \<Rightarrow> (('h, 'c) modify_state, node_pointer option) cmd" where
  "complete_new_btree fuel sn ops rq =
     bindE (flush_mr sn ops rq) (\<lambda>_.
       bindE (getE ms_res) (\<lambda>mr.
         bindE (make_modres ops KP_NODE) (\<lambda>targ_mr.
           bindE (modify_res (\<lambda>_. targ_mr\<lparr>mr_modified := True\<rparr>)) (\<lambda>_.
             bindE (mr_move_pointers sn ops rq (mr_pointers mr)) (\<lambda>_.
               bindE (getE ms_res) (\<lambda>targ_mr.
                 bindE (if 1 < mr_count targ_mr \<or> mr_pointers targ_mr \<noteq> []
                        then finish_root fuel sn ops rq
                        else returnE (last_pointer (mr_values targ_mr))) (\<lambda>ret_ptr.
                   if ret_ptr = None then returnE None
                   else bindE (copy_node_pointer ops ret_ptr) (\<lambda>ret_ptr.
                     if ret_ptr = None then throwE (Err COUCHSTORE_ERROR_ALLOC_FAIL)
                     else returnE ret_ptr))))))))"

section \<open>The contract of the reduce functions\<close>

text \<open>
  \<open>reduction xs\<close> is the reduction of a tree with the items \<open>xs\<close>: the reduce function computes it from the
  items of a leaf, the rereduce function from the reductions of the children, for whatever part of
  the values list goes into the node.
\<close>

definition kv_node :: "sized_buf \<times> sized_buf \<Rightarrow> nodelist" where
  "kv_node x = \<lparr>nl_data = snd x, nl_key = fst x, nl_pointer = None\<rparr>"

locale reducer =
  fixes red rered :: "reduce_fn option"
    and item_ok :: "sized_buf \<times> sized_buf \<Rightarrow> bool"
    and reduction :: "(sized_buf \<times> sized_buf) list \<Rightarrow> sized_buf"
  assumes reduction_size: "length (reduction xs) < 2 ^ 16"
    and red_reduction: "\<forall>x\<in>set xs. item_ok x \<Longrightarrow> n \<le> length xs \<Longrightarrow>
      call_reduce red (map kv_node xs) n = Inr (reduction (take n xs))"
    and rered_reduction:
      "list_all2 (\<lambda>i ys. \<exists>p. nl_pointer i = Some p \<and> np_reduce_value p = reduction ys \<and> (\<forall>x\<in>set ys. item_ok x))
         is yss \<Longrightarrow> n \<le> length is \<Longrightarrow> call_reduce rered is n = Inr (reduction (concat (take n yss)))"

text \<open>Every pointer of the tree carries the reduction of its child.\<close>

fun reduce_wf :: "((sized_buf \<times> sized_buf) list \<Rightarrow> sized_buf) \<Rightarrow> btree \<Rightarrow> bool" where
  "reduce_wf reduction (KV xs) \<longleftrightarrow> True"
| "reduce_wf reduction (KP ts) \<longleftrightarrow>
     (\<forall>pt\<in>set ts. np_reduce_value (fst pt) = reduction (items (snd pt)) \<and> reduce_wf reduction (snd pt))"

text \<open>The pointer that a node stores: its position and size have 48 bits there.\<close>

definition stored :: "node_pointer \<Rightarrow> node_pointer" where
  "stored p = p\<lparr>np_pointer := take_bit 48 (np_pointer p), np_subtreesize := take_bit 48 (np_subtreesize p)\<rparr>"

lemma raw_node_pointer_stored [simp]: "raw_node_pointer (stored p) = raw_node_pointer p"
  by (simp add: raw_node_pointer_def stored_def)

lemma stored_simps [simp]:
  "np_key (stored p) = np_key p" "np_reduce_value (stored p) = np_reduce_value p"
  by (simp_all add: stored_def)

section \<open>What a result stands for\<close>

locale btree_builder = file_backend ops content cached inv calm + reducer red rered item_ok reduction
  for ops :: "'h couch_file_ops" and content cached inv calm red rered item_ok reduction
begin

text \<open>
  \<open>sub_tree lim sn f d p t\<close>: the pointer \<open>p\<close> leads to the tree \<open>t\<close> of depth \<open>d\<close> in the file \<open>f\<close>. The
  position is only meaningful while it fits in the 48 bits a node has for it, so the tree is
  claimed to be on disk under the condition that the file has not grown past \<open>lim\<close>.
\<close>

definition item_good :: "sized_buf \<times> sized_buf \<Rightarrow> bool" where
  "item_good x \<longleftrightarrow> item_ok x \<and> kv_fits (fst x) (snd x)"

definition sub_tree :: "nat \<Rightarrow> snappy \<Rightarrow> 'h tree_file \<Rightarrow> nat \<Rightarrow> node_pointer \<Rightarrow> btree \<Rightarrow> bool" where
  "sub_tree lim sn f d p t \<longleftrightarrow>
     (tf_pos f \<le> lim \<longrightarrow>
        unat (np_pointer p) < 2 ^ 48 \<and> on_disk sn (content (tf_handle f)) (unat (np_pointer p)) t) \<and>
     bt_wf t \<and> bt_balanced d t \<and> reduce_wf reduction t \<and> (\<forall>x\<in>set (items t). item_good x) \<and>
     np_reduce_value p = reduction (items t)"

text \<open>The element \<open>n\<close> of a node of depth \<open>d\<close> stands for the items \<open>ys\<close>: one item in a leaf, the items
  of a child in an inner node.\<close>

definition elem_ok :: "nat \<Rightarrow> snappy \<Rightarrow> 'h tree_file \<Rightarrow> node_type \<Rightarrow> nat \<Rightarrow> nodelist \<Rightarrow>
    (sized_buf \<times> sized_buf) list \<Rightarrow> bool" where
  "elem_ok lim sn f ty d n ys \<longleftrightarrow>
     (case ty of
        KV_NODE \<Rightarrow> d = 0 \<and> (\<exists>x. n = kv_node x \<and> ys = [x] \<and> item_good x)
      | KP_NODE \<Rightarrow> 0 < d \<and> (\<exists>p t. n = encode_pointer p \<and> ys = items t \<and>
          sub_tree lim sn f (d - 1) p t \<and> np_key p = fst (last (items t))))"

definition mr_ok :: "nat \<Rightarrow> snappy \<Rightarrow> 'h tree_file \<Rightarrow> modify_result \<Rightarrow> nat \<Rightarrow>
    (sized_buf \<times> sized_buf) list \<Rightarrow> bool" where
  "mr_ok lim sn f r d xs \<longleftrightarrow>
     (\<exists>yss zss. list_all2 (elem_ok lim sn f KP_NODE (Suc d)) (mr_pointers r) yss \<and>
        list_all2 (elem_ok lim sn f (mr_node_type r) d) (mr_values r) zss \<and> xs = concat yss @ concat zss) \<and>
     mr_node_len r = int (sum_list (map item_size (mr_values r))) \<and>
     mr_count r = int (length (mr_values r))"

lemma sub_tree_grown: "sub_tree lim sn f d p t \<Longrightarrow> grown f f' \<Longrightarrow> sub_tree lim sn f' d p t"
  by (auto simp: sub_tree_def grown_def intro: on_disk_mono)

lemma elem_ok_grown: "elem_ok lim sn f ty d n ys \<Longrightarrow> grown f f' \<Longrightarrow> elem_ok lim sn f' ty d n ys"
  by (cases ty) (auto simp: elem_ok_def intro: sub_tree_grown)

lemma elems_grown:
  "list_all2 (elem_ok lim sn f ty d) ns zss \<Longrightarrow> grown f f' \<Longrightarrow> list_all2 (elem_ok lim sn f' ty d) ns zss"
  by (erule list_all2_mono) (rule elem_ok_grown)

lemma mr_ok_grown: "mr_ok lim sn f r d xs \<Longrightarrow> grown f f' \<Longrightarrow> mr_ok lim sn f' r d xs"
  unfolding mr_ok_def by (blast intro: elems_grown)

lemma elem_ok_nonempty: "elem_ok lim sn f ty d n ys \<Longrightarrow> ys \<noteq> []"
  by (cases ty) (auto simp: elem_ok_def sub_tree_def dest: items_nonempty)

lemma elem_ok_good: "elem_ok lim sn f ty d n ys \<Longrightarrow> \<forall>x\<in>set ys. item_good x"
  by (cases ty) (auto simp: elem_ok_def sub_tree_def)

lemma elem_ok_key: "elem_ok lim sn f ty d n ys \<Longrightarrow> nl_key n = fst (last ys)"
  by (cases ty) (auto simp: elem_ok_def kv_node_def encode_pointer_def)

lemma elem_ok_fits: "elem_ok lim sn f ty d n ys \<Longrightarrow> kv_fits (nl_key n) (nl_data n)"
proof (cases ty)
  case KP_NODE
  assume e: "elem_ok lim sn f ty d n ys"
  have "last ys \<in> set ys" using elem_ok_nonempty [OF e] by simp
  then have "length (nl_key n) < 2 ^ 12"
    using elem_ok_good [OF e] elem_ok_key [OF e] by (auto simp: item_good_def kv_fits_def)
  moreover have "length (nl_data n) < 14 + 2 ^ 16"
    using e KP_NODE reduction_size by (auto simp: elem_ok_def encode_pointer_def sub_tree_def)
  ultimately show ?thesis by (simp add: kv_fits_def)
qed (auto simp: elem_ok_def kv_node_def item_good_def)

lemma elems_concat_ge: "list_all2 (elem_ok lim sn f ty d) ns zss \<Longrightarrow> length ns \<le> length (concat zss)"
proof (induction ns zss rule: list_all2_induct)
  case (Cons n ns ys zss)
  then show ?case using elem_ok_nonempty [OF Cons.hyps(1)] by (cases ys) auto
qed simp

lemma elems_last_key:
  assumes "list_all2 (elem_ok lim sn f ty d) ns zss" and "ns \<noteq> []"
  shows "nl_key (last ns) = fst (last (concat zss))"
  using assms
proof (induction ns zss rule: list_all2_induct)
  case (Cons n ns ys zss)
  show ?case
  proof (cases "ns = []")
    case True
    then show ?thesis using Cons elem_ok_key by fastforce
  next
    case False
    then have "concat zss \<noteq> []" using elems_concat_ge [OF Cons.hyps(2)] by (cases "concat zss") auto
    then show ?thesis using Cons False by simp
  qed
qed simp

text \<open>The tree that a written node is the root of.\<close>

lemma elems_tree:
  assumes "list_all2 (elem_ok lim sn f ty d) ns zss" and "ns \<noteq> []"
  obtains t where "items t = concat zss" and "bt_wf t" and "bt_balanced d t" and "reduce_wf reduction t"
    and "\<forall>f' pos. grown f f' \<longrightarrow> tf_pos f' \<le> lim \<longrightarrow>
      disk_compressed sn (content (tf_handle f')) pos =
        Some (node_type_byte ty # concat (map (\<lambda>i. write_kv (nl_key i) (nl_data i)) ns)) \<longrightarrow>
      on_disk sn (content (tf_handle f')) pos t"
proof (cases ty)
  case KV_NODE
  with assms(1) have "\<exists>xs. ns = map kv_node xs \<and> zss = map (\<lambda>x. [x]) xs \<and> (\<forall>x\<in>set xs. item_good x)"
  proof (induction ns zss rule: list_all2_induct)
    case (Cons n ns ys zss)
    then obtain x xs where "n = kv_node x" "ys = [x]" "item_good x" "ns = map kv_node xs"
        "zss = map (\<lambda>x. [x]) xs" "\<forall>x\<in>set xs. item_good x"
      by (auto simp: elem_ok_def)
    then show ?case by (intro exI [of _ "x # xs"]) simp
  qed simp
  then obtain xs where xs: "ns = map kv_node xs" "zss = map (\<lambda>x. [x]) xs" "\<forall>x\<in>set xs. item_good x" by blast
  have c: "concat zss = xs" unfolding xs by (induction xs) simp_all
  have w: "concat (map (\<lambda>i. write_kv (nl_key i) (nl_data i)) ns) = node_body xs"
    unfolding xs node_body_def by (simp add: kv_node_def comp_def case_prod_unfold)
  show ?thesis
  proof (rule that [of "KV xs"])
    show "bt_balanced d (KV xs)" using assms KV_NODE by (cases ns; cases zss) (auto simp: elem_ok_def)
    show "bt_wf (KV xs)" using xs assms(2) by simp
  qed (use xs c w KV_NODE in \<open>auto simp: node_type_byte_def item_good_def\<close>)
next
  case KP_NODE
  with assms(1) have "\<exists>pts. ns = map (\<lambda>pt. encode_pointer (fst pt)) pts \<and> zss = map (\<lambda>pt. items (snd pt)) pts \<and>
      (\<forall>pt\<in>set pts. sub_tree lim sn f (d - 1) (fst pt) (snd pt) \<and>
         np_key (fst pt) = fst (last (items (snd pt))))"
  proof (induction ns zss rule: list_all2_induct)
    case (Cons n ns ys zss)
    then obtain p t pts where "n = encode_pointer p" "ys = items t"
        "ns = map (\<lambda>pt. encode_pointer (fst pt)) pts" "zss = map (\<lambda>pt. items (snd pt)) pts"
        "sub_tree lim sn f (d - 1) p t" "np_key p = fst (last (items t))"
        "\<forall>pt\<in>set pts. sub_tree lim sn f (d - 1) (fst pt) (snd pt) \<and> np_key (fst pt) = fst (last (items (snd pt)))"
      by (auto simp: elem_ok_def)
    then show ?case by (intro exI [of _ "(p, t) # pts"]) simp
  qed simp
  then obtain pts where pts: "ns = map (\<lambda>pt. encode_pointer (fst pt)) pts" "zss = map (\<lambda>pt. items (snd pt)) pts"
      "\<forall>pt\<in>set pts. sub_tree lim sn f (d - 1) (fst pt) (snd pt) \<and> np_key (fst pt) = fst (last (items (snd pt)))"
    by blast
  let ?ts = "map (\<lambda>pt. (stored (fst pt), snd pt)) pts"
  have "0 < d" using assms KP_NODE by (cases ns; cases zss) (auto simp: elem_ok_def)
  have w: "concat (map (\<lambda>i. write_kv (nl_key i) (nl_data i)) ns) = node_body (map (\<lambda>pt. ptr_item (fst pt)) ?ts)"
    unfolding pts node_body_def by (simp add: encode_pointer_def ptr_item_def comp_def)
  have fits: "kv_fits (np_key (fst pt)) (raw_node_pointer (fst pt))" if "pt \<in> set pts" for pt
    using list_all2_nthD [OF assms(1)] that elem_ok_fits unfolding pts
    by (fastforce simp: encode_pointer_def in_set_conv_nth)
  show ?thesis
  proof (rule that [of "KP ?ts"], goal_cases)
    case 5
    show ?case
    proof (intro allI impI)
      fix f' pos
      assume g: "grown f f'" "tf_pos f' \<le> lim"
        and disk: "disk_compressed sn (content (tf_handle f')) pos =
          Some (node_type_byte ty # concat (map (\<lambda>i. write_kv (nl_key i) (nl_data i)) ns))"
      have "ptr_fits (stored (fst pt)) \<and> on_disk sn (content (tf_handle f')) (unat (np_pointer (stored (fst pt)))) (snd pt)"
        if "pt \<in> set pts" for pt
      proof -
        have st: "sub_tree lim sn f' (d - 1) (fst pt) (snd pt)"
          using pts(3) that sub_tree_grown g(1) by blast
        then have "length (np_reduce_value (fst pt)) < 2 ^ 16" using reduction_size by (simp add: sub_tree_def)
        then show ?thesis
          using st g(2) take_bit_nat_less_exp [of 48 "unat (np_subtreesize (fst pt))"] by (auto simp: sub_tree_def ptr_fits_def stored_def take_bit_word_id unsigned_take_bit_eq)
      qed
      then show "on_disk sn (content (tf_handle f')) pos (KP ?ts)" using disk w fits KP_NODE by (simp add: node_type_byte_def)
    qed
  qed (use pts assms(2) \<open>0 < d\<close> in \<open>auto simp: comp_def sub_tree_def\<close>)
qed

subsection \<open>Allocating\<close>

lemma allocE_calm:
  assumes "ready (ms_file s)" and "calm (tf_handle (ms_file s))"
  obtains f' where "allocE ops s = (Inr (), s\<lparr>ms_file := f'\<rparr>)" and "calm (tf_handle f')"
    and "grown (ms_file s) f'" and "tf_pos f' = tf_pos (ms_file s)"
proof -
  have "inv (tf_handle (ms_file s))" using assms(1) by (simp add: ready_def can_write_def)
  then obtain h where h: "fo_malloc ops (tf_handle (ms_file s)) = (Inr True, h)" "calm h"
      "reads (tf_handle (ms_file s)) h"
    using malloc_calm_reads assms(2) by blast
  show ?thesis
    by (rule that [of "(ms_file s)\<lparr>tf_handle := h\<rparr>"])
      (use h reads_grown [OF assms(1) h(3)] in
        \<open>simp_all add: allocE_def bindE_def on_file_def zoomE_def on_handle_app\<close>)
qed

subsection \<open>Writing a node\<close>

definition request_ok :: "'c modify_request \<Rightarrow> bool" where
  "request_ok rq \<longleftrightarrow> rq_reduce rq = red \<and> rq_rereduce rq = rered \<and>
     2 \<le> rq_kv_chunk_threshold rq \<and> rq_kv_chunk_threshold rq \<le> 2 ^ 20 \<and>
     2 \<le> rq_kp_chunk_threshold rq \<and> rq_kp_chunk_threshold rq \<le> 2 ^ 20"

text \<open>
  Why a node is short enough to be read back: either the file stays within 2 GB of where it
  started from, or this is the compactor, whose nodes are bounded.
\<close>

definition bounded_node :: "nat \<Rightarrow> nat \<Rightarrow> 'c modify_request \<Rightarrow> nat \<Rightarrow> modify_result \<Rightarrow> bool" where
  "bounded_node base lim rq B r \<longleftrightarrow>
     lim < base + 2 ^ 31 \<or> rq_compacting rq \<and> mr_modified r \<and> mr_node_len r \<le> int B"

definition building :: "'h tree_file \<Rightarrow> nat \<Rightarrow> nat \<Rightarrow> snappy \<Rightarrow> 'c modify_request \<Rightarrow> 'c \<Rightarrow> node_type \<Rightarrow> bool \<Rightarrow> nat \<Rightarrow>
    nat \<Rightarrow> (sized_buf \<times> sized_buf) list \<Rightarrow> ('h, 'c) modify_state \<Rightarrow> bool" where
  "building F base lim sn rq c ty md B d xs s \<longleftrightarrow>
     grown F (ms_file s) \<and> base \<le> tf_pos (ms_file s) \<and> calm (tf_handle (ms_file s)) \<and> ms_ctx s = c \<and> \<not> ms_purging s \<and>
     mr_node_type (ms_res s) = ty \<and> mr_modified (ms_res s) = md \<and>
     mr_ok lim sn (ms_file s) (ms_res s) d xs \<and> length xs < 2 ^ 31 \<and> bounded_node base lim rq B (ms_res s)"

definition weight :: "modify_result \<Rightarrow> nat" where
  "weight r = 2 * length (mr_pointers r) + length (mr_values r)"

lemma buildingD:
  assumes "building F base lim sn rq c ty md B d xs s"
  shows "grown F (ms_file s)" and "calm (tf_handle (ms_file s))" and "ready (ms_file s)"
    and "mr_ok lim sn (ms_file s) (ms_res s) d xs"
  using assms grown_ready by (auto simp: building_def)

lemma flush_items_append: "flush_items ty q k is = (out, rest) \<Longrightarrow> out @ rest = is"
  by (induction ty q k "is" arbitrary: out rest rule: flush_items.induct) (auto split: if_splits prod.splits)

lemma flush_items_first: "is \<noteq> [] \<Longrightarrow> 0 < q \<Longrightarrow> flush_items ty q k is = (out, rest) \<Longrightarrow> out \<noteq> []"
  by (cases "is") (auto split: prod.splits)

lemma flush_items_two:
  "flush_items KP_NODE q 0 is = (out, rest) \<Longrightarrow> min 2 (length is) \<le> length out"
  by (cases "is"; cases "tl is") (auto split: prod.splits if_splits simp: numeral_2_eq_2)

lemma item_size_pos: "0 < item_size i"
  by (simp add: item_size_def sizeof_raw_kv_length_def)

lemma flush_items_all:
  "sum_list (map item_size is) < 2 ^ 64 \<Longrightarrow>
     flush_items ty (word_of_nat (sum_list (map item_size is))) k is = (is, [])"
proof (induction "is" arbitrary: k)
  case (Cons i "is")
  let ?w = "sum_list (map item_size (i # is))"
  have "0 < (word_of_nat w :: u64)" if "0 < w" "w < 2 ^ 64" for w
    using that by (simp add: word_less_nat_alt unat_of_nat take_bit_nat_eq_self)
  from this [OF _ Cons.prems] have "0 < (word_of_nat ?w :: u64)" using item_size_pos [of i] by simp
  moreover have "(word_of_nat ?w :: u64) - word_of_nat (item_size i) = word_of_nat (sum_list (map item_size is))"
    by simp
  ultimately show ?case using Cons by (simp del: of_nat_add)
qed simp

lemma elems_kv: "list_all2 (elem_ok lim sn f KV_NODE d) ns zss \<Longrightarrow>
    ns = map kv_node (concat zss) \<and> (\<forall>x\<in>set (concat zss). item_ok x) \<and>
    (\<forall>k. concat (take k zss) = take k (concat zss))"
proof (induction ns zss rule: list_all2_induct)
  case (Cons n ns ys zss)
  then obtain x where "n = kv_node x" "ys = [x]" "item_good x" by (auto simp: elem_ok_def)
  then show ?case using Cons.IH by (auto simp: item_good_def take_Cons split: nat.split)
qed simp

lemma reduce_node_elems:
  assumes "list_all2 (elem_ok lim sn f ty d) ns zss" and "k \<le> length ns" and "request_ok rq"
  shows "reduce_node rq ty ns k = returnE (reduction (concat (take k zss)))"
proof -
  have "call_reduce (case ty of KV_NODE \<Rightarrow> red | KP_NODE \<Rightarrow> rered) ns k = Inr (reduction (concat (take k zss)))"
  proof (cases ty)
    case KV_NODE
    then have kv: "ns = map kv_node (concat zss)" "\<forall>x\<in>set (concat zss). item_ok x"
        "concat (take k zss) = take k (concat zss)"
      using elems_kv assms(1) by blast+
    then have "k \<le> length (concat zss)" using assms(2) by (metis length_map)
    then show ?thesis using red_reduction [OF kv(2), of k] kv(1,3) KV_NODE by simp
  next
    case KP_NODE
    then have "list_all2 (\<lambda>i ys. \<exists>p. nl_pointer i = Some p \<and> np_reduce_value p = reduction ys \<and>
        (\<forall>x\<in>set ys. item_ok x)) ns zss"
      using assms(1)
      by (auto simp: elem_ok_def sub_tree_def encode_pointer_def item_good_def elim!: list_all2_mono)
    then show ?thesis using rered_reduction assms(2) KP_NODE by simp
  qed
  moreover have "length (reduction (concat (take k zss))) \<le> MAX_REDUCTION_SIZE"
    using reduction_size [of "concat (take k zss)"] by (simp add: MAX_REDUCTION_SIZE_def)
  ultimately show ?thesis using assms(3)
    by (cases ty) (simp_all add: reduce_node_def request_ok_def)
qed

text \<open>The pointer to a written node stands for the items of its elements.\<close>

lemma written_elem_ok:
  assumes "list_all2 (elem_ok lim sn f ty d) out zss" and "out \<noteq> []" and "grown f f'" and "lim < 2 ^ 48"
    and "tf_pos f' \<le> lim \<Longrightarrow> disk_compressed sn (content (tf_handle f')) (tf_pos f) =
      Some (node_type_byte ty # concat (map (\<lambda>i. write_kv (nl_key i) (nl_data i)) out))"
  shows "elem_ok lim sn f' KP_NODE (Suc d)
    (encode_pointer \<lparr>np_key = nl_key (last out), np_pointer = word_of_nat (tf_pos f),
       np_reduce_value = reduction (concat zss), np_subtreesize = sz\<rparr>) (concat zss)"
proof -
  let ?p = "\<lparr>np_key = nl_key (last out), np_pointer = word_of_nat (tf_pos f),
       np_reduce_value = reduction (concat zss), np_subtreesize = sz\<rparr>"
  obtain t where t: "items t = concat zss" "bt_wf t" "bt_balanced d t" "reduce_wf reduction t"
      "\<forall>f' pos. grown f f' \<longrightarrow> tf_pos f' \<le> lim \<longrightarrow> disk_compressed sn (content (tf_handle f')) pos =
        Some (node_type_byte ty # concat (map (\<lambda>i. write_kv (nl_key i) (nl_data i)) out)) \<longrightarrow>
      on_disk sn (content (tf_handle f')) pos t"
    by (rule elems_tree [OF assms(1,2)])
  have "unat (word_of_nat (tf_pos f) :: u64) = tf_pos f \<and> tf_pos f < 2 ^ 48" if "tf_pos f' \<le> lim"
    using that assms(3,4) by (simp add: grown_def unat_of_nat take_bit_nat_eq_self)
  moreover have "\<forall>x\<in>set (concat zss). item_good x"
    using assms(1) elem_ok_good by (fastforce simp: list_all2_conv_all_nth in_set_conv_nth)
  ultimately have "sub_tree lim sn f' d ?p t"
    using t assms(3,5) by (auto simp: sub_tree_def)
  moreover have "np_key ?p = fst (last (items t))" using t(1) elems_last_key [OF assms(1,2)] by simp
  ultimately show ?thesis unfolding elem_ok_def using t(1) by force
qed

lemma length_node_image:
  "length (concat (map (\<lambda>i. write_kv (nl_key i) (nl_data i)) ns)) = sum_list (map item_size ns)"
  by (induction ns) (simp_all add: item_size_def sizeof_raw_kv_length_def)

lemma flush_mr_partial_calm:
  fixes rq :: "'c modify_request"
  assumes sn: "snappy_ok sn" and rq: "request_ok rq" and lim: "lim < 2 ^ 48" and B: "B \<le> 2 ^ 20 + 2 ^ 30"
    and b: "building F base lim sn rq c ty True B d xs s" and q: "0 < q" and vals: "mr_values (ms_res s) \<noteq> []"
    and fi: "flush_items ty q 0 (mr_values (ms_res s)) = (out, rest)"
  obtains s' pel where "flush_mr_partial sn ops rq q s = (Inr (), s')"
    and "building F base lim sn rq c ty True B d xs s'"
    and "mr_values (ms_res s') = rest" and "mr_pointers (ms_res s') = mr_pointers (ms_res s) @ [pel]"
proof -
  let ?f = "ms_file s" and ?r = "ms_res s"
  let ?buf = "node_type_byte ty # concat (map (\<lambda>i. write_kv (nl_key i) (nl_data i)) out)"
  have ty: "mr_node_type ?r = ty" "mr_modified ?r" using b by (simp_all add: building_def)
  obtain yss zss where ok: "list_all2 (elem_ok lim sn ?f KP_NODE (Suc d)) (mr_pointers ?r) yss"
      "list_all2 (elem_ok lim sn ?f ty d) (mr_values ?r) zss" "xs = concat yss @ concat zss"
    and len: "mr_node_len ?r = int (sum_list (map item_size (mr_values ?r)))" "mr_count ?r = int (length (mr_values ?r))"
    using buildingD(4) [OF b] ty by (auto simp: mr_ok_def)
  have vs: "mr_values ?r = out @ rest" using flush_items_append [OF fi] by simp
  have out: "out \<noteq> []" by (rule flush_items_first [OF vals q fi])
  obtain z1 z2 where z: "zss = z1 @ z2" "list_all2 (elem_ok lim sn ?f ty d) out z1"
      "list_all2 (elem_ok lim sn ?f ty d) rest z2"
    using ok(2) unfolding vs by (auto simp: list_all2_append1)
  have lz: "length z1 = length out" using z(2) by (simp add: list_all2_lengthD)
  obtain f1 where f1: "allocE ops s = (Inr (), s\<lparr>ms_file := f1\<rparr>)" "calm (tf_handle f1)" "grown ?f f1"
      "tf_pos f1 = tf_pos ?f"
    by (rule allocE_calm [OF buildingD(3,2) [OF b]])
  obtain n f2 where f2: "db_write_buf_compressed sn ops ?buf f1 = (Inr (tf_pos f1, n), f2)"
      "calm (tf_handle f2)" "grown f1 f2" "tf_pos f2 = tf_pos f1 + n"
      "length ?buf + length ?buf div 6 + 32 < 2 ^ 31 \<or> n < 2 ^ 31 \<longrightarrow>
        disk_compressed sn (content (tf_handle f2)) (tf_pos f1) = Some ?buf"
    by (rule db_write_buf_compressed_calm [OF sn grown_ready [OF f1(3)] f1(2)])
  define s2 where "s2 = s\<lparr>ms_res := mr_count_update (\<lambda>c. c - int (length out)) ?r, ms_file := f2\<rparr>"
  obtain f3 where f3: "allocE ops s2 = (Inr (), s2\<lparr>ms_file := f3\<rparr>)" "calm (tf_handle f3)" "grown f2 f3"
      "tf_pos f3 = tf_pos f2"
    using allocE_calm [of s2] grown_ready [OF f2(3)] f2(2) by (auto simp: s2_def)
  obtain f4 where f4: "allocE ops (s2\<lparr>ms_file := f3\<rparr>) = (Inr (), s2\<lparr>ms_file := f4\<rparr>)" "calm (tf_handle f4)"
      "grown f3 f4" "tf_pos f4 = tf_pos f3"
    using allocE_calm [of "s2\<lparr>ms_file := f3\<rparr>"] grown_ready [OF f3(3)] f3(2) by auto
  have g: "grown f1 f4" "grown ?f f4" using f1(3) f2(3) f3(3) f4(3) grown_trans by blast+
  have red: "reduce_node rq ty (mr_values ?r) (length out) t = (Inr (reduction (concat z1)), t)"
    for t :: "('h, 'c) modify_state"
    by (subst reduce_node_elems [OF ok(2) _ rq]) (simp_all add: vs z(1) lz)
  define ptr where "ptr = \<lparr>np_key = nl_key (last out), np_pointer = word_of_nat (tf_pos f1),
       np_reduce_value = reduction (concat z1),
       np_subtreesize = sum_list (map pointer_subtreesize out) + word_of_nat n\<rparr>"
  define r' where "r' = (mr_count_update (\<lambda>c. c - int (length out)) ?r)\<lparr>mr_pointers := mr_pointers ?r @ [encode_pointer ptr],
       mr_node_len := mr_node_len ?r - int (length ?buf - 1), mr_values := rest\<rparr>"
  have "disk_compressed sn (content (tf_handle f4)) (tf_pos f1) = Some ?buf" if le: "tf_pos f4 \<le> lim"
  proof -
    have "length ?buf + length ?buf div 6 + 32 < 2 ^ 31 \<or> n < 2 ^ 31"
    proof (cases "lim < base + 2 ^ 31")
      case True
      have "base \<le> tf_pos f1" using b f1(4) by (simp add: building_def)
      then show ?thesis using True le f2(4) f3(4) f4(4) by simp
    next
      case False
      then have "length ?buf \<le> Suc B"
        using b len(1) by (simp add: building_def bounded_node_def vs length_node_image)
      moreover have "k + k div 6 + 32 < 2 ^ 31" if "k \<le> Suc B" for k using that B by simp
      ultimately show ?thesis by blast
    qed
    then have "disk_compressed sn (content (tf_handle f2)) (tf_pos f1) = Some ?buf" using f2(5) by blast
    then show ?thesis using grown_compressed f3(3) f4(3) by blast
  qed
  from written_elem_ok [OF elems_grown [OF z(2) f1(3)] out g(1) lim this]
  have "elem_ok lim sn f4 KP_NODE (Suc d) (encode_pointer ptr) (concat z1)" by (simp add: ptr_def)
  then have "list_all2 (elem_ok lim sn f4 KP_NODE (Suc d)) (mr_pointers r') (yss @ [concat z1])"
      "list_all2 (elem_ok lim sn f4 ty d) (mr_values r') z2"
    using elems_grown [OF ok(1) g(2)] elems_grown [OF z(3) g(2)] by (auto simp: r'_def intro: list_all2_appendI)
  then have "mr_ok lim sn f4 r' d xs"
    unfolding mr_ok_def using ok(3) z(1) len ty
    by (intro conjI exI [of _ "yss @ [concat z1]"] exI [of _ z2])
      (simp_all add: r'_def vs length_node_image)
  then have "building F base lim sn rq c ty True B d xs (s\<lparr>ms_file := f4, ms_res := r'\<rparr>)"
    using b f4(2) grown_trans [OF buildingD(1) [OF b] g(2)]
    by (auto simp: building_def bounded_node_def r'_def f1(4) f2(4) f3(4) f4(4))
  moreover have "flush_mr_partial sn ops rq q s = (Inr (), s\<lparr>ms_file := f4, ms_res := r'\<rparr>)"
    using vals ty fi out red f1(1) f2(1) f3(1) f4(1)
    by (simp add: flush_mr_partial_def Let_def bindE_def on_file_def zoomE_def modify_res_def s2_def ptr_def r'_def)
  ultimately show ?thesis
    by (intro that [of "s\<lparr>ms_file := f4, ms_res := r'\<rparr>" "encode_pointer ptr"]) (simp_all add: r'_def)
qed

lemma elem_ok_size: "elem_ok lim sn f ty d n ys \<Longrightarrow> item_size n \<le> 2 ^ 29"
  using elem_ok_fits [of lim sn f ty d n ys] by (simp add: item_size_def kv_fits_def sizeof_raw_kv_length_def)

lemma elems_size:
  "list_all2 (elem_ok lim sn f ty d) ns zss \<Longrightarrow> sum_list (map item_size ns) \<le> length ns * 2 ^ 29"
proof (induction ns zss rule: list_all2_induct)
  case (Cons n ns ys zss)
  then show ?case using elem_ok_size [OF Cons.hyps(1)] by simp
qed simp

lemma building_sizes:
  assumes "building F base lim sn rq c ty md B d xs s"
  shows "sum_list (map item_size (mr_values (ms_res s))) \<le> length (mr_values (ms_res s)) * 2 ^ 29"
    and "length (mr_values (ms_res s)) < 2 ^ 31"
    and "mr_node_len (ms_res s) = int (sum_list (map item_size (mr_values (ms_res s))))"
    and "mr_count (ms_res s) = int (length (mr_values (ms_res s)))"
proof -
  obtain yss zss where zs: "list_all2 (elem_ok lim sn (ms_file s) (mr_node_type (ms_res s)) d) (mr_values (ms_res s)) zss"
      "xs = concat yss @ concat zss" "length xs < 2 ^ 31"
    and "mr_node_len (ms_res s) = int (sum_list (map item_size (mr_values (ms_res s))))"
      "mr_count (ms_res s) = int (length (mr_values (ms_res s)))"
    using assms by (auto simp: building_def mr_ok_def)
  moreover have "length (mr_values (ms_res s)) < 2 ^ 31" using elems_concat_ge [OF zs(1)] zs(2,3) by simp
  moreover note elems_size [OF zs(1)]
  ultimately show "sum_list (map item_size (mr_values (ms_res s))) \<le> length (mr_values (ms_res s)) * 2 ^ 29"
    and "length (mr_values (ms_res s)) < 2 ^ 31"
    and "mr_node_len (ms_res s) = int (sum_list (map item_size (mr_values (ms_res s))))"
    and "mr_count (ms_res s) = int (length (mr_values (ms_res s)))"
    by blast+
qed

lemma building_quota:
  assumes "building F base lim sn rq c ty md B d xs s"
  shows "flush_items ty' (word_of_int (mr_node_len (ms_res s))) k (mr_values (ms_res s)) = (mr_values (ms_res s), [])"
    and "mr_values (ms_res s) \<noteq> [] \<Longrightarrow> 0 < (word_of_int (mr_node_len (ms_res s)) :: u64)"
proof -
  note b = building_sizes [OF assms]
  have *: "sum_list (map item_size (mr_values (ms_res s))) < 2 ^ 64" using b(1,2) by simp
  then show "flush_items ty' (word_of_int (mr_node_len (ms_res s))) k (mr_values (ms_res s)) = (mr_values (ms_res s), [])"
    using flush_items_all [of "mr_values (ms_res s)"] by (simp add: b(3))
  assume ne: "mr_values (ms_res s) \<noteq> []"
  then have "0 < sum_list (map item_size (mr_values (ms_res s)))"
    using item_size_pos by (cases "mr_values (ms_res s)") simp_all
  then show "0 < (word_of_int (mr_node_len (ms_res s)) :: u64)"
    using * by (simp add: b(3) word_less_nat_alt unat_of_nat take_bit_nat_eq_self)
qed

text \<open>\<open>flush_mr\<close> writes everything.\<close>

lemma flush_mr_calm:
  assumes "snappy_ok sn" and "request_ok rq" and "lim < 2 ^ 48" and "B \<le> 2 ^ 20 + 2 ^ 30"
  shows "succeeds (\<lambda>s. building F base lim sn rq c ty True B d xs s \<and> weight (ms_res s) \<le> n)
    (flush_mr sn ops rq)
    (\<lambda>_ s. building F base lim sn rq c ty True B d xs s \<and> mr_values (ms_res s) = [] \<and>
       2 * length (mr_pointers (ms_res s)) \<le> Suc n)"
proof (rule succeedsI)
  fix s assume P: "building F base lim sn rq c ty True B d xs s \<and> weight (ms_res s) \<le> n"
  then have b: "building F base lim sn rq c ty True B d xs s" by simp
  let ?q = "word_of_int (mr_node_len (ms_res s)) :: u64"
  have run: "flush_mr sn ops rq s = flush_mr_partial sn ops rq ?q s" by (simp add: flush_mr_def)
  show "\<exists>a s'. flush_mr sn ops rq s = (Inr a, s') \<and> building F base lim sn rq c ty True B d xs s' \<and>
      mr_values (ms_res s') = [] \<and> 2 * length (mr_pointers (ms_res s')) \<le> Suc n"
  proof (cases "mr_values (ms_res s) = []")
    case True
    then show ?thesis using P by (auto simp: run flush_mr_partial_def weight_def)
  next
    case False
    obtain s' pel where "flush_mr_partial sn ops rq ?q s = (Inr (), s')" "building F base lim sn rq c ty True B d xs s'"
      "mr_values (ms_res s') = []" "mr_pointers (ms_res s') = mr_pointers (ms_res s) @ [pel]"
      by (rule flush_mr_partial_calm [OF assms b building_quota(2) [OF b False] False building_quota(1) [OF b]])
    moreover have "1 \<le> length (mr_values (ms_res s))" using False by (cases "mr_values (ms_res s)") simp_all
    ultimately show ?thesis using P by (auto simp: run weight_def)
  qed
qed

subsection \<open>Filling a node\<close>

definition filling :: "'h tree_file \<Rightarrow> nat \<Rightarrow> nat \<Rightarrow> snappy \<Rightarrow> 'c modify_request \<Rightarrow> 'c \<Rightarrow> node_type \<Rightarrow> bool \<Rightarrow> nat \<Rightarrow>
    nat \<Rightarrow> (sized_buf \<times> sized_buf) list \<Rightarrow> ('h, 'c) modify_state \<Rightarrow> bool" where
  "filling F base lim sn rq c ty md n d xs s \<longleftrightarrow>
     building F base lim sn rq c ty md (2 ^ 20 + 2 ^ 29) d xs s \<and> (ty = KP_NODE \<longrightarrow> weight (ms_res s) \<le> n)"

definition overfull :: "'h tree_file \<Rightarrow> nat \<Rightarrow> nat \<Rightarrow> snappy \<Rightarrow> 'c modify_request \<Rightarrow> 'c \<Rightarrow> node_type \<Rightarrow> bool \<Rightarrow> nat \<Rightarrow>
    nat \<Rightarrow> (sized_buf \<times> sized_buf) list \<Rightarrow> ('h, 'c) modify_state \<Rightarrow> bool" where
  "overfull F base lim sn rq c ty md n d xs s \<longleftrightarrow>
     building F base lim sn rq c ty md (2 ^ 20 + 2 ^ 30) d xs s \<and> (ty = KP_NODE \<longrightarrow> weight (ms_res s) \<le> n)"

lemma flush_step:
  assumes "snappy_ok sn" and "request_ok rq" and "lim < 2 ^ 48"
    and o: "overfull F base lim sn rq c ty True n d xs s" and q: "0 < q" and ne: "mr_values (ms_res s) \<noteq> []"
    and two: "ty = KP_NODE \<longrightarrow> 2 \<le> length (mr_values (ms_res s))"
  obtains s' where "flush_mr_partial sn ops rq q s = (Inr (), s')" and "overfull F base lim sn rq c ty True n d xs s'"
    and "mr_values (ms_res s') = snd (flush_items ty q 0 (mr_values (ms_res s)))"
proof -
  obtain out rest where fi: "flush_items ty q 0 (mr_values (ms_res s)) = (out, rest)" by fastforce
  have b: "building F base lim sn rq c ty True (2 ^ 20 + 2 ^ 30) d xs s" using o by (simp add: overfull_def)
  obtain s' pel where s': "flush_mr_partial sn ops rq q s = (Inr (), s')"
      "building F base lim sn rq c ty True (2 ^ 20 + 2 ^ 30) d xs s'"
      "mr_values (ms_res s') = rest" "mr_pointers (ms_res s') = mr_pointers (ms_res s) @ [pel]"
    by (rule flush_mr_partial_calm [OF assms(1-3) _ b q ne fi]) simp_all
  have "weight (ms_res s') \<le> weight (ms_res s)" if "ty = KP_NODE"
  proof -
    have "2 \<le> length out" using flush_items_two fi two that by fastforce
    moreover have "length (mr_values (ms_res s)) = length out + length rest"
      using flush_items_append [OF fi] by (metis length_append)
    ultimately show ?thesis using s'(3,4) by (simp add: weight_def)
  qed
  then show ?thesis
    using that [of s'] s' o fi by (auto simp: overfull_def intro: order_trans)
qed

lemma maybe_flush_calm:
  assumes "snappy_ok sn" and rq: "request_ok rq" and "lim < 2 ^ 48"
  shows "succeeds (overfull F base lim sn rq c ty md n d xs) (maybe_flush sn ops rq)
    (\<lambda>_. filling F base lim sn rq c ty md n d xs)"
proof (rule succeedsI)
  fix s assume o: "overfull F base lim sn rq c ty md n d xs s"
  let ?r = "ms_res s"
  have b: "building F base lim sn rq c ty md (2 ^ 20 + 2 ^ 30) d xs s" using o by (simp add: overfull_def)
  note sz = building_sizes [OF b]
  have st: "mr_modified ?r = md" "mr_node_type ?r = ty" using b by (simp_all add: building_def)
  have q: "0 < (word_of_nat (T * 2 div 3) :: u64)" if "2 \<le> T" "T \<le> 2 ^ 20" for T
    using that by (simp add: word_less_nat_alt unat_of_nat take_bit_nat_eq_self)
  have stop: "filling F base lim sn rq c ty md n d xs t"
    if "overfull F base lim sn rq c ty md n d xs t" "lim < base + 2 ^ 31 \<or> mr_values (ms_res t) = []" for t
    using that building_sizes(3) [of F base lim sn rq c ty md "2 ^ 20 + 2 ^ 30" d xs t]
    by (auto simp: overfull_def filling_def building_def bounded_node_def)
  have keep: "\<exists>a s'. (Inr (), s) = (Inr a, s') \<and> filling F base lim sn rq c ty md n d xs s'"
    if "lim < base + 2 ^ 31 \<or> mr_node_len ?r \<le> 2 ^ 20 + 2 ^ 29"
    using that o by (auto simp: overfull_def filling_def building_def bounded_node_def)
  show "\<exists>a s'. maybe_flush sn ops rq s = (Inr a, s') \<and> filling F base lim sn rq c ty md n d xs s'"
  proof (cases "rq_compacting rq")
    case comp: True
    show ?thesis
    proof (cases "md \<and> (ty = KV_NODE \<and> int (rq_kv_chunk_threshold rq * 2 div 3) < mr_node_len ?r \<or>
                ty = KP_NODE \<and> int (rq_kp_chunk_threshold rq * 2 div 3) < mr_node_len ?r \<and> 1 < mr_count ?r)")
      case True
      then have o': "overfull F base lim sn rq c ty True n d xs s" and ne: "mr_values ?r \<noteq> []"
        and two: "ty = KP_NODE \<longrightarrow> 2 \<le> length (mr_values ?r)"
        using o sz(3,4) by auto
      obtain s' where "flush_mr_partial sn ops rq (word_of_int (mr_node_len ?r)) s = (Inr (), s')"
          "overfull F base lim sn rq c ty True n d xs s'"
          "mr_values (ms_res s') = snd (flush_items ty (word_of_int (mr_node_len ?r)) 0 (mr_values ?r))"
        by (rule flush_step [OF assms o' building_quota(2) [OF b ne] ne two])
      then show ?thesis using True comp st stop [of s'] building_quota(1) [OF b]
        by (auto simp: maybe_flush_def flush_mr_def)
    next
      case False
      have "mr_node_len ?r \<le> 2 ^ 20 + 2 ^ 29" if "md"
      proof (cases "mr_count ?r \<le> 1")
        case True
        then have "length (mr_values ?r) * 2 ^ 29 \<le> 1 * 2 ^ 29" using sz(4) by (intro mult_le_mono1) simp
        then show ?thesis using sz(1,3) by simp
      next
        case False
        then show ?thesis
          using \<open>\<not> (md \<and> _)\<close> that rq by (cases ty) (auto simp: request_ok_def)
      qed
      moreover have "lim < base + 2 ^ 31 \<or> md" using b by (auto simp: building_def bounded_node_def)
      ultimately show ?thesis using False comp st keep by (auto simp: maybe_flush_def)
    qed
  next
    case False
    then have lm: "lim < base + 2 ^ 31" using b by (simp add: building_def bounded_node_def)
    have partial: "\<exists>a s'. flush_mr_partial sn ops rq (word_of_nat (T * 2 div 3)) s = (Inr a, s') \<and>
        filling F base lim sn rq c ty md n d xs s'" if "md" "3 < mr_count ?r" "2 \<le> T" "T \<le> 2 ^ 20" for T
    proof -
      have qT: "0 < (word_of_nat (T * 2 div 3) :: u64)" by (rule q [OF that(3,4)])
      have "overfull F base lim sn rq c ty True n d xs s" "mr_values ?r \<noteq> []" "2 \<le> length (mr_values ?r)"
        using o that sz(4) by auto
      then obtain s' where "flush_mr_partial sn ops rq (word_of_nat (T * 2 div 3)) s = (Inr (), s')"
          "overfull F base lim sn rq c ty True n d xs s'"
        using flush_step [OF assms _ qT] by blast
      then show ?thesis using stop [of s'] lm that(1) by auto
    qed
    show ?thesis
      using False st keep lm partial [of "rq_kv_chunk_threshold rq"] partial [of "rq_kp_chunk_threshold rq"] rq
      by (auto simp: maybe_flush_def request_ok_def)
  qed
qed

lemma filling_grown:
  assumes "filling F base lim sn rq c ty md n d xs s" and "grown (ms_file s) f'" and "calm (tf_handle f')"
  shows "filling F base lim sn rq c ty md n d xs (s\<lparr>ms_file := f'\<rparr>)"
  using assms grown_trans [of F "ms_file s" f']
  by (auto simp: filling_def building_def grown_def [of "ms_file s" f'] intro: mr_ok_grown)

lemma filling_snapshot: "filling F base lim sn rq c ty md n d xs s \<Longrightarrow> filling (ms_file s) base lim sn rq c ty md n d xs s"
  using buildingD(3) grown_refl by (fastforce simp: filling_def building_def)

lemma allocE_filling:
  "succeeds (filling F base lim sn rq c ty md n d xs) (allocE ops) (\<lambda>_. filling F base lim sn rq c ty md n d xs)"
proof (rule succeedsI)
  fix s assume f: "filling F base lim sn rq c ty md n d xs s"
  then have "ready (ms_file s)" "calm (tf_handle (ms_file s))"
    by (auto simp: filling_def dest: buildingD)
  then show "\<exists>a s'. allocE ops s = (Inr a, s') \<and> filling F base lim sn rq c ty md n d xs s'"
    using filling_grown [OF f] by (elim allocE_calm) auto
qed

text \<open>A new element at the end of the values.\<close>

lemma push_value_overfull:
  assumes f: "filling F base lim sn rq c ty md n d xs s" and e: "elem_ok lim sn (ms_file s) ty d itm ys"
    and len: "length xs + length ys < 2 ^ 31"
  shows "overfull F base lim sn rq c ty md (Suc n) d (xs @ ys) (s\<lparr>ms_res := push_value itm (ms_res s)\<rparr>)"
proof -
  let ?r = "ms_res s"
  have b: "building F base lim sn rq c ty md (2 ^ 20 + 2 ^ 29) d xs s" using f by (simp add: filling_def)
  obtain yss zss where ok: "list_all2 (elem_ok lim sn (ms_file s) KP_NODE (Suc d)) (mr_pointers ?r) yss"
      "list_all2 (elem_ok lim sn (ms_file s) ty d) (mr_values ?r) zss" "xs = concat yss @ concat zss"
    using b by (auto simp: building_def mr_ok_def)
  then have "list_all2 (elem_ok lim sn (ms_file s) ty d) (mr_values ?r @ [itm]) (zss @ [ys])"
    using e by (auto intro: list_all2_appendI)
  then have "mr_ok lim sn (ms_file s) (push_value itm ?r) d (xs @ ys)"
    unfolding mr_ok_def using b ok(1,3) building_sizes(3,4) [OF b]
    by (intro conjI exI [of _ yss] exI [of _ "zss @ [ys]"]) (simp_all add: push_value_def building_def)
  moreover have "bounded_node base lim rq (2 ^ 20 + 2 ^ 30) (push_value itm ?r)"
    using b elem_ok_size [OF e] by (auto simp: building_def bounded_node_def push_value_def)
  ultimately show ?thesis
    using f len by (simp add: overfull_def filling_def building_def weight_def push_value_def)
qed

lemma mr_push_item_calm:
  assumes "snappy_ok sn" and "request_ok rq" and "lim < 2 ^ 48" and "item_good x" and "length xs + 1 < 2 ^ 31"
  shows "succeeds (filling F base lim sn rq c KV_NODE md n 0 xs) (mr_push_item sn ops rq (fst x) (snd x))
    (\<lambda>_. filling F base lim sn rq c KV_NODE md (Suc n) 0 (xs @ [x]))"
  unfolding mr_push_item_def modify_res_def
proof (rule hoare_bindE [OF allocE_filling], rule hoare_bindE [OF hoare_modifyE maybe_flush_calm], goal_cases)
  case (1 a s)
  have "elem_ok lim sn (ms_file s) KV_NODE 0 (kv_node x) [x]"
    using assms(4) by (cases x) (auto simp: elem_ok_def)
  then show ?case
    using push_value_overfull [OF 1] assms(5) by (simp add: kv_node_def)
qed (use assms in simp_all)

lemma mr_push_pointerinfo_calm:
  assumes "snappy_ok sn" and "request_ok rq" and "lim < 2 ^ 48" and "0 < d"
    and "sub_tree lim sn F (d - 1) p t" and "np_key p = fst (last (items t))"
    and "length xs + length (items t) < 2 ^ 31"
  shows "succeeds (filling F base lim sn rq c KP_NODE md n d xs) (mr_push_pointerinfo sn ops rq p)
    (\<lambda>_. filling F base lim sn rq c KP_NODE md (Suc n) d (xs @ items t))"
  unfolding mr_push_pointerinfo_def modify_res_def
proof (rule hoare_bindE [OF allocE_filling], rule hoare_bindE [OF hoare_modifyE maybe_flush_calm], goal_cases)
  case (1 a s)
  then have "sub_tree lim sn (ms_file s) (d - 1) p t"
    using sub_tree_grown assms(5) by (auto simp: filling_def building_def)
  then show ?case
    using push_value_overfull [OF 1, of "encode_pointer p" "items t"] assms(4,6,7)
    by (auto simp: elem_ok_def)
qed (use assms in simp_all)

lemma mr_move_pointers_calm:
  fixes rq :: "'c modify_request"
  assumes "snappy_ok sn" and "request_ok rq" and "lim < 2 ^ 48"
    and "list_all2 (elem_ok lim sn F KP_NODE d) ptrs yss" and "length xs + length (concat yss) < 2 ^ 31"
  shows "succeeds (filling F base lim sn rq c KP_NODE md n d xs) (mr_move_pointers sn ops rq ptrs)
    (\<lambda>_. filling F base lim sn rq c KP_NODE md (n + length ptrs) d (xs @ concat yss))"
  using assms(4,5)
proof (induction ptrs yss arbitrary: n xs rule: list_all2_induct)
  case Nil
  then show ?case by (simp add: hoare_def)
next
  case (Cons p ps ys yss)
  have "succeeds (filling F base lim sn rq c KP_NODE md n d xs) (modify_res (push_value p))
      (\<lambda>_. overfull F base lim sn rq c KP_NODE md (Suc n) d (xs @ ys))"
    unfolding modify_res_def
  proof (rule hoare_modifyE)
    fix s :: "('h, 'c) modify_state" assume f: "filling F base lim sn rq c KP_NODE md n d xs s"
    then have "elem_ok lim sn (ms_file s) KP_NODE d p ys"
      using elem_ok_grown [OF Cons.hyps(1)] by (simp add: filling_def building_def)
    then show "overfull F base lim sn rq c KP_NODE md (Suc n) d (xs @ ys) (s\<lparr>ms_res := push_value p (ms_res s)\<rparr>)"
      using push_value_overfull [OF f] Cons.prems by simp
  qed
  moreover have "length (xs @ ys) + length (concat yss) < 2 ^ 31" using Cons.prems by simp
  from Cons.IH [OF this, of "Suc n"]
  have "succeeds (filling F base lim sn rq c KP_NODE md (Suc n) d (xs @ ys)) (mr_move_pointers sn ops rq ps)
      (\<lambda>_. filling F base lim sn rq c KP_NODE md (n + length (p # ps)) d (xs @ concat (ys # yss)))"
    by simp
  ultimately show ?case
    by (simp only: mr_move_pointers.simps) (rule hoare_bindE, assumption, rule hoare_bindE [OF maybe_flush_calm [OF assms(1-3)]])
qed

subsection \<open>Finishing a tree\<close>

definition clean_result :: "node_type \<Rightarrow> modify_result" where
  "clean_result ty = (empty_modres ty)\<lparr>mr_modified := True\<rparr>"

lemma clean_filling:
  assumes "building F base lim sn rq c ty True B d xs s"
  shows "filling (ms_file s) base lim sn rq c KP_NODE True 0 d' [] (s\<lparr>ms_res := clean_result KP_NODE\<rparr>)"
  using assms buildingD(3) [OF assms] grown_refl
  by (auto simp: filling_def building_def mr_ok_def bounded_node_def weight_def clean_result_def empty_modres_def)

text \<open>What a finished tree is: the root pointer and the tree it leads to.\<close>

definition finished :: "'h tree_file \<Rightarrow> nat \<Rightarrow> snappy \<Rightarrow> 'c \<Rightarrow> (sized_buf \<times> sized_buf) list \<Rightarrow>
    node_pointer option \<Rightarrow> ('h, 'c) modify_state \<Rightarrow> bool" where
  "finished F lim sn c xs root s \<longleftrightarrow>
     grown F (ms_file s) \<and> calm (tf_handle (ms_file s)) \<and> ms_ctx s = c \<and> \<not> ms_purging s \<and>
     (case root of
        None \<Rightarrow> xs = []
      | Some p \<Rightarrow> \<exists>d t. sub_tree lim sn (ms_file s) d p t \<and> items t = xs)"

lemma finished_mono: "finished G lim sn c xs root s \<Longrightarrow> grown F G \<Longrightarrow> finished F lim sn c xs root s"
  by (auto simp: finished_def intro: grown_trans)

lemma flushed_pointers:
  assumes "building F base lim sn rq c ty md B d xs s" and "mr_values (ms_res s) = []"
  obtains yss where "list_all2 (elem_ok lim sn (ms_file s) KP_NODE (Suc d)) (mr_pointers (ms_res s)) yss"
    and "xs = concat yss"
  using assms by (auto simp: building_def mr_ok_def)

lemma single_pointer:
  assumes "building F base lim sn rq c ty md B d xs s" and "mr_values (ms_res s) = []"
    and "mr_pointers (ms_res s) = [n]"
  shows "finished F lim sn c xs (nl_pointer n) s"
proof -
  obtain yss where "list_all2 (elem_ok lim sn (ms_file s) KP_NODE (Suc d)) [n] yss" "xs = concat yss"
    using flushed_pointers [OF assms(1,2)] assms(3) by metis
  then show ?thesis
    using assms(1)
    by (auto simp: list_all2_Cons1 elem_ok_def encode_pointer_def finished_def building_def) blast+
qed

text \<open>The number of pointers of a level is at most half that of the level below, rounded up.\<close>

lemma finish_root_loop_calm:
  assumes "snappy_ok sn" and "request_ok rq" and "lim < 2 ^ 48" and "B \<le> 2 ^ 20 + 2 ^ 30"
  shows "building F base lim sn rq c KP_NODE True B d xs s \<Longrightarrow> mr_values (ms_res s) = [] \<Longrightarrow>
    xs \<noteq> [] \<Longrightarrow> length (mr_pointers (ms_res s)) \<le> fuel \<Longrightarrow>
    \<exists>root s'. finish_root_loop fuel sn ops rq (clean_result KP_NODE) s = (Inr root, s') \<and>
      finished F lim sn c xs root s'"
  using assms(4)
proof (induction fuel arbitrary: F B d s)
  case 0
  then show ?case by (auto simp: elim: flushed_pointers)
next
  case (Suc fuel)
  let ?r = "ms_res s"
  obtain yss where yss: "list_all2 (elem_ok lim sn (ms_file s) KP_NODE (Suc d)) (mr_pointers ?r) yss" "xs = concat yss"
    by (rule flushed_pointers [OF Suc.prems(1,2)])
  show ?case
  proof (cases "length (mr_pointers ?r) = 1")
    case True
    then obtain n where "mr_pointers ?r = [n]" by (auto simp: length_Suc_conv)
    then show ?thesis using single_pointer [OF Suc.prems(1,2)] by auto
  next
    case False
    have "mr_pointers ?r \<noteq> []" using yss Suc.prems(3) by auto
    then have two: "2 \<le> length (mr_pointers ?r)" using False by (cases "mr_pointers ?r") (auto simp: Suc_le_eq)
    have old: "?r\<lparr>mr_pointers := []\<rparr> = clean_result KP_NODE"
      using Suc.prems(1,2) building_sizes(3,4) [OF Suc.prems(1)]
      by (cases ?r) (simp add: clean_result_def empty_modres_def building_def)
    have lx: "length ([] :: (sized_buf \<times> sized_buf) list) + length (concat yss) < 2 ^ 31"
      using Suc.prems(1) yss(2) by (simp add: building_def)
    obtain s1 where s1: "mr_move_pointers sn ops rq (mr_pointers ?r) (s\<lparr>ms_res := clean_result KP_NODE\<rparr>) = (Inr (), s1)"
        "filling (ms_file s) base lim sn rq c KP_NODE True (length (mr_pointers ?r)) (Suc d) xs s1"
      using succeedsE [OF mr_move_pointers_calm [OF assms(1-3) yss(1) lx] clean_filling [OF Suc.prems(1)]] yss(2)
      by auto
    have s1': "building (ms_file s) base lim sn rq c KP_NODE True (2 ^ 20 + 2 ^ 29) (Suc d) xs s1 \<and>
        weight (ms_res s1) \<le> length (mr_pointers ?r)" using s1(2) by (simp add: filling_def)
    obtain s2 where s2: "flush_mr sn ops rq s1 = (Inr (), s2)"
        "building (ms_file s) base lim sn rq c KP_NODE True (2 ^ 20 + 2 ^ 29) (Suc d) xs s2"
        "mr_values (ms_res s2) = []" "2 * length (mr_pointers (ms_res s2)) \<le> Suc (length (mr_pointers ?r))"
      using succeedsE [OF flush_mr_calm [OF assms(1-3)] s1'] by auto
    obtain root s' where "finish_root_loop fuel sn ops rq (clean_result KP_NODE) s2 = (Inr root, s')"
        "finished (ms_file s) lim sn c xs root s'"
      using Suc.IH [OF s2(2,3) Suc.prems(3)] s2(4) two Suc.prems(4) by auto
    then show ?thesis
      using s1(1) s2(1) False old finished_mono buildingD(1) [OF Suc.prems(1)]
      by (auto simp: bindE_def modify_res_def)
  qed
qed

lemma make_modres_filling:
  "succeeds (filling F base lim sn rq c ty md n d xs) (make_modres ops ty')
     (\<lambda>r s. filling F base lim sn rq c ty md n d xs s \<and> r = empty_modres ty')"
  unfolding make_modres_def
  by (rule hoare_bindE [OF allocE_filling])+ (simp add: hoare_def)

lemma finish_root_calm:
  assumes "snappy_ok sn" and "request_ok rq" and "lim < 2 ^ 48"
    and "filling F base lim sn rq c KP_NODE True n d xs s" and "xs \<noteq> []" and "length xs \<le> fuel"
  shows "\<exists>root s'. finish_root fuel sn ops rq s = (Inr root, s') \<and> finished F lim sn c xs root s'"
proof -
  obtain s1 where s1: "make_modres ops KP_NODE s = (Inr (empty_modres KP_NODE), s1)"
      "filling F base lim sn rq c KP_NODE True n d xs s1"
    using succeedsE [OF make_modres_filling assms(4)] by metis
  have b: "building F base lim sn rq c KP_NODE True (2 ^ 20 + 2 ^ 29) d xs s1 \<and> weight (ms_res s1) \<le> n"
    using s1(2) by (simp add: filling_def)
  obtain s2 where s2: "flush_mr sn ops rq s1 = (Inr (), s2)"
      "building F base lim sn rq c KP_NODE True (2 ^ 20 + 2 ^ 29) d xs s2" "mr_values (ms_res s2) = []"
    using succeedsE [OF flush_mr_calm [OF assms(1-3)] b] by auto
  obtain yss where "list_all2 (elem_ok lim sn (ms_file s2) KP_NODE (Suc d)) (mr_pointers (ms_res s2)) yss" "xs = concat yss"
    by (rule flushed_pointers [OF s2(2,3)])
  then have "length (mr_pointers (ms_res s2)) \<le> fuel" using elems_concat_ge assms(6) by fastforce
  then obtain root s' where "finish_root_loop fuel sn ops rq (clean_result KP_NODE) s2 = (Inr root, s')"
      "finished F lim sn c xs root s'"
    using finish_root_loop_calm [OF assms(1-3) _ s2(2,3) assms(5), of fuel] by auto
  then show ?thesis
    using s1(1) s2(1) by (simp add: finish_root_def bindE_def ignoreE_def clean_result_def)
qed

text \<open>The choice \<open>modify_btree\<close> and \<open>complete_new_btree\<close> make at the top.\<close>

lemma choose_root_calm:
  assumes "snappy_ok sn" and "request_ok rq" and "lim < 2 ^ 48"
    and f: "filling F base lim sn rq c KP_NODE True n d xs s" and "length xs \<le> fuel"
  shows "\<exists>root s'. (if 1 < mr_count (ms_res s) \<or> mr_pointers (ms_res s) \<noteq> [] then finish_root fuel sn ops rq
      else returnE (last_pointer (mr_values (ms_res s)))) s = (Inr root, s') \<and> finished F lim sn c xs root s'"
proof (cases "1 < mr_count (ms_res s) \<or> mr_pointers (ms_res s) \<noteq> []")
  case True
  have b: "building F base lim sn rq c KP_NODE True (2 ^ 20 + 2 ^ 29) d xs s" using f by (simp add: filling_def)
  obtain yss zss where ok: "list_all2 (elem_ok lim sn (ms_file s) KP_NODE (Suc d)) (mr_pointers (ms_res s)) yss"
      "list_all2 (elem_ok lim sn (ms_file s) KP_NODE d) (mr_values (ms_res s)) zss" "xs = concat yss @ concat zss"
    using b by (auto simp: building_def mr_ok_def)
  then have "xs \<noteq> []"
    using True elems_concat_ge [OF ok(1)] elems_concat_ge [OF ok(2)] building_sizes(4) [OF b]
    by (cases "concat yss"; cases "concat zss") (simp_all del: concat_eq_Nil_conv)
  then show ?thesis using True finish_root_calm [OF assms(1-4) _ assms(5)] by simp
next
  case False
  have b: "building F base lim sn rq c KP_NODE True (2 ^ 20 + 2 ^ 29) d xs s" using f by (simp add: filling_def)
  obtain zss where z: "list_all2 (elem_ok lim sn (ms_file s) KP_NODE d) (mr_values (ms_res s)) zss" "xs = concat zss"
    using b False by (auto simp: building_def mr_ok_def)
  have fin: "finished F lim sn c xs None s" if "xs = []" using b that by (simp add: finished_def building_def)
  show ?thesis
  proof (cases "mr_values (ms_res s)")
    case Nil
    then show ?thesis using False z fin by (simp add: last_pointer_def)
  next
    case (Cons v vs)
    then have "vs = []" using False building_sizes(4) [OF b] by simp
    then obtain p t where "v = encode_pointer p" "xs = items t" "sub_tree lim sn (ms_file s) (d - 1) p t"
      using z Cons by (auto simp: list_all2_Cons1 elem_ok_def)
    then have "finished F lim sn c xs (Some p) s" using b by (auto simp: finished_def building_def)
    then show ?thesis
      using False Cons \<open>vs = []\<close> \<open>v = encode_pointer p\<close> by (simp add: last_pointer_def encode_pointer_def)
  qed
qed

lemma copy_node_pointer_calm:
  assumes "finished F lim sn c xs root s"
  shows "\<exists>s'. copy_node_pointer ops root s = (Inr root, s') \<and> finished F lim sn c xs root s'"
proof (cases root)
  case None
  then show ?thesis using assms by (simp add: copy_node_pointer_def)
next
  case (Some p)
  have r: "ready (ms_file s)" using assms grown_ready by (auto simp: finished_def)
  then have "inv (tf_handle (ms_file s))" by (simp add: ready_def can_write_def)
  then obtain h where h: "fo_malloc ops (tf_handle (ms_file s)) = (Inr True, h)" "calm h"
      "reads (tf_handle (ms_file s)) h"
    using malloc_calm_reads assms by (auto simp: finished_def)
  define f' where "f' = (ms_file s)\<lparr>tf_handle := h\<rparr>"
  have g: "grown (ms_file s) f'" using reads_grown [OF r h(3)] by (simp add: f'_def)
  then have "finished F lim sn c xs root (s\<lparr>ms_file := f'\<rparr>)"
    using assms h(2) Some grown_trans [of F "ms_file s" f'] sub_tree_grown [OF _ g]
    by (auto simp: finished_def f'_def) blast
  then show ?thesis
    using h(1) Some by (auto simp: copy_node_pointer_def bindE_def on_file_def zoomE_def on_handle_app f'_def)
qed

lemma complete_new_btree_calm:
  assumes "snappy_ok sn" and "request_ok rq" and "lim < 2 ^ 48"
    and f: "filling F base lim sn rq c KV_NODE True n 0 xs s" and "length xs \<le> fuel"
  shows "\<exists>root s'. complete_new_btree fuel sn ops rq s = (Inr root, s') \<and> finished F lim sn c xs root s'"
proof -
  have b: "building F base lim sn rq c KV_NODE True (2 ^ 20 + 2 ^ 29) 0 xs s \<and> weight (ms_res s) \<le> weight (ms_res s)"
    using f by (simp add: filling_def)
  obtain s1 where s1: "flush_mr sn ops rq s = (Inr (), s1)"
      "building F base lim sn rq c KV_NODE True (2 ^ 20 + 2 ^ 29) 0 xs s1" "mr_values (ms_res s1) = []"
    using succeedsE [OF flush_mr_calm [OF assms(1-3)] b] by auto
  obtain s2 where s2: "make_modres ops KP_NODE s1 = (Inr (empty_modres KP_NODE), s2)"
      "filling F base lim sn rq c KV_NODE True 0 0 xs s2"
    using succeedsE [OF make_modres_filling [of F base lim sn rq c KV_NODE True 0 0 xs KP_NODE], of s1] s1(2)
    by (auto simp: filling_def)
  have "ms_res s2 = ms_res s1" using s2(1)
    by (auto simp: make_modres_def allocE_def bindE_def on_file_def zoomE_def unlessE_def
        split: prod.splits sum.splits if_splits)
  then have b2: "building F base lim sn rq c KV_NODE True (2 ^ 20 + 2 ^ 29) 0 xs s2" "mr_values (ms_res s2) = []"
    using s2(2) s1(3) by (simp_all add: filling_def)
  obtain yss where yss: "list_all2 (elem_ok lim sn (ms_file s2) KP_NODE (Suc 0)) (mr_pointers (ms_res s2)) yss"
      "xs = concat yss"
    by (rule flushed_pointers [OF b2])
  have lx: "length ([] :: (sized_buf \<times> sized_buf) list) + length (concat yss) < 2 ^ 31"
    using b2(1) yss(2) by (simp add: building_def)
  obtain s3 where s3: "mr_move_pointers sn ops rq (mr_pointers (ms_res s1)) (s2\<lparr>ms_res := clean_result KP_NODE\<rparr>) = (Inr (), s3)"
      "filling (ms_file s2) base lim sn rq c KP_NODE True (length (mr_pointers (ms_res s2))) (Suc 0) xs s3"
    using succeedsE [OF mr_move_pointers_calm [OF assms(1-3) yss(1) lx] clean_filling [OF b2(1)]] yss(2)
      \<open>ms_res s2 = ms_res s1\<close> by auto
  obtain root s4 where s4: "(if 1 < mr_count (ms_res s3) \<or> mr_pointers (ms_res s3) \<noteq> [] then finish_root fuel sn ops rq
      else returnE (last_pointer (mr_values (ms_res s3)))) s3 = (Inr root, s4)"
      "finished (ms_file s2) lim sn c xs root s4"
    using choose_root_calm [OF assms(1-3) s3(2) assms(5)] by blast
  obtain s5 where s5: "copy_node_pointer ops root s4 = (Inr root, s5)" "finished (ms_file s2) lim sn c xs root s5"
    using copy_node_pointer_calm [OF s4(2)] by blast
  have "complete_new_btree fuel sn ops rq s =
      (if root = None then (Inr None, s4) else (Inr root, s5))"
    using s1(1) s2(1) s3(1) s4(1) s5(1)
    by (auto simp: complete_new_btree_def bindE_Inr [where m = "flush_mr sn ops rq"]
        bindE_Inr [where m = "make_modres ops KP_NODE"] modify_res_def clean_result_def
        bindE_Inr [where m = "mr_move_pointers sn ops rq _"]
        bindE_Inr [where m = "if _ then _ else _"] bindE_Inr [where m = "copy_node_pointer ops _"])
  moreover have "grown F (ms_file s2)" by (rule buildingD(1) [OF b2(1)])
  ultimately show ?thesis using s4(2) s5(2) finished_mono by (cases root) auto
qed

end

end
