(* ===== verification/Reduces.thy ===== *)
theory Reduces
  imports Btree_Build
begin

text \<open>
  \<^verbatim>\<open>couchstore/src/reduces.cc\<close>: the reduce functions of the two indexes. A node of the by-sequence
  index carries the number of items below it; a node of the by-id index the numbers of live and of
  deleted documents and the sum of their sizes.

  The sums are 64-bit words and are cut to 40 or 48 bits when they are stored. The laws of
  \<open>reducer\<close> hold with this wrap-around written out.
\<close>

section \<open>The by-sequence index\<close>

definition by_seq_reduce :: reduce_fn where
  "by_seq_reduce leaflist count = Inr (couchstore_encode_raw40 (word_of_nat count))"

fun by_seq_rereduce_loop :: "nodelist list \<Rightarrow> nat \<Rightarrow> u64 \<Rightarrow> fault + u64" where
  "by_seq_rereduce_loop [] count tot = Inr tot"
| "by_seq_rereduce_loop (i # is) 0 tot = Inr tot"
| "by_seq_rereduce_loop (i # is) (Suc count) tot =
     (case nl_pointer i of
        None \<Rightarrow> Inl InvalidAccess
      | Some p \<Rightarrow>
          if length (np_reduce_value p) < 5 then Inl InvalidAccess
          else by_seq_rereduce_loop is count
                 (tot + couchstore_decode_raw40p (take 5 (np_reduce_value p))))"

definition by_seq_rereduce :: reduce_fn where
  "by_seq_rereduce ptrlist count = map_sum id couchstore_encode_raw40 (by_seq_rereduce_loop ptrlist count 0)"

section \<open>The by-id index\<close>

definition BP_DELETED_FLAG :: u64 where
  "BP_DELETED_FLAG = 0x800000000000"

definition encode_by_id_reduce :: "u64 \<Rightarrow> u64 \<Rightarrow> u64 \<Rightarrow> sized_buf" where
  "encode_by_id_reduce notdeleted deleted sz =
     couchstore_encode_raw40 notdeleted @ couchstore_encode_raw40 deleted @ couchstore_encode_raw48 sz"

text \<open>The fields \<open>size\<close> (bytes 6 to 9) and \<open>bp\<close> (bytes 10 to 15) of a \<open>raw_id_index_value\<close>.\<close>

definition id_value_size :: "sized_buf \<Rightarrow> u64" where
  "id_value_size v = ucast (couchstore_decode_raw32 (take 4 (drop 6 v)))"

definition id_value_deleted :: "sized_buf \<Rightarrow> bool" where
  "id_value_deleted v \<longleftrightarrow> couchstore_decode_raw48p (take 6 (drop 10 v)) AND BP_DELETED_FLAG \<noteq> 0"

fun by_id_reduce_loop :: "nodelist list \<Rightarrow> nat \<Rightarrow> u64 \<Rightarrow> u64 \<Rightarrow> u64 \<Rightarrow> fault + sized_buf" where
  "by_id_reduce_loop [] count notdeleted deleted sz = Inr (encode_by_id_reduce notdeleted deleted sz)"
| "by_id_reduce_loop (i # is) 0 notdeleted deleted sz = Inr (encode_by_id_reduce notdeleted deleted sz)"
| "by_id_reduce_loop (i # is) (Suc count) notdeleted deleted sz =
     (if length (nl_data i) < 16 then Inl InvalidAccess
      else if id_value_deleted (nl_data i)
      then by_id_reduce_loop is count notdeleted (deleted + 1) (sz + id_value_size (nl_data i))
      else by_id_reduce_loop is count (notdeleted + 1) deleted (sz + id_value_size (nl_data i)))"

definition by_id_reduce :: reduce_fn where
  "by_id_reduce leaflist count = by_id_reduce_loop leaflist count 0 0 0"

fun by_id_rereduce_loop :: "nodelist list \<Rightarrow> nat \<Rightarrow> u64 \<Rightarrow> u64 \<Rightarrow> u64 \<Rightarrow> fault + sized_buf" where
  "by_id_rereduce_loop [] count notdeleted deleted sz = Inr (encode_by_id_reduce notdeleted deleted sz)"
| "by_id_rereduce_loop (i # is) 0 notdeleted deleted sz = Inr (encode_by_id_reduce notdeleted deleted sz)"
| "by_id_rereduce_loop (i # is) (Suc count) notdeleted deleted sz =
     (case nl_pointer i of
        None \<Rightarrow> Inl InvalidAccess
      | Some p \<Rightarrow>
          let reduce = np_reduce_value p
          in if length reduce < 16 then Inl InvalidAccess
             else by_id_rereduce_loop is count
                    (notdeleted + couchstore_decode_raw40p (take 5 reduce))
                    (deleted + couchstore_decode_raw40p (take 5 (drop 5 reduce)))
                    (sz + couchstore_decode_raw48p (take 6 (drop 10 reduce))))"

definition by_id_rereduce :: reduce_fn where
  "by_id_rereduce ptrlist count = by_id_rereduce_loop ptrlist count 0 0 0"

section \<open>What they compute\<close>

definition seq_reduction :: "(sized_buf \<times> sized_buf) list \<Rightarrow> sized_buf" where
  "seq_reduction xs = couchstore_encode_raw40 (word_of_nat (length xs))"

definition id_reduction :: "(sized_buf \<times> sized_buf) list \<Rightarrow> sized_buf" where
  "id_reduction xs = encode_by_id_reduce
     (word_of_nat (length (filter (\<lambda>x. \<not> id_value_deleted (snd x)) xs)))
     (word_of_nat (length (filter (\<lambda>x. id_value_deleted (snd x)) xs)))
     (sum_list (map (\<lambda>x. id_value_size (snd x)) xs))"

definition id_item :: "sized_buf \<times> sized_buf \<Rightarrow> bool" where
  "id_item x \<longleftrightarrow> 16 \<le> length (snd x)"

lemma take_bit_add_left: "take_bit n (take_bit n a + b) = take_bit n (a + b :: 'a::len word)"
  by transfer (simp add: take_bit_eq_mod mod_simps)

lemma take_bit_add_right: "take_bit n (a + take_bit n b) = take_bit n (a + b :: 'a::len word)"
  using take_bit_add_left [of n b a] by (simp add: add.commute)

lemma take_bit_add_cong: "take_bit n a = take_bit n a' \<Longrightarrow> take_bit n (a + b) = take_bit n (a' + b :: 'a::len word)"
  using take_bit_add_left [of n a b] take_bit_add_left [of n a' b] by simp

lemma length_seq_reduction [simp]: "length (seq_reduction xs) = 5"
  by (simp add: seq_reduction_def)

lemma by_seq_rereduce_loop_sum:
  "list_all2 (\<lambda>i ys. \<exists>p. nl_pointer i = Some p \<and> np_reduce_value p = seq_reduction ys) is yss \<Longrightarrow>
     \<exists>t. by_seq_rereduce_loop is n tot = Inr t \<and>
       take_bit 40 t = take_bit 40 (tot + word_of_nat (length (concat (take n yss))))"
proof (induction "is" yss arbitrary: n tot rule: list_all2_induct)
  case (Cons i "is" ys yss)
  show ?case
  proof (cases n)
    case (Suc m)
    obtain p where p: "nl_pointer i = Some p" "np_reduce_value p = seq_reduction ys" using Cons.hyps(1) by blast
    have step: "by_seq_rereduce_loop (i # is) n tot =
        by_seq_rereduce_loop is m (tot + take_bit 40 (word_of_nat (length ys)))"
      using p by (simp add: Suc seq_reduction_def decode_encode_raw40_trunc)
    obtain t where t: "by_seq_rereduce_loop is m (tot + take_bit 40 (word_of_nat (length ys))) = Inr t"
        "take_bit 40 t = take_bit 40 (tot + take_bit 40 (word_of_nat (length ys)) + word_of_nat (length (concat (take m yss))))"
      using Cons.IH by blast
    have "take_bit 40 (tot + take_bit 40 (word_of_nat (length ys)) + word_of_nat (length (concat (take m yss)))) =
        take_bit 40 (tot + word_of_nat (length ys) + word_of_nat (length (concat (take m yss))) :: u64)"
      by (rule take_bit_add_cong [OF take_bit_add_right])
    then show ?thesis using t step Suc by (simp add: add.assoc)
  qed simp
qed simp

interpretation seq_red: reducer "Some by_seq_reduce" "Some by_seq_rereduce" "\<lambda>_. True" seq_reduction
proof (unfold_locales, goal_cases)
  case (1 xs)
  show ?case by simp
next
  case (2 xs n)
  then show ?case by (simp add: call_reduce_def by_seq_reduce_def seq_reduction_def min_absorb2)
next
  case (3 "is" yss n)
  then have "list_all2 (\<lambda>i ys. \<exists>p. nl_pointer i = Some p \<and> np_reduce_value p = seq_reduction ys) is yss"
    by (auto elim: list_all2_mono)
  from by_seq_rereduce_loop_sum [OF this, of n 0] show ?case
    by (auto simp: call_reduce_def by_seq_rereduce_def seq_reduction_def intro: encode_raw40_cong)
qed

text \<open>The by-id index.\<close>

lemma by_id_reduce_loop_sum:
  "\<forall>x\<in>set xs. id_item x \<Longrightarrow> by_id_reduce_loop (map kv_node xs) n a b c =
     Inr (encode_by_id_reduce
       (a + word_of_nat (length (filter (\<lambda>x. \<not> id_value_deleted (snd x)) (take n xs))))
       (b + word_of_nat (length (filter (\<lambda>x. id_value_deleted (snd x)) (take n xs))))
       (c + sum_list (map (\<lambda>x. id_value_size (snd x)) (take n xs))))"
proof (induction xs arbitrary: n a b c)
  case (Cons x xs)
  show ?case
  proof (cases n)
    case (Suc m)
    then show ?thesis using Cons by (simp add: id_item_def kv_node_def add_ac)
  qed simp
qed simp

lemma encode_by_id_reduce_cong:
  "take_bit 40 a = take_bit 40 a' \<Longrightarrow> take_bit 40 b = take_bit 40 b' \<Longrightarrow> take_bit 48 c = take_bit 48 c' \<Longrightarrow>
     encode_by_id_reduce a b c = encode_by_id_reduce a' b' c'"
  by (simp add: encode_by_id_reduce_def encode_raw40_cong [of a a'] encode_raw40_cong [of b b'] encode_raw48_cong [of c c'])

lemma length_id_reduction [simp]: "length (id_reduction xs) = 16"
  by (simp add: id_reduction_def encode_by_id_reduce_def)

lemma id_reduction_fields:
  "couchstore_decode_raw40p (take 5 (id_reduction xs)) =
     take_bit 40 (word_of_nat (length (filter (\<lambda>x. \<not> id_value_deleted (snd x)) xs)))"
  "couchstore_decode_raw40p (take 5 (drop 5 (id_reduction xs))) =
     take_bit 40 (word_of_nat (length (filter (\<lambda>x. id_value_deleted (snd x)) xs)))"
  "couchstore_decode_raw48p (drop 10 (id_reduction xs)) =
     take_bit 48 (sum_list (map (\<lambda>x. id_value_size (snd x)) xs))"
  by (simp_all add: id_reduction_def encode_by_id_reduce_def decode_encode_raw40_trunc decode_encode_raw48_trunc)

lemma by_id_rereduce_loop_sum:
  "list_all2 (\<lambda>i ys. \<exists>p. nl_pointer i = Some p \<and> np_reduce_value p = id_reduction ys) is yss \<Longrightarrow>
     by_id_rereduce_loop is n a b c =
     Inr (encode_by_id_reduce
       (a + word_of_nat (length (filter (\<lambda>x. \<not> id_value_deleted (snd x)) (concat (take n yss)))))
       (b + word_of_nat (length (filter (\<lambda>x. id_value_deleted (snd x)) (concat (take n yss)))))
       (c + sum_list (map (\<lambda>x. id_value_size (snd x)) (concat (take n yss)))))"
proof (induction "is" yss arbitrary: n a b c rule: list_all2_induct)
  case (Cons i "is" ys yss)
  show ?case
  proof (cases n)
    case (Suc m)
    obtain p where "nl_pointer i = Some p" "np_reduce_value p = id_reduction ys" using Cons.hyps(1) by blast
    then show ?thesis
      by (simp add: Suc Let_def id_reduction_fields Cons.IH del: take_bit_of_nat)
        (rule encode_by_id_reduce_cong; simp only: add.assoc [symmetric] of_nat_add;
          rule take_bit_add_cong [OF take_bit_add_right])
  qed simp
qed simp

interpretation id_red: reducer "Some by_id_reduce" "Some by_id_rereduce" id_item id_reduction
proof (unfold_locales, goal_cases)
  case (1 xs)
  show ?case by simp
next
  case (2 xs n)
  then show ?case by (simp add: call_reduce_def by_id_reduce_def by_id_reduce_loop_sum id_reduction_def)
next
  case (3 "is" yss n)
  then have "list_all2 (\<lambda>i ys. \<exists>p. nl_pointer i = Some p \<and> np_reduce_value p = id_reduction ys) is yss"
    by (auto elim: list_all2_mono)
  then show ?case
    by (simp add: call_reduce_def by_id_rereduce_def by_id_rereduce_loop_sum id_reduction_def)
qed

text \<open>A tree without reduce functions, as the index of local documents is.\<close>

interpretation no_red: reducer None None "\<lambda>_. True" "\<lambda>_. []"
  by unfold_locales (simp_all add: call_reduce_def)

section \<open>Trees over the default file operations\<close>

interpretation seq_tree: btree_builder default_file_ops os_content "\<lambda>_. 0" "\<lambda>_. True" os_calm
    "Some by_seq_reduce" "Some by_seq_rereduce" "\<lambda>_. True" seq_reduction
  by unfold_locales

interpretation id_tree: btree_builder default_file_ops os_content "\<lambda>_. 0" "\<lambda>_. True" os_calm
    "Some by_id_reduce" "Some by_id_rereduce" id_item id_reduction
  by unfold_locales

interpretation local_tree: btree_builder default_file_ops os_content "\<lambda>_. 0" "\<lambda>_. True" os_calm
    None None "\<lambda>_. True" "\<lambda>_. []"
  by unfold_locales

end
