(* ===== verification/Btree_Modify.thy ===== *)
theory Btree_Modify
  imports Reduces Btree_Read
begin

text \<open>
  Second half of \<^verbatim>\<open>couchstore/src/btree_modify.cc\<close>: \<open>modify_btree\<close> applies a sorted list of actions to
  a tree and \<open>guided_purge_btree\<close> removes the items its callbacks select.

  The range \<open>[start, end)\<close> of the actions of a request is the list of these actions. The recursion
  over the nodes is bounded by fuel (a file can hold a pointer cycle); a tree of height \<open>h\<close> needs
  \<open>h + 1\<close>. The functions for one node take the recursive call as an argument.
\<close>

section \<open>Purging\<close>

definition maybe_purgekv ::
  "snappy \<Rightarrow> 'h couch_file_ops \<Rightarrow> 'c modify_request \<Rightarrow> sized_buf \<Rightarrow> sized_buf \<Rightarrow> (('h, 'c) modify_state, unit) cmd" where
  "maybe_purgekv sn ops rq key val =
     bindE (getE ms_purging) (\<lambda>enable_purging.
       bindE (case rq_purge_kv rq of
                Some f \<Rightarrow> if enable_purging then on_mctx (f key val) else returnE PURGE_KEEP
              | None \<Rightarrow> returnE PURGE_KEEP) (\<lambda>action.
         case action of
           PURGE_ITEM \<Rightarrow> modify_res (mr_modified_update (\<lambda>_. True))
         | PURGE_STOP \<Rightarrow> bindE (modifyE (\<lambda>s. s\<lparr>ms_purging := False\<rparr>)) (\<lambda>_. mr_push_item sn ops rq key val)
         | PURGE_KEEP \<Rightarrow> mr_push_item sn ops rq key val
         | PURGE_PARTIAL \<Rightarrow> returnE ()))"

definition maybe_purgekp ::
  "(node_pointer \<Rightarrow> (('h, 'c) modify_state, unit) cmd) \<Rightarrow>
   snappy \<Rightarrow> 'h couch_file_ops \<Rightarrow> 'c modify_request \<Rightarrow> node_pointer \<Rightarrow> (('h, 'c) modify_state, unit) cmd" where
  "maybe_purgekp purge sn ops rq node =
     bindE (getE ms_purging) (\<lambda>enable_purging.
       bindE (case rq_purge_kp rq of
                Some f \<Rightarrow> if enable_purging then on_mctx (f node) else returnE PURGE_KEEP
              | None \<Rightarrow> returnE PURGE_KEEP) (\<lambda>action.
         case action of
           PURGE_ITEM \<Rightarrow> modify_res (mr_modified_update (\<lambda>_. True))
         | PURGE_PARTIAL \<Rightarrow> purge node
         | PURGE_STOP \<Rightarrow> bindE (modifyE (\<lambda>s. s\<lparr>ms_purging := False\<rparr>)) (\<lambda>_. mr_push_pointerinfo sn ops rq node)
         | PURGE_KEEP \<Rightarrow> mr_push_pointerinfo sn ops rq node))"

text \<open>\<open>read_pointer\<close> into the arena.\<close>

definition read_pointer_in ::
  "'h couch_file_ops \<Rightarrow> sized_buf \<Rightarrow> sized_buf \<Rightarrow> (('h, 'c) modify_state, node_pointer) cmd" where
  "read_pointer_in ops key buf =
     bindE (allocE ops) (\<lambda>_.
       case read_pointer key buf of None \<Rightarrow> throwE InvalidAccess | Some p \<Rightarrow> returnE p)"

text \<open>Reading a node: any failure of \<open>pread_compressed\<close> becomes \<open>COUCHSTORE_ERROR_READ\<close>.\<close>

definition read_node :: "snappy \<Rightarrow> 'h couch_file_ops \<Rightarrow> node_pointer \<Rightarrow> (('h, 'c) modify_state, byte list) cmd" where
  "read_node sn ops nptr = (\<lambda>s.
     case on_file (on_handle (pread_compressed sn ops (unat (np_pointer nptr)))) s of
       (Inl (Err e), s') \<Rightarrow> (Inl (Err COUCHSTORE_ERROR_READ), s')
     | r \<Rightarrow> r)"

text \<open>The two loops of \<open>purge_node\<close>.\<close>

fun purge_kv_items ::
  "snappy \<Rightarrow> 'h couch_file_ops \<Rightarrow> 'c modify_request \<Rightarrow> (sized_buf \<times> sized_buf) option list \<Rightarrow>
   (('h, 'c) modify_state, unit) cmd" where
  "purge_kv_items sn ops rq [] = returnE ()"
| "purge_kv_items sn ops rq (None # xs) = throwE InvalidAccess"
| "purge_kv_items sn ops rq (Some (cmp_key, val_buf) # xs) =
     bindE (maybe_purgekv sn ops rq cmp_key val_buf) (\<lambda>_. purge_kv_items sn ops rq xs)"

fun purge_kp_items ::
  "(node_pointer \<Rightarrow> (('h, 'c) modify_state, unit) cmd) \<Rightarrow>
   snappy \<Rightarrow> 'h couch_file_ops \<Rightarrow> 'c modify_request \<Rightarrow> (sized_buf \<times> sized_buf) option list \<Rightarrow>
   (('h, 'c) modify_state, unit) cmd" where
  "purge_kp_items purge sn ops rq [] = returnE ()"
| "purge_kp_items purge sn ops rq (None # xs) = throwE InvalidAccess"
| "purge_kp_items purge sn ops rq (Some (cmp_key, val_buf) # xs) =
     bindE (read_pointer_in ops cmp_key val_buf) (\<lambda>desc.
       bindE (maybe_purgekp purge sn ops rq desc) (\<lambda>_.
         purge_kp_items purge sn ops rq xs))"

fun purge_node ::
  "nat \<Rightarrow> snappy \<Rightarrow> 'h couch_file_ops \<Rightarrow> 'c modify_request \<Rightarrow> node_pointer option \<Rightarrow>
   (('h, 'c) modify_state, unit) cmd" where
  "purge_node 0 sn ops rq nptr = throwE OutOfFuel"
| "purge_node (Suc fuel) sn ops rq nptr =
     (case nptr of
        None \<Rightarrow> returnE ()
      | Some np \<Rightarrow>
          bindE (getE ms_purging) (\<lambda>enable_purging.
            if \<not> enable_purging
            then bindE (modify_res (mr_modified_update (\<lambda>_. True))) (\<lambda>_. mr_push_pointerinfo sn ops rq np)
            else bindE (read_node sn ops np) (\<lambda>nodebuf.
              bindE (make_modres ops KP_NODE) (\<lambda>modres.
                case nodebuf of
                  [] \<Rightarrow> throwE InvalidAccess
                | node_type # body \<Rightarrow>
                    bindE (if node_type = 1
                           then with_local (modres\<lparr>mr_node_type := KV_NODE\<rparr>)
                             (bindE (purge_kv_items sn ops rq (kv_items body)) (\<lambda>_.
                                bindE (getE ms_res) (\<lambda>local_result.
                                  if mr_modified local_result then flush_mr sn ops rq else returnE ())))
                           else if node_type = 0
                           then with_local (modres\<lparr>mr_node_type := KP_NODE\<rparr>)
                             (bindE (purge_kp_items (\<lambda>p. purge_node fuel sn ops rq (Some p)) sn ops rq (kv_items body)) (\<lambda>_.
                                bindE (getE ms_res) (\<lambda>local_result.
                                  if mr_modified local_result then flush_mr sn ops rq else returnE ())))
                           else throwE (Err COUCHSTORE_ERROR_CORRUPT)) (\<lambda>local_result.
                      if mr_modified local_result
                      then bindE (modify_res (mr_modified_update (\<lambda>_. True))) (\<lambda>_.
                        mr_move_pointers sn ops rq (mr_pointers local_result))
                      else returnE ())))))"

definition guided_purge_btree ::
  "nat \<Rightarrow> snappy \<Rightarrow> 'h couch_file_ops \<Rightarrow> 'c modify_request \<Rightarrow> node_pointer option \<Rightarrow>
   (('h, 'c) modify_state, node_pointer option) cmd" where
  "guided_purge_btree fuel sn ops rq root =
     bindE (modifyE (\<lambda>s. s\<lparr>ms_purging := True\<rparr>)) (\<lambda>_.
       bindE (allocE ops) (\<lambda>_.
         bindE (make_modres ops KP_NODE) (\<lambda>modres.
           bindE (with_local modres (purge_node fuel sn ops rq root)) (\<lambda>root_result.
             if mr_modified root_result
             then copy_node_pointer ops (last_pointer (mr_values root_result))
             else returnE root))))"

section \<open>Modifying a leaf\<close>

definition action_key :: "modify_action \<Rightarrow> sized_buf" where
  "action_key a = (case a of ACTION_FETCH k \<Rightarrow> k | ACTION_REMOVE k \<Rightarrow> k | ACTION_INSERT k v \<Rightarrow> k)"

definition fetched ::
  "'c modify_request \<Rightarrow> sized_buf \<Rightarrow> sized_buf option \<Rightarrow> (('h, 'c) modify_state, unit) cmd" where
  "fetched rq key val =
     (case rq_fetch_callback rq of
        None \<Rightarrow> returnE ()
      | Some f \<Rightarrow> modifyE (\<lambda>s. s\<lparr>ms_ctx := f key val (ms_ctx s)\<rparr>))"

text \<open>The action \<open>a\<close> meets no item (\<open>None\<close>) or an item with its key, whose value is given.\<close>

definition do_action ::
  "snappy \<Rightarrow> 'h couch_file_ops \<Rightarrow> 'c modify_request \<Rightarrow> modify_action \<Rightarrow> sized_buf option \<Rightarrow>
   (('h, 'c) modify_state, unit) cmd" where
  "do_action sn ops rq a val =
     (case a of
        ACTION_INSERT key value \<Rightarrow>
          bindE (modify_res (mr_modified_update (\<lambda>_. True))) (\<lambda>_. ignoreE (mr_push_item sn ops rq key value))
      | ACTION_REMOVE key \<Rightarrow> modify_res (mr_modified_update (\<lambda>_. True))
      | ACTION_FETCH key \<Rightarrow> fetched rq key val)"

text \<open>What happens at one item of a leaf; the actions left over are returned.\<close>

fun modify_kv_item ::
  "snappy \<Rightarrow> 'h couch_file_ops \<Rightarrow> 'c modify_request \<Rightarrow> sized_buf \<Rightarrow> sized_buf \<Rightarrow> modify_action list \<Rightarrow>
   (('h, 'c) modify_state, modify_action list) cmd" where
  "modify_kv_item sn ops rq cmp_key val_buf [] =
     bindE (maybe_purgekv sn ops rq cmp_key val_buf) (\<lambda>_. returnE [])"
| "modify_kv_item sn ops rq cmp_key val_buf (a # acts) =
     (let cmp_val = rq_compare rq cmp_key (action_key a)
      in if cmp_val < 0
         then bindE (maybe_purgekv sn ops rq cmp_key val_buf) (\<lambda>_. returnE (a # acts))
         else if 0 < cmp_val
         then bindE (do_action sn ops rq a None) (\<lambda>_. modify_kv_item sn ops rq cmp_key val_buf acts)
         else bindE (do_action sn ops rq a (Some val_buf)) (\<lambda>_.
           case a of
             ACTION_FETCH _ \<Rightarrow> modify_kv_item sn ops rq cmp_key val_buf acts
           | _ \<Rightarrow> returnE acts))"

fun modify_kv_items ::
  "snappy \<Rightarrow> 'h couch_file_ops \<Rightarrow> 'c modify_request \<Rightarrow> (sized_buf \<times> sized_buf) option list \<Rightarrow> modify_action list \<Rightarrow>
   (('h, 'c) modify_state, modify_action list) cmd" where
  "modify_kv_items sn ops rq [] acts = returnE acts"
| "modify_kv_items sn ops rq (None # xs) acts = throwE InvalidAccess"
| "modify_kv_items sn ops rq (Some (cmp_key, val_buf) # xs) acts =
     bindE (modify_kv_item sn ops rq cmp_key val_buf acts) (\<lambda>acts'. modify_kv_items sn ops rq xs acts')"

text \<open>The end of a leaf node: the remaining actions meet no item.\<close>

fun trailing_actions ::
  "snappy \<Rightarrow> 'h couch_file_ops \<Rightarrow> 'c modify_request \<Rightarrow> modify_action list \<Rightarrow> (('h, 'c) modify_state, unit) cmd" where
  "trailing_actions sn ops rq [] = returnE ()"
| "trailing_actions sn ops rq (a # acts) =
     bindE (do_action sn ops rq a None) (\<lambda>_. trailing_actions sn ops rq acts)"

section \<open>Modifying an inner node\<close>

text \<open>
  The loop over the items of an inner node while actions are left, then the loop that keeps the
  rest. The last item gets all the actions that are left.
\<close>

fun modify_kp_items ::
  "(node_pointer \<Rightarrow> modify_action list \<Rightarrow> (('h, 'c) modify_state, unit) cmd) \<Rightarrow>
   (node_pointer \<Rightarrow> (('h, 'c) modify_state, unit) cmd) \<Rightarrow>
   snappy \<Rightarrow> 'h couch_file_ops \<Rightarrow> 'c modify_request \<Rightarrow> (sized_buf \<times> sized_buf) option list \<Rightarrow> modify_action list \<Rightarrow>
   (('h, 'c) modify_state, unit) cmd" where
  "modify_kp_items descend purge sn ops rq [] acts = returnE ()"
| "modify_kp_items descend purge sn ops rq (None # xs) acts = throwE InvalidAccess"
| "modify_kp_items descend purge sn ops rq (Some (cmp_key, val_buf) # xs) acts =
     (case acts of
        [] \<Rightarrow> purge_kp_items purge sn ops rq (Some (cmp_key, val_buf) # xs)
      | a # _ \<Rightarrow>
          if xs = []
          then bindE (read_pointer_in ops cmp_key val_buf) (\<lambda>desc. descend desc acts)
          else if rq_compare rq cmp_key (action_key a) < 0
          then bindE (read_pointer_in ops cmp_key val_buf) (\<lambda>add.
            bindE (maybe_purgekp purge sn ops rq add) (\<lambda>_.
              modify_kp_items descend purge sn ops rq xs acts))
          else let range = takeWhile (\<lambda>b. rq_compare rq (action_key b) cmp_key \<le> 0) acts
            in bindE (read_pointer_in ops cmp_key val_buf) (\<lambda>desc.
              bindE (descend desc range) (\<lambda>_.
                modify_kp_items descend purge sn ops rq xs (drop (length range) acts))))"

text \<open>The part of \<open>modify_node\<close> for a leaf after the node has been read: fill the local result and write it.\<close>

definition modify_leaf ::
  "snappy \<Rightarrow> 'h couch_file_ops \<Rightarrow> 'c modify_request \<Rightarrow> byte list \<Rightarrow> modify_action list \<Rightarrow>
   (('h, 'c) modify_state, unit) cmd" where
  "modify_leaf sn ops rq body acts =
     bindE (modify_kv_items sn ops rq (kv_items body) acts) (\<lambda>acts'.
       bindE (trailing_actions sn ops rq acts') (\<lambda>_. flush_mr sn ops rq))"

text \<open>The middle of \<open>modify_node\<close>: collect the new content of the node in a local result and write it.\<close>

definition modify_local ::
  "(node_pointer \<Rightarrow> modify_action list \<Rightarrow> (('h, 'c) modify_state, unit) cmd) \<Rightarrow>
   (node_pointer \<Rightarrow> (('h, 'c) modify_state, unit) cmd) \<Rightarrow>
   snappy \<Rightarrow> 'h couch_file_ops \<Rightarrow> 'c modify_request \<Rightarrow> byte list \<Rightarrow> modify_action list \<Rightarrow>
   (('h, 'c) modify_state, modify_result) cmd" where
  "modify_local descend purge sn ops rq nodebuf acts =
     bindE (make_modres ops KP_NODE) (\<lambda>local_result.
       case nodebuf of
         [] \<Rightarrow> throwE InvalidAccess
       | node_type # body \<Rightarrow>
           if node_type = 1
           then with_local (local_result\<lparr>mr_node_type := KV_NODE\<rparr>) (modify_leaf sn ops rq body acts)
           else if node_type = 0
           then with_local (local_result\<lparr>mr_node_type := KP_NODE\<rparr>)
             (bindE (modify_kp_items descend purge sn ops rq (kv_items body) acts) (\<lambda>_. flush_mr sn ops rq))
           else throwE (Err COUCHSTORE_ERROR_CORRUPT))"

text \<open>Its end: the node itself goes back to the parent if nothing was done, else the new nodes.\<close>

definition give_back ::
  "snappy \<Rightarrow> 'h couch_file_ops \<Rightarrow> 'c modify_request \<Rightarrow> node_pointer option \<Rightarrow> modify_result \<Rightarrow>
   (('h, 'c) modify_state, unit) cmd" where
  "give_back sn ops rq nptr local_result =
     (case nptr of
        Some np \<Rightarrow>
          if \<not> mr_modified local_result then ignoreE (mr_push_pointerinfo sn ops rq np)
          else bindE (modify_res (mr_modified_update (\<lambda>_. True))) (\<lambda>_.
            mr_move_pointers sn ops rq (mr_pointers local_result))
      | None \<Rightarrow>
          bindE (modify_res (mr_modified_update (\<lambda>_. True))) (\<lambda>_.
            mr_move_pointers sn ops rq (mr_pointers local_result)))"

text \<open>Without a node (\<open>nptr\<close> is null) the actions meet an empty leaf.\<close>

fun modify_node ::
  "nat \<Rightarrow> snappy \<Rightarrow> 'h couch_file_ops \<Rightarrow> 'c modify_request \<Rightarrow> node_pointer option \<Rightarrow> modify_action list \<Rightarrow>
   (('h, 'c) modify_state, unit) cmd" where
  "modify_node 0 sn ops rq nptr acts = throwE OutOfFuel"
| "modify_node (Suc fuel) sn ops rq nptr acts =
     (if acts = [] then returnE ()
      else bindE (case nptr of None \<Rightarrow> returnE [1] | Some np \<Rightarrow> read_node sn ops np) (\<lambda>nodebuf.
        bindE (modify_local (\<lambda>p as. modify_node fuel sn ops rq (Some p) as)
                 (\<lambda>p. purge_node fuel sn ops rq (Some p)) sn ops rq nodebuf acts)
          (give_back sn ops rq nptr)))"

text \<open>
  \<open>new_arena\<close> is not checked. The pointer \<open>modify_btree\<close> returns with an error is the old root when
  nothing has been done yet and null otherwise; a caller that looks at the error does not use it.
  A failing \<open>copy_node_pointer\<close> is returned as a null pointer without an error.
\<close>

definition modify_btree ::
  "nat \<Rightarrow> snappy \<Rightarrow> 'h couch_file_ops \<Rightarrow> 'c modify_request \<Rightarrow> node_pointer option \<Rightarrow>
   (('h, 'c) modify_state, node_pointer option) cmd" where
  "modify_btree fuel sn ops rq root =
     bindE (on_file (on_handle (fo_malloc ops))) (\<lambda>ok.
       if \<not> ok then throwE InvalidAccess
       else bindE (make_modres ops KP_NODE) (\<lambda>modres.
         bindE (modify_res (\<lambda>_. modres)) (\<lambda>_.
           bindE (modify_node fuel sn ops rq root (rq_actions rq)) (\<lambda>_.
             bindE (getE ms_res) (\<lambda>root_result.
               if mr_modified root_result
               then bindE (if 1 < mr_count root_result \<or> mr_pointers root_result \<noteq> []
                           then finish_root fuel sn ops rq
                           else returnE (last_pointer (mr_values root_result)))
                      (copy_node_pointer ops)
               else returnE root)))))"

section \<open>What the actions do to the items of a tree\<close>

definition inserted :: "modify_action \<Rightarrow> (sized_buf \<times> sized_buf) list" where
  "inserted a = (case a of ACTION_INSERT k v \<Rightarrow> [(k, v)] | _ \<Rightarrow> [])"

definition is_fetch :: "modify_action \<Rightarrow> bool" where
  "is_fetch a = (case a of ACTION_FETCH k \<Rightarrow> True | _ \<Rightarrow> False)"

definition fetch_log :: "modify_action \<Rightarrow> sized_buf option \<Rightarrow> (sized_buf \<times> sized_buf option) list" where
  "fetch_log a val = (case a of ACTION_FETCH k \<Rightarrow> [(k, val)] | _ \<Rightarrow> [])"

fun updated ::
  "(sized_buf \<Rightarrow> sized_buf \<Rightarrow> int) \<Rightarrow> modify_action list \<Rightarrow> (sized_buf \<times> sized_buf) list \<Rightarrow> (sized_buf \<times> sized_buf) list" where
  "updated cmp [] xs = xs"
| "updated cmp (a # as) [] = inserted a @ updated cmp as []"
| "updated cmp (a # as) (x # xs) =
     (if cmp (fst x) (action_key a) < 0 then x # updated cmp (a # as) xs
      else if 0 < cmp (fst x) (action_key a) \<or> is_fetch a then inserted a @ updated cmp as (x # xs)
      else inserted a @ updated cmp as xs)"

fun fetches ::
  "(sized_buf \<Rightarrow> sized_buf \<Rightarrow> int) \<Rightarrow> modify_action list \<Rightarrow> (sized_buf \<times> sized_buf) list \<Rightarrow>
   (sized_buf \<times> sized_buf option) list" where
  "fetches cmp [] xs = []"
| "fetches cmp (a # as) [] = fetch_log a None @ fetches cmp as []"
| "fetches cmp (a # as) (x # xs) =
     (if cmp (fst x) (action_key a) < 0 then fetches cmp (a # as) xs
      else if 0 < cmp (fst x) (action_key a) then fetch_log a None @ fetches cmp as (x # xs)
      else fetch_log a (Some (snd x)) @ fetches cmp as (if is_fetch a then x # xs else xs))"

definition has_update :: "modify_action list \<Rightarrow> bool" where
  "has_update acts \<longleftrightarrow> (\<exists>a\<in>set acts. \<not> is_fetch a)"

lemma has_update_simps [simp]:
  "\<not> has_update []" "has_update (a # as) \<longleftrightarrow> \<not> is_fetch a \<or> has_update as"
  "has_update (as @ bs) \<longleftrightarrow> has_update as \<or> has_update bs"
  by (auto simp: has_update_def)

lemma is_fetch_inserted: "is_fetch a \<Longrightarrow> inserted a = []"
  by (simp add: is_fetch_def inserted_def split: modify_action.splits)

lemma updated_fetches_only: "\<not> has_update acts \<Longrightarrow> updated cmp acts xs = xs"
  by (induction cmp acts xs rule: updated.induct) (auto simp: is_fetch_inserted)

context key_order
begin

lemma updated_behind:
  assumes "acts = [] \<or> 0 < cmp (action_key (hd acts)) k" and "\<forall>y\<in>set ys. cmp (fst y) k \<le> 0"
  shows "updated cmp acts (ys @ zs) = ys @ updated cmp acts zs \<and> fetches cmp acts (ys @ zs) = fetches cmp acts zs"
  using assms(2)
proof (induction ys)
  case (Cons y ys)
  show ?case
  proof (cases acts)
    case (Cons a as)
    then have "cmp (fst y) (action_key a) < 0"
      using assms(1) Cons.prems cmp_le_less_trans [of "fst y" k "action_key a"] cmp_neg_iff [of k "action_key a"]
      by simp
    then show ?thesis using Cons Cons.IH Cons.prems by simp
  qed simp
qed simp

lemma updated_split:
  assumes "acts2 = [] \<or> 0 < cmp (action_key (hd acts2)) k" and "\<forall>z\<in>set zs. cmp k (fst z) < 0"
  shows "\<forall>a\<in>set acts1. cmp (action_key a) k \<le> 0 \<Longrightarrow> \<forall>y\<in>set ys. cmp (fst y) k \<le> 0 \<Longrightarrow>
    updated cmp (acts1 @ acts2) (ys @ zs) = updated cmp acts1 ys @ updated cmp acts2 zs \<and>
    fetches cmp (acts1 @ acts2) (ys @ zs) = fetches cmp acts1 ys @ fetches cmp acts2 zs"
proof (induction acts1 arbitrary: ys)
  case Nil
  then show ?case using updated_behind [OF assms(1)] by simp
next
  case (Cons a as)
  note outer = Cons.IH and pa = Cons.prems(1)
  have pos: "0 < cmp (fst z) (action_key a)" if "z \<in> set zs" for z
    using assms(2) pa that cmp_le_less_trans [of "action_key a" k "fst z"] by (simp add: cmp_pos_iff)
  have none: "updated cmp (a # as @ acts2) zs = inserted a @ updated cmp (as @ acts2) zs \<and>
      fetches cmp (a # as @ acts2) zs = fetch_log a None @ fetches cmp (as @ acts2) zs"
  proof (cases zs)
    case (Cons z zs')
    then have "0 < cmp (fst z) (action_key a)" using pos by simp
    then show ?thesis by (simp add: Cons)
  qed simp
  show ?case using Cons.prems(2)
  proof (induction ys)
    case Nil
    then show ?case using none outer [of "[]"] pa by simp
  next
    case (Cons y ys)
    then show ?case using outer [of ys] outer [of "y # ys"] pa by auto
  qed
qed

end

section \<open>The code does that\<close>

definition run_fetches :: "'c modify_request \<Rightarrow> (sized_buf \<times> sized_buf option) list \<Rightarrow> 'c \<Rightarrow> 'c" where
  "run_fetches rq log c =
     (case rq_fetch_callback rq of None \<Rightarrow> c | Some f \<Rightarrow> fold (\<lambda>(k, v). f k v) log c)"

lemma run_fetches_simps [simp]:
  "run_fetches rq [] c = c" "run_fetches rq (as @ bs) c = run_fetches rq bs (run_fetches rq as c)"
  by (simp_all add: run_fetches_def split: option.splits)

lemma fetched_run: "fetched rq k v s = (Inr (), s\<lparr>ms_ctx := run_fetches rq [(k, v)] (ms_ctx s)\<rparr>)"
  by (simp add: fetched_def run_fetches_def split: option.splits)

locale btree_modifier = btree_builder ops content cached inv calm red rered item_ok reduction + key_order cmp
  for ops :: "'h couch_file_ops" and content cached inv calm red rered item_ok reduction cmp
begin

definition action_good :: "modify_action \<Rightarrow> bool" where
  "action_good a \<longleftrightarrow> (\<forall>x\<in>set (inserted a). item_good x)"

text \<open>The result that is being filled stands for \<open>xs\<close>; how many nodes it has written is left open.\<close>

definition holding :: "'h tree_file \<Rightarrow> nat \<Rightarrow> nat \<Rightarrow> snappy \<Rightarrow> 'c modify_request \<Rightarrow> 'c \<Rightarrow> node_type \<Rightarrow> bool \<Rightarrow>
    nat \<Rightarrow> (sized_buf \<times> sized_buf) list \<Rightarrow> ('h, 'c) modify_state \<Rightarrow> bool" where
  "holding F base lim sn rq c ty md d xs s \<longleftrightarrow> (\<exists>n. filling F base lim sn rq c ty md n d xs s)"

definition modifies :: "snappy \<Rightarrow> 'c modify_request \<Rightarrow> nat \<Rightarrow> nat \<Rightarrow> bool" where
  "modifies sn rq base lim \<longleftrightarrow>
     snappy_ok sn \<and> request_ok rq \<and> rq_compare rq = cmp \<and> lim < 2 ^ 48 \<and> lim < base + 2 ^ 31"

lemma modifiesD:
  assumes "modifies sn rq base lim"
  shows "snappy_ok sn" and "request_ok rq" and "lim < 2 ^ 48" and "rq_compare rq = cmp" and "lim < base + 2 ^ 31"
  using assms by (simp_all add: modifies_def)

lemma holding_lift:
  assumes "\<And>n. succeeds (filling F base lim sn rq c ty md n d xs) m (\<lambda>_. filling F base lim sn rq c' ty md' (g n) d xs')"
  shows "succeeds (holding F base lim sn rq c ty md d xs) m (\<lambda>_. holding F base lim sn rq c' ty md' d xs')"
proof (rule succeedsI)
  fix s assume "holding F base lim sn rq c ty md d xs s"
  then obtain n where f: "filling F base lim sn rq c ty md n d xs s" by (auto simp: holding_def)
  obtain a s' where "m s = (Inr a, s')" "filling F base lim sn rq c' ty md' (g n) d xs' s'"
    by (rule succeedsE [OF assms f])
  then show "\<exists>a s'. m s = (Inr a, s') \<and> holding F base lim sn rq c' ty md' d xs' s'"
    unfolding holding_def by blast
qed

lemma holding_push_item:
  assumes "modifies sn rq base lim" and "item_good (k, v)" and "length xs + 1 < 2 ^ 31"
  shows "succeeds (holding F base lim sn rq c KV_NODE md 0 xs) (mr_push_item sn ops rq k v)
    (\<lambda>_. holding F base lim sn rq c KV_NODE md 0 (xs @ [(k, v)]))"
  using mr_push_item_calm [OF modifiesD(1-3) [OF assms(1)] assms(2,3)] by (intro holding_lift) simp

lemma holding_push_pointer:
  assumes "modifies sn rq base lim" and "0 < d" and "sub_tree lim sn F (d - 1) p t"
    and "np_key p = fst (last (items t))" and "length xs + length (items t) < 2 ^ 31"
  shows "succeeds (holding F base lim sn rq c KP_NODE md d xs) (mr_push_pointerinfo sn ops rq p)
    (\<lambda>_. holding F base lim sn rq c KP_NODE md d (xs @ items t))"
  by (rule holding_lift) (rule mr_push_pointerinfo_calm [OF modifiesD(1-3) [OF assms(1)] assms(2-5)])

lemma holding_modified:
  "succeeds (holding F base lim sn rq c ty md d xs) (modify_res (mr_modified_update (\<lambda>_. True)))
     (\<lambda>_. holding F base lim sn rq c ty True d xs)"
  unfolding modify_res_def
  by (rule hoare_modifyE)
    (auto simp: holding_def filling_def building_def mr_ok_def bounded_node_def weight_def)

lemma holding_fetched:
  "succeeds (holding F base lim sn rq c ty md d xs) (fetched rq k v)
     (\<lambda>_. holding F base lim sn rq (run_fetches rq [(k, v)] c) ty md d xs)"
  by (rule succeedsI) (auto simp: fetched_run holding_def filling_def building_def)

lemma succeeds_ignoreE: "succeeds P m (\<lambda>_. Q) \<Longrightarrow> succeeds P (ignoreE m) (\<lambda>_. Q)"
  by (fastforce simp: hoare_def ignoreE_def split: prod.splits sum.splits)

lemma holding_do_action:
  assumes "modifies sn rq base lim" and "action_good a" and "length xs + 1 < 2 ^ 31"
  shows "succeeds (holding F base lim sn rq c KV_NODE md 0 xs) (do_action sn ops rq a v)
    (\<lambda>_. holding F base lim sn rq (run_fetches rq (fetch_log a v) c) KV_NODE (md \<or> \<not> is_fetch a) 0 (xs @ inserted a))"
proof (cases a)
  case (ACTION_INSERT k w)
  then have "item_good (k, w)" using assms(2) by (simp add: action_good_def inserted_def)
  from hoare_bindE [OF holding_modified succeeds_ignoreE [OF holding_push_item [OF assms(1) this assms(3)]]]
  show ?thesis by (simp add: ACTION_INSERT do_action_def inserted_def is_fetch_def fetch_log_def)
qed (simp_all add: do_action_def inserted_def is_fetch_def fetch_log_def holding_modified holding_fetched)

lemma holding_purgekv:
  assumes "modifies sn rq base lim" and "item_good (k, v)" and "length xs + 1 < 2 ^ 31"
  shows "succeeds (holding F base lim sn rq c KV_NODE md 0 xs) (maybe_purgekv sn ops rq k v)
    (\<lambda>_. holding F base lim sn rq c KV_NODE md 0 (xs @ [(k, v)]))"
proof (rule succeedsI)
  fix s assume h: "holding F base lim sn rq c KV_NODE md 0 xs s"
  then have "\<not> ms_purging s" by (auto simp: holding_def filling_def building_def)
  then have "maybe_purgekv sn ops rq k v s = mr_push_item sn ops rq k v s"
    by (simp add: maybe_purgekv_def split: option.splits)
  then show "\<exists>a s'. maybe_purgekv sn ops rq k v s = (Inr a, s') \<and>
      holding F base lim sn rq c KV_NODE md 0 (xs @ [(k, v)]) s'"
    using succeedsE [OF holding_push_item [OF assms] h] by metis
qed

subsection \<open>A leaf\<close>

text \<open>
  The loop invariant: what the local result holds, followed by what the actions still have to do to
  the items still to come, is \<open>R\<close>; the same for the state \<open>C\<close> of the fetch callback and for the
  flag \<open>M\<close> that says whether the node was modified.
\<close>

definition pending :: "'h tree_file \<Rightarrow> nat \<Rightarrow> nat \<Rightarrow> snappy \<Rightarrow> 'c modify_request \<Rightarrow> (sized_buf \<times> sized_buf) list \<Rightarrow>
    'c \<Rightarrow> bool \<Rightarrow> node_type \<Rightarrow> nat \<Rightarrow> modify_action list \<Rightarrow> (sized_buf \<times> sized_buf) list \<Rightarrow> ('h, 'c) modify_state \<Rightarrow> bool" where
  "pending F base lim sn rq R C M ty d acts xs s \<longleftrightarrow>
     (\<exists>ys c md. holding F base lim sn rq c ty md d ys s \<and>
        ys @ updated cmp acts xs = R \<and> run_fetches rq (fetches cmp acts xs) c = C \<and> (md \<or> has_update acts) = M \<and>
        length ys + length acts + length xs < 2 ^ 31) \<and>
     (\<forall>x\<in>set xs. item_good x) \<and> (\<forall>a\<in>set acts. action_good a)"

lemma length_inserted: "length (inserted a) \<le> 1"
  by (simp add: inserted_def split: modify_action.split)

lemma pending_step:
  assumes "\<And>ys c md. length ys + length acts + length xs < 2 ^ 31 \<Longrightarrow>
      succeeds (holding F base lim sn rq c ty md d ys) m
        (\<lambda>_. holding F base lim sn rq (run_fetches rq log c) ty (md \<or> upd) d (ys @ out))"
    and "updated cmp acts xs = out @ updated cmp acts' xs'"
    and "fetches cmp acts xs = log @ fetches cmp acts' xs'"
    and "has_update acts = (upd \<or> has_update acts')"
    and "length out + length acts' + length xs' \<le> length acts + length xs"
    and "set acts' \<subseteq> set acts" and "set xs' \<subseteq> set xs"
  shows "succeeds (pending F base lim sn rq R C M ty d acts xs) m
    (\<lambda>_. pending F base lim sn rq R C M ty d acts' xs')"
proof (rule succeedsI)
  fix s assume p: "pending F base lim sn rq R C M ty d acts xs s"
  then obtain ys c md where h: "holding F base lim sn rq c ty md d ys s"
    and eq: "ys @ updated cmp acts xs = R" "run_fetches rq (fetches cmp acts xs) c = C"
      "(md \<or> has_update acts) = M" "length ys + length acts + length xs < 2 ^ 31"
    by (auto simp: pending_def)
  obtain a s' where "m s = (Inr a, s')"
      "holding F base lim sn rq (run_fetches rq log c) ty (md \<or> upd) d (ys @ out) s'"
    by (rule succeedsE [OF assms(1) [OF eq(4)] h])
  moreover have "(ys @ out) @ updated cmp acts' xs' = R"
      "run_fetches rq (fetches cmp acts' xs') (run_fetches rq log c) = C"
      "((md \<or> upd) \<or> has_update acts') = M" "length (ys @ out) + length acts' + length xs' < 2 ^ 31"
    using eq assms(2-5) by auto
  ultimately show "\<exists>a s'. m s = (Inr a, s') \<and> pending F base lim sn rq R C M ty d acts' xs' s'"
    using p assms(6,7) unfolding pending_def by blast
qed

lemma pending_purgekv:
  assumes "modifies sn rq base lim" and "acts = [] \<or> cmp k (action_key (hd acts)) < 0"
  shows "succeeds (pending F base lim sn rq R C M KV_NODE 0 acts ((k, v) # xs)) (maybe_purgekv sn ops rq k v)
    (\<lambda>_. pending F base lim sn rq R C M KV_NODE 0 acts xs)"
proof (cases "item_good (k, v)")
  case True
  show ?thesis
  proof (rule pending_step [where log = "[]" and upd = False and out = "[(k, v)]"])
    show "updated cmp acts ((k, v) # xs) = [(k, v)] @ updated cmp acts xs"
        "fetches cmp acts ((k, v) # xs) = [] @ fetches cmp acts xs"
      using assms(2) by (cases acts; simp)+
  qed (use holding_purgekv [OF assms(1) True] in auto)
qed (auto simp: hoare_def pending_def)

lemma pending_do_action:
  assumes "modifies sn rq base lim"
    and "updated cmp (a # acts) xs = inserted a @ updated cmp acts xs'"
    and "fetches cmp (a # acts) xs = fetch_log a v @ fetches cmp acts xs'"
    and "set xs' \<subseteq> set xs" and "length xs' \<le> length xs"
  shows "succeeds (pending F base lim sn rq R C M KV_NODE 0 (a # acts) xs) (do_action sn ops rq a v)
    (\<lambda>_. pending F base lim sn rq R C M KV_NODE 0 acts xs')"
proof (cases "action_good a")
  case True
  show ?thesis
  proof (rule pending_step [OF _ assms(2,3), where upd = "\<not> is_fetch a"])
    fix ys :: "(sized_buf \<times> sized_buf) list" and c md
    assume "length ys + length (a # acts) + length xs < 2 ^ 31"
    then show "succeeds (holding F base lim sn rq c KV_NODE md 0 ys) (do_action sn ops rq a v)
        (\<lambda>_. holding F base lim sn rq (run_fetches rq (fetch_log a v) c) KV_NODE (md \<or> \<not> is_fetch a) 0 (ys @ inserted a))"
      by (intro holding_do_action [OF assms(1) True]) simp
  qed (use assms(4,5) length_inserted [of a] in auto)
qed (auto simp: hoare_def pending_def)

lemma pending_kv_item:
  assumes "modifies sn rq base lim"
  shows "succeeds (pending F base lim sn rq R C M KV_NODE 0 acts ((k, v) # xs)) (modify_kv_item sn ops rq k v acts)
    (\<lambda>acts'. pending F base lim sn rq R C M KV_NODE 0 acts' xs)"
proof (induction acts)
  case Nil
  have "succeeds (pending F base lim sn rq R C M KV_NODE 0 [] ((k, v) # xs)) (maybe_purgekv sn ops rq k v)
      (\<lambda>_. pending F base lim sn rq R C M KV_NODE 0 [] xs)"
    by (rule pending_purgekv [OF assms]) simp
  then show ?case by (simp only: modify_kv_item.simps) (erule hoare_bindE, simp add: hoare_def)
next
  case (Cons a acts)
  note c = modifiesD(4) [OF assms]
  consider (less) "cmp k (action_key a) < 0" | (greater) "0 < cmp k (action_key a)" | (equal) "cmp k (action_key a) = 0"
    by linarith
  then show ?case
  proof cases
    case less
    have "succeeds (pending F base lim sn rq R C M KV_NODE 0 (a # acts) ((k, v) # xs)) (maybe_purgekv sn ops rq k v)
        (\<lambda>_. pending F base lim sn rq R C M KV_NODE 0 (a # acts) xs)"
      by (rule pending_purgekv [OF assms]) (simp add: less)
    then show ?thesis using less c by (simp add: Let_def) (erule hoare_bindE, simp add: hoare_def)
  next
    case greater
    have "succeeds (pending F base lim sn rq R C M KV_NODE 0 (a # acts) ((k, v) # xs)) (do_action sn ops rq a None)
        (\<lambda>_. pending F base lim sn rq R C M KV_NODE 0 acts ((k, v) # xs))"
      by (rule pending_do_action [OF assms]) (use greater in auto)
    from hoare_bindE [OF this Cons.IH] show ?thesis using greater c by (simp add: Let_def)
  next
    case equal
    show ?thesis
    proof (cases "is_fetch a")
      case True
      have "succeeds (pending F base lim sn rq R C M KV_NODE 0 (a # acts) ((k, v) # xs)) (do_action sn ops rq a (Some v))
          (\<lambda>_. pending F base lim sn rq R C M KV_NODE 0 acts ((k, v) # xs))"
        by (rule pending_do_action [OF assms]) (use equal True in auto)
      from hoare_bindE [OF this Cons.IH] show ?thesis
        using equal c True by (cases a) (simp_all add: Let_def is_fetch_def)
    next
      case False
      have "succeeds (pending F base lim sn rq R C M KV_NODE 0 (a # acts) ((k, v) # xs)) (do_action sn ops rq a (Some v))
          (\<lambda>_. pending F base lim sn rq R C M KV_NODE 0 acts xs)"
        by (rule pending_do_action [OF assms]) (use equal False in auto)
      then show ?thesis
        using equal c False
        by (cases a) (simp_all add: Let_def is_fetch_def, (erule hoare_bindE, simp add: hoare_def)+)
    qed
  qed
qed

lemma pending_kv_items:
  assumes "modifies sn rq base lim"
  shows "succeeds (pending F base lim sn rq R C M KV_NODE 0 acts xs) (modify_kv_items sn ops rq (map Some xs) acts)
    (\<lambda>acts'. pending F base lim sn rq R C M KV_NODE 0 acts' [])"
proof (induction xs arbitrary: acts)
  case Nil
  show ?case by (simp add: hoare_def)
next
  case (Cons x xs)
  obtain k v where x: "x = (k, v)" by fastforce
  show ?case unfolding x by simp (rule hoare_bindE [OF pending_kv_item [OF assms] Cons.IH])
qed

lemma pending_trailing:
  assumes "modifies sn rq base lim"
  shows "succeeds (pending F base lim sn rq R C M KV_NODE 0 acts []) (trailing_actions sn ops rq acts)
    (\<lambda>_. pending F base lim sn rq R C M KV_NODE 0 [] [])"
proof (induction acts)
  case Nil
  show ?case by (simp add: hoare_def)
next
  case (Cons a acts)
  have "succeeds (pending F base lim sn rq R C M KV_NODE 0 (a # acts) []) (do_action sn ops rq a None)
      (\<lambda>_. pending F base lim sn rq R C M KV_NODE 0 acts [])"
    by (rule pending_do_action [OF assms]) auto
  from hoare_bindE [OF this Cons.IH] show ?case by simp
qed

lemma holding_flush:
  assumes "modifies sn rq base lim"
  shows "succeeds (holding F base lim sn rq c ty md d xs) (flush_mr sn ops rq)
    (\<lambda>_ s. holding F base lim sn rq c ty md d xs s \<and> (md \<longrightarrow> mr_values (ms_res s) = []))"
proof (rule succeedsI)
  fix s assume h: "holding F base lim sn rq c ty md d xs s"
  then have b: "building F base lim sn rq c ty md (2 ^ 20 + 2 ^ 29) d xs s" by (auto simp: holding_def filling_def)
  show "\<exists>a s'. flush_mr sn ops rq s = (Inr a, s') \<and> holding F base lim sn rq c ty md d xs s' \<and>
      (md \<longrightarrow> mr_values (ms_res s') = [])"
  proof (cases md)
    case True
    then have w: "building F base lim sn rq c ty True (2 ^ 20 + 2 ^ 29) d xs s \<and> weight (ms_res s) \<le> weight (ms_res s)"
      using b by simp
    obtain s' where "flush_mr sn ops rq s = (Inr (), s')"
        "building F base lim sn rq c ty True (2 ^ 20 + 2 ^ 29) d xs s'" "mr_values (ms_res s') = []"
      using succeedsE [OF flush_mr_calm [OF modifiesD(1-3) [OF assms]] w] by auto
    then show ?thesis using True by (auto simp: holding_def filling_def)
  next
    case False
    then show ?thesis using b h by (simp add: flush_mr_def flush_mr_partial_def building_def)
  qed
qed

text \<open>All done.\<close>

lemma pending_done:
  "pending F base lim sn rq R C M ty d [] [] s \<Longrightarrow> holding F base lim sn rq C ty M d R s"
  by (auto simp: pending_def)

lemma modify_leaf_calm:
  assumes "modifies sn rq base lim" and "\<forall>x\<in>set xs. item_good x"
  shows "succeeds (pending F base lim sn rq R C M KV_NODE 0 acts xs) (modify_leaf sn ops rq (node_body xs) acts)
    (\<lambda>_ s. holding F base lim sn rq C KV_NODE M 0 R s \<and> (M \<longrightarrow> mr_values (ms_res s) = []))"
proof -
  have "kv_items (node_body xs) = map Some xs"
    using assms(2) by (intro kv_items_node_body) (auto simp: item_good_def)
  moreover have "succeeds (pending F base lim sn rq R C M KV_NODE 0 [] []) (flush_mr sn ops rq)
    (\<lambda>_ s. holding F base lim sn rq C KV_NODE M 0 R s \<and> (M \<longrightarrow> mr_values (ms_res s) = []))"
    using holding_flush [OF assms(1)] by (rule hoare_conseq) (auto dest: pending_done)
  ultimately show ?thesis
    unfolding modify_leaf_def
    by (simp only:) (rule hoare_bindE [OF pending_kv_items [OF assms(1)]],
      rule hoare_bindE [OF pending_trailing [OF assms(1)]])
qed

subsection \<open>An inner node\<close>

lemma pending_read_pointer:
  assumes "ptr_fits p" and "np_key p = k" and "v = raw_node_pointer p"
  shows "succeeds (pending F base lim sn rq R C M ty d acts xs) (read_pointer_in ops k v)
    (\<lambda>q s. pending F base lim sn rq R C M ty d acts xs s \<and> q = p)"
proof -
  have "succeeds (pending F base lim sn rq R C M ty d acts xs) (allocE ops)
      (\<lambda>_. pending F base lim sn rq R C M ty d acts xs)"
    by (rule pending_step [where log = "[]" and upd = False and out = "[]"])
      (use holding_lift [OF allocE_filling] in auto)
  moreover have "read_pointer k v = Some p" using assms by auto
  ultimately show ?thesis
    unfolding read_pointer_in_def by (elim hoare_bindE) (simp add: hoare_def)
qed

lemma pending_push_pointer:
  assumes "modifies sn rq base lim" and "0 < d" and "sub_tree lim sn F (d - 1) p t" and "np_key p = fst (last (items t))"
    and "updated cmp acts (items t @ xs) = items t @ updated cmp acts xs"
    and "fetches cmp acts (items t @ xs) = fetches cmp acts xs"
  shows "succeeds (pending F base lim sn rq R C M KP_NODE d acts (items t @ xs)) (maybe_purgekp purge sn ops rq p)
    (\<lambda>_. pending F base lim sn rq R C M KP_NODE d acts xs)"
proof -
  have "succeeds (pending F base lim sn rq R C M KP_NODE d acts (items t @ xs)) (mr_push_pointerinfo sn ops rq p)
      (\<lambda>_. pending F base lim sn rq R C M KP_NODE d acts xs)"
    by (rule pending_step [OF _ assms(5), where log = "[]" and upd = False])
      (use holding_push_pointer [OF assms(1-4)] assms(6) in auto)
  moreover have "maybe_purgekp purge sn ops rq p s = mr_push_pointerinfo sn ops rq p s"
    if "pending F base lim sn rq R C M KP_NODE d acts (items t @ xs) s" for s
  proof -
    have "\<not> ms_purging s" using that by (auto simp: pending_def holding_def filling_def building_def)
    then show ?thesis by (simp add: maybe_purgekp_def split: option.splits)
  qed
  ultimately show ?thesis by (simp add: hoare_def)
qed

text \<open>The children of an inner node, and what descending into one of them does.\<close>

definition kids_ok :: "'h tree_file \<Rightarrow> nat \<Rightarrow> snappy \<Rightarrow> nat \<Rightarrow> (node_pointer \<times> btree) list \<Rightarrow> bool" where
  "kids_ok F lim sn d ts \<longleftrightarrow>
     (\<forall>pt\<in>set ts. ptr_fits (fst pt) \<and> sub_tree lim sn F (d - 1) (fst pt) (snd pt) \<and>
        np_key (fst pt) = fst (last (items (snd pt))))"

definition kids_items :: "(node_pointer \<times> btree) list \<Rightarrow> (sized_buf \<times> sized_buf) list" where
  "kids_items ts = concat (map (\<lambda>pt. items (snd pt)) ts)"

definition descends :: "'h tree_file \<Rightarrow> nat \<Rightarrow> nat \<Rightarrow> snappy \<Rightarrow> 'c modify_request \<Rightarrow> nat \<Rightarrow>
    (node_pointer \<Rightarrow> modify_action list \<Rightarrow> (('h, 'c) modify_state, unit) cmd) \<Rightarrow> node_pointer \<times> btree \<Rightarrow> bool" where
  "descends F base lim sn rq d descend pt \<longleftrightarrow>
     (\<forall>acts ys c md. acts \<noteq> [] \<longrightarrow> (\<forall>a\<in>set acts. action_good a) \<longrightarrow>
        length ys + length acts + length (items (snd pt)) < 2 ^ 31 \<longrightarrow>
        succeeds (holding F base lim sn rq c KP_NODE md d ys) (descend (fst pt) acts)
          (\<lambda>_. holding F base lim sn rq (run_fetches rq (fetches cmp acts (items (snd pt))) c) KP_NODE
             (md \<or> has_update acts) d (ys @ updated cmp acts (items (snd pt)))))"

lemma kids_items_simps [simp]:
  "kids_items [] = []" "kids_items (pt # ts) = items (snd pt) @ kids_items ts"
  by (simp_all add: kids_items_def)

lemma length_updated: "length (updated cmp' acts xs) \<le> length acts + length xs"
proof (induction cmp' acts xs rule: updated.induct)
  case (3 cmp a as x xs)
  then show ?case using length_inserted [of a] by auto
qed (use length_inserted in \<open>auto intro: order_trans add_mono\<close>)

lemma pending_descend:
  assumes "descends F base lim sn rq d descend pt" and "acts1 \<noteq> []" and "\<forall>a\<in>set acts1. action_good a"
    and "updated cmp (acts1 @ acts2) (items (snd pt) @ xs) = updated cmp acts1 (items (snd pt)) @ updated cmp acts2 xs"
    and "fetches cmp (acts1 @ acts2) (items (snd pt) @ xs) = fetches cmp acts1 (items (snd pt)) @ fetches cmp acts2 xs"
  shows "succeeds (pending F base lim sn rq R C M KP_NODE d (acts1 @ acts2) (items (snd pt) @ xs)) (descend (fst pt) acts1)
    (\<lambda>_. pending F base lim sn rq R C M KP_NODE d acts2 xs)"
proof (rule pending_step [OF _ assms(4,5), where upd = "has_update acts1"])
  fix ys :: "(sized_buf \<times> sized_buf) list" and c md
  assume "length ys + length (acts1 @ acts2) + length (items (snd pt) @ xs) < 2 ^ 31"
  then show "succeeds (holding F base lim sn rq c KP_NODE md d ys) (descend (fst pt) acts1)
      (\<lambda>_. holding F base lim sn rq (run_fetches rq (fetches cmp acts1 (items (snd pt))) c) KP_NODE
         (md \<or> has_update acts1) d (ys @ updated cmp acts1 (items (snd pt))))"
    using assms(1-3) unfolding descends_def by (elim allE [of _ acts1] allE [of _ ys] allE [of _ c] allE [of _ md]) simp
qed (use length_updated [of cmp acts1 "items (snd pt)"] in auto)

lemma purge_kp_items_ptr:
  "purge_kp_items purge sn ops rq (Some (ptr_item p) # xs) =
     bindE (read_pointer_in ops (np_key p) (raw_node_pointer p)) (\<lambda>desc.
       bindE (maybe_purgekp purge sn ops rq desc) (\<lambda>_. purge_kp_items purge sn ops rq xs))"
  by (simp add: ptr_item_def)

lemma modify_kp_items_ptr:
  "modify_kp_items descend purge sn ops rq (Some (ptr_item p) # xs) [] =
     purge_kp_items purge sn ops rq (Some (ptr_item p) # xs)"
  "modify_kp_items descend purge sn ops rq [Some (ptr_item p)] (a # as) =
     bindE (read_pointer_in ops (np_key p) (raw_node_pointer p)) (\<lambda>desc. descend desc (a # as))"
  "xs \<noteq> [] \<Longrightarrow> rq_compare rq (np_key p) (action_key a) < 0 \<Longrightarrow>
     modify_kp_items descend purge sn ops rq (Some (ptr_item p) # xs) (a # as) =
       bindE (read_pointer_in ops (np_key p) (raw_node_pointer p)) (\<lambda>add.
         bindE (maybe_purgekp purge sn ops rq add) (\<lambda>_.
           modify_kp_items descend purge sn ops rq xs (a # as)))"
  "xs \<noteq> [] \<Longrightarrow> \<not> rq_compare rq (np_key p) (action_key a) < 0 \<Longrightarrow>
     seg = takeWhile (\<lambda>b. rq_compare rq (action_key b) (np_key p) \<le> 0) (a # as) \<Longrightarrow>
     modify_kp_items descend purge sn ops rq (Some (ptr_item p) # xs) (a # as) =
       bindE (read_pointer_in ops (np_key p) (raw_node_pointer p)) (\<lambda>desc.
         bindE (descend desc seg) (\<lambda>_.
           modify_kp_items descend purge sn ops rq xs (drop (length seg) (a # as))))"
  by (simp_all add: ptr_item_def Let_def)

lemma pending_purge_kp:
  assumes "modifies sn rq base lim" and "0 < d"
  shows "kids_ok F lim sn d ts \<Longrightarrow>
    succeeds (pending F base lim sn rq R C M KP_NODE d [] (kids_items ts))
      (purge_kp_items purge sn ops rq (map (\<lambda>pt. Some (ptr_item (fst pt))) ts))
      (\<lambda>_. pending F base lim sn rq R C M KP_NODE d [] [])"
proof (induction ts)
  case Nil
  show ?case by (simp add: hoare_def)
next
  case (Cons pt ts)
  then have pt: "ptr_fits (fst pt)" "sub_tree lim sn F (d - 1) (fst pt) (snd pt)"
      "np_key (fst pt) = fst (last (items (snd pt)))" and ts: "kids_ok F lim sn d ts"
    by (simp_all add: kids_ok_def)
  have push: "succeeds (pending F base lim sn rq R C M KP_NODE d [] (items (snd pt) @ kids_items ts))
      (maybe_purgekp purge sn ops rq (fst pt)) (\<lambda>_. pending F base lim sn rq R C M KP_NODE d [] (kids_items ts))"
    by (rule pending_push_pointer [OF assms pt(2,3)]) simp_all
  show ?case
    unfolding list.map kids_items_simps purge_kp_items_ptr
    by (rule hoare_bindE_keep [OF pending_read_pointer [OF pt(1) refl refl]])
      (simp only:, rule hoare_bindE [OF push Cons.IH [OF ts]])
qed

lemma kids_order:
  assumes "kids_ok F lim sn d (pt # ts)" and "sorted_items cmp (kids_items (pt # ts))"
  shows "\<forall>y\<in>set (items (snd pt)). cmp (fst y) (np_key (fst pt)) \<le> 0"
    and "\<forall>z\<in>set (kids_items ts). cmp (np_key (fst pt)) (fst z) < 0"
proof -
  have "bt_wf (snd pt)" using assms(1) by (simp add: kids_ok_def sub_tree_def)
  from items_nonempty [OF this] show "\<forall>y\<in>set (items (snd pt)). cmp (fst y) (np_key (fst pt)) \<le> 0"
      "\<forall>z\<in>set (kids_items ts). cmp (np_key (fst pt)) (fst z) < 0"
    using assms sorted_items_last [of "items (snd pt)"] by (auto simp: kids_ok_def sorted_items_append)
qed

lemma pending_kp_items:
  assumes "modifies sn rq base lim" and "0 < d"
  shows "kids_ok F lim sn d ts \<Longrightarrow> \<forall>pt\<in>set ts. descends F base lim sn rq d descend pt \<Longrightarrow>
    sorted_items cmp (kids_items ts) \<Longrightarrow> \<forall>a\<in>set acts. action_good a \<Longrightarrow> ts \<noteq> [] \<or> acts = [] \<Longrightarrow>
    succeeds (pending F base lim sn rq R C M KP_NODE d acts (kids_items ts))
      (modify_kp_items descend purge sn ops rq (map (\<lambda>pt. Some (ptr_item (fst pt))) ts) acts)
      (\<lambda>_. pending F base lim sn rq R C M KP_NODE d [] [])"
proof (induction ts arbitrary: acts)
  case Nil
  then show ?case by (simp add: hoare_def)
next
  case (Cons pt ts)
  let ?k = "np_key (fst pt)"
  have pt: "ptr_fits (fst pt)" "sub_tree lim sn F (d - 1) (fst pt) (snd pt)" "?k = fst (last (items (snd pt)))"
    and ts: "kids_ok F lim sn d ts" "sorted_items cmp (kids_items ts)"
      "\<forall>pt\<in>set ts. descends F base lim sn rq d descend pt"
    and ds: "descends F base lim sn rq d descend pt"
    using Cons.prems by (simp_all add: kids_ok_def sorted_items_append)
  note order = kids_order [OF Cons.prems(1,3)] and c = modifiesD(4) [OF assms(1)]
  note rd = hoare_bindE_keep [OF pending_read_pointer [OF pt(1) refl refl]]
  show ?case
  proof (cases acts)
    case Nil
    then show ?thesis
      using pending_purge_kp [OF assms Cons.prems(1)] by (simp only: list.map modify_kp_items_ptr)
  next
    case acts: (Cons a as)
    show ?thesis
    proof (cases "ts = []")
      case True
      have "succeeds (pending F base lim sn rq R C M KP_NODE d (acts @ []) (items (snd pt) @ []))
          (descend (fst pt) acts) (\<lambda>_. pending F base lim sn rq R C M KP_NODE d [] [])"
        by (rule pending_descend [OF ds]) (use acts Cons.prems(4) in simp_all)
      then have "succeeds (pending F base lim sn rq R C M KP_NODE d acts (kids_items (pt # ts)))
          (descend (fst pt) acts) (\<lambda>_. pending F base lim sn rq R C M KP_NODE d [] [])"
        using True by simp
      then show ?thesis
        unfolding True list.map unfolding acts modify_kp_items_ptr by (intro rd) (simp only:)
    next
      case ne: False
      show ?thesis
      proof (cases "cmp ?k (action_key a) < 0")
        case True
        have push: "succeeds (pending F base lim sn rq R C M KP_NODE d acts (items (snd pt) @ kids_items ts))
            (maybe_purgekp purge sn ops rq (fst pt)) (\<lambda>_. pending F base lim sn rq R C M KP_NODE d acts (kids_items ts))"
          using updated_behind [OF _ order(1), of acts] True acts
          by (intro pending_push_pointer [OF assms pt(2,3)]) (simp_all add: cmp_neg_iff)
        have rest: "succeeds (pending F base lim sn rq R C M KP_NODE d acts (kids_items ts))
            (modify_kp_items descend purge sn ops rq (map (\<lambda>pt. Some (ptr_item (fst pt))) ts) acts)
            (\<lambda>_. pending F base lim sn rq R C M KP_NODE d [] [])"
          by (rule Cons.IH [OF ts(1,3,2)]) (use ne Cons.prems(4) in simp_all)
        have ne': "map (\<lambda>pt. Some (ptr_item (fst pt))) ts \<noteq> []"
            and lt: "rq_compare rq ?k (action_key a) < 0"
          using ne True c by simp_all
        show ?thesis
          using hoare_bindE [OF push rest]
          unfolding list.map kids_items_simps acts modify_kp_items_ptr(3) [OF ne' lt]
          by (intro rd) (simp only:)
      next
        case False
        define seg where "seg = takeWhile (\<lambda>b. cmp (action_key b) ?k \<le> 0) acts"
        define after where "after = dropWhile (\<lambda>b. cmp (action_key b) ?k \<le> 0) acts"
        have ra: "seg @ after = acts" by (simp add: seg_def after_def)
        have seg: "seg \<noteq> []" using False acts cmp_le_iff [of "action_key a" ?k] by (simp add: seg_def)
        have behind: "after = [] \<or> 0 < cmp (action_key (hd after)) ?k"
          using hd_dropWhile [of "\<lambda>b. cmp (action_key b) ?k \<le> 0" acts] unfolding after_def by linarith
        have upto: "\<forall>b\<in>set seg. cmp (action_key b) ?k \<le> 0" unfolding seg_def by (blast dest: set_takeWhileD)
        have good: "\<forall>b\<in>set seg. action_good b" "\<forall>b\<in>set after. action_good b"
          using Cons.prems(4) unfolding ra [symmetric] by auto
        have sp: "updated cmp (seg @ after) (items (snd pt) @ kids_items ts) =
              updated cmp seg (items (snd pt)) @ updated cmp after (kids_items ts)"
            "fetches cmp (seg @ after) (items (snd pt) @ kids_items ts) =
              fetches cmp seg (items (snd pt)) @ fetches cmp after (kids_items ts)"
          using updated_split [OF behind order(2) upto order(1)] by blast+
        have "succeeds (pending F base lim sn rq R C M KP_NODE d (seg @ after) (items (snd pt) @ kids_items ts))
            (descend (fst pt) seg) (\<lambda>_. pending F base lim sn rq R C M KP_NODE d after (kids_items ts))"
          by (rule pending_descend [OF ds seg good(1) sp])
        moreover have "succeeds (pending F base lim sn rq R C M KP_NODE d after (kids_items ts))
            (modify_kp_items descend purge sn ops rq (map (\<lambda>pt. Some (ptr_item (fst pt))) ts) after)
            (\<lambda>_. pending F base lim sn rq R C M KP_NODE d [] [])"
          by (rule Cons.IH [OF ts(1,3,2) good(2)]) (simp add: ne)
        ultimately have "succeeds (pending F base lim sn rq R C M KP_NODE d acts (items (snd pt) @ kids_items ts))
            (bindE (descend (fst pt) seg) (\<lambda>_. modify_kp_items descend purge sn ops rq
              (map (\<lambda>pt. Some (ptr_item (fst pt))) ts) after)) (\<lambda>_. pending F base lim sn rq R C M KP_NODE d [] [])"
          unfolding ra by (rule hoare_bindE)
        moreover have ne': "map (\<lambda>pt. Some (ptr_item (fst pt))) ts \<noteq> []"
            and ge: "\<not> rq_compare rq ?k (action_key a) < 0"
            and rg: "seg = takeWhile (\<lambda>b. rq_compare rq (action_key b) ?k \<le> 0) (a # as)"
          using ne False c acts by (simp_all add: seg_def)
        moreover have "drop (length seg) acts = after" by (simp add: seg_def after_def)
        ultimately show ?thesis
          using modify_kp_items_ptr(4) [OF ne' ge rg] unfolding list.map kids_items_simps acts
          by (simp only:) (intro rd, simp only:)
      qed
    qed
  qed
qed

subsection \<open>A node\<close>

lemma holding_mono: "holding G base lim sn rq c ty md d xs s \<Longrightarrow> grown F G \<Longrightarrow> holding F base lim sn rq c ty md d xs s"
  by (auto simp: holding_def filling_def building_def intro: grown_trans)

lemma holding_snapshot: "holding F base lim sn rq c ty md d xs s \<Longrightarrow> holding (ms_file s) base lim sn rq c ty md d xs s"
  by (auto simp: holding_def intro: filling_snapshot)

lemma holdingD:
  assumes "holding F base lim sn rq c ty md d xs s"
  shows "grown F (ms_file s)" and "ready (ms_file s)" and "calm (tf_handle (ms_file s))"
    and "length xs < 2 ^ 31" and "ms_ctx s = c"
  using assms by (auto simp: holding_def filling_def building_def intro: grown_ready)

lemma holding_grown:
  "holding F base lim sn rq c ty md d xs s \<Longrightarrow> grown (ms_file s) f' \<Longrightarrow> calm (tf_handle f') \<Longrightarrow>
     holding F base lim sn rq c ty md d xs (s\<lparr>ms_file := f'\<rparr>)"
  unfolding holding_def by (blast intro: filling_grown)

text \<open>The tree the file holds below the pointer \<open>p\<close>.\<close>

definition tree_in :: "'h tree_file \<Rightarrow> snappy \<Rightarrow> nat \<Rightarrow> node_pointer \<Rightarrow> btree \<Rightarrow> bool" where
  "tree_in F sn d p t \<longleftrightarrow>
     on_disk sn (content (tf_handle F)) (unat (np_pointer p)) t \<and> unat (np_pointer p) < 2 ^ 48 \<and>
     bt_wf t \<and> bt_balanced d t \<and> reduce_wf reduction t \<and> (\<forall>x\<in>set (items t). item_good x) \<and>
     np_reduce_value p = reduction (items t)"

lemma tree_in_sub_tree: "tree_in F sn d p t \<Longrightarrow> sub_tree lim sn F d p t"
  by (simp add: tree_in_def sub_tree_def)

lemma tree_in_grown: "tree_in F sn d p t \<Longrightarrow> grown F G \<Longrightarrow> tree_in G sn d p t"
  by (auto simp: tree_in_def grown_def intro: on_disk_mono)

lemma tree_in_kids:
  assumes "tree_in F sn d p (KP ts)" and "pt \<in> set ts"
  shows "tree_in F sn (d - 1) (fst pt) (snd pt)" and "np_key (fst pt) = fst (last (items (snd pt)))"
    and "ptr_fits (fst pt)" and "kv_fits (np_key (fst pt)) (raw_node_pointer (fst pt))"
  using assms by (auto simp: tree_in_def ptr_fits_def)

fun node_bytes :: "btree \<Rightarrow> byte list" where
  "node_bytes (KV xs) = 1 # node_body xs"
| "node_bytes (KP ts) = 0 # node_body (map (\<lambda>pt. ptr_item (fst pt)) ts)"

lemma read_node_calm:
  assumes "holding F base lim sn rq c ty md d xs s" and "tree_in F sn d' p t"
  shows "\<exists>s'. read_node sn ops p s = (Inr (node_bytes t), s') \<and> holding F base lim sn rq c ty md d xs s'"
proof -
  note h = holdingD [OF assms(1)]
  have "disk_compressed sn (content (tf_handle (ms_file s))) (unat (np_pointer p)) = Some (node_bytes t)"
    using assms(2) h(1) by (cases t) (auto simp: tree_in_def intro: grown_compressed)
  moreover have "inv (tf_handle (ms_file s))" using h(2) by (simp add: ready_def can_write_def)
  ultimately obtain h' where h': "pread_compressed sn ops (unat (np_pointer p)) (tf_handle (ms_file s)) = (Inr (node_bytes t), h')"
      "calm h'" "reads (tf_handle (ms_file s)) h'"
    using pread_compressed_calm h(3) by blast
  have "holding F base lim sn rq c ty md d xs (s\<lparr>ms_file := (ms_file s)\<lparr>tf_handle := h'\<rparr>\<rparr>)"
    by (rule holding_grown [OF assms(1) reads_grown [OF h(2) h'(3)]]) (simp add: h'(2))
  then show ?thesis using h'(1) by (simp add: read_node_def on_file_def zoomE_def on_handle_app)
qed

text \<open>What \<open>modify_local\<close> hands to \<open>give_back\<close>.\<close>

definition local_done :: "nat \<Rightarrow> snappy \<Rightarrow> 'h tree_file \<Rightarrow> nat \<Rightarrow> (sized_buf \<times> sized_buf) list \<Rightarrow> bool \<Rightarrow> modify_result \<Rightarrow> bool" where
  "local_done lim sn f d R M r \<longleftrightarrow> mr_modified r = M \<and>
     (\<exists>yss zs. list_all2 (elem_ok lim sn f KP_NODE (Suc d)) (mr_pointers r) yss \<and> concat yss @ zs = R \<and>
        (M \<longrightarrow> zs = []))"

lemma holding_local:
  assumes "holding F base lim sn rq c ty md d xs s" and "modifies sn rq base lim"
  shows "holding (ms_file s) base lim sn rq c ty' False d' [] (s\<lparr>ms_res := empty_modres ty'\<rparr>)"
  using assms grown_refl [OF holdingD(2) [OF assms(1)]]
  by (auto simp: holding_def filling_def building_def mr_ok_def bounded_node_def empty_modres_def modifies_def)

lemma with_local_calm:
  assumes "holding F base lim sn rq c ty md d xs s"
    and "\<exists>a s'. m (s\<lparr>ms_res := r\<rparr>) = (Inr a, s') \<and> holding (ms_file s) base lim sn rq c' ty' M d' R s' \<and>
      (M \<longrightarrow> mr_values (ms_res s') = [])"
  shows "\<exists>r' s'. with_local r m s = (Inr r', s') \<and> holding F base lim sn rq c' ty md d xs s' \<and>
    local_done lim sn (ms_file s') d' R M r'"
proof -
  obtain a s' where s': "m (s\<lparr>ms_res := r\<rparr>) = (Inr a, s')" "holding (ms_file s) base lim sn rq c' ty' M d' R s'"
      "M \<longrightarrow> mr_values (ms_res s') = []"
    using assms(2) by blast
  obtain n where n: "filling F base lim sn rq c ty md n d xs s" using assms(1) by (auto simp: holding_def)
  note h = holdingD [OF s'(2)]
  have "filling F base lim sn rq c' ty md n d xs (s'\<lparr>ms_res := ms_res s\<rparr>)"
    using n filling_grown [OF n h(1,3)] s'(2)
    by (auto simp: filling_def building_def holding_def)
  moreover have "local_done lim sn (ms_file s') d' R M (ms_res s')"
    using s'(2,3) unfolding local_done_def holding_def filling_def building_def mr_ok_def
    by (elim exE conjE) (intro conjI exI, assumption+, auto)
  moreover have "with_local r m s = (Inr (ms_res s'), s'\<lparr>ms_res := ms_res s\<rparr>)"
    using s'(1) by (simp add: with_local_def)
  ultimately show ?thesis unfolding holding_def by auto
qed

text \<open>The node's content can be worked on: a leaf, or an inner node into whose children the code can descend.\<close>

definition workable :: "'h tree_file \<Rightarrow> nat \<Rightarrow> nat \<Rightarrow> snappy \<Rightarrow> 'c modify_request \<Rightarrow> nat \<Rightarrow>
    (node_pointer \<Rightarrow> modify_action list \<Rightarrow> (('h, 'c) modify_state, unit) cmd) \<Rightarrow> btree \<Rightarrow> bool" where
  "workable F base lim sn rq d descend t \<longleftrightarrow>
     (case t of
        KV xs \<Rightarrow> d = 0 \<and> (\<forall>x\<in>set xs. item_good x)
      | KP ts \<Rightarrow> 0 < d \<and> ts \<noteq> [] \<and> kids_ok F lim sn d ts \<and>
          (\<forall>pt\<in>set ts. kv_fits (np_key (fst pt)) (raw_node_pointer (fst pt)) \<and> (\<forall>x\<in>set (items (snd pt)). item_good x) \<and>
             descends F base lim sn rq d descend pt))"

lemma make_modres_holding:
  assumes "holding F base lim sn rq c ty md d xs s"
  shows "\<exists>s'. make_modres ops ty' s = (Inr (empty_modres ty'), s') \<and> holding F base lim sn rq c ty md d xs s'"
proof -
  obtain n where n: "filling F base lim sn rq c ty md n d xs s" using assms by (auto simp: holding_def)
  obtain a s' where "make_modres ops ty' s = (Inr a, s')" "filling F base lim sn rq c ty md n d xs s' \<and> a = empty_modres ty'"
    by (rule succeedsE [OF make_modres_filling n])
  then show ?thesis by (auto simp: holding_def)
qed

lemma start_pending:
  assumes "holding F base lim sn rq c ty md d xs s" and "modifies sn rq base lim"
    and "\<forall>a\<in>set acts. action_good a" and "\<forall>x\<in>set ys. item_good x" and "length acts + length ys < 2 ^ 31"
  shows "pending (ms_file s) base lim sn rq (updated cmp acts ys) (run_fetches rq (fetches cmp acts ys) c)
    (has_update acts) ty' d' acts ys (s\<lparr>ms_res := empty_modres ty'\<rparr>)"
  unfolding pending_def using holding_local [OF assms(1,2)] assms(3-5)
  by (intro conjI exI [of _ "[]"] exI [of _ c] exI [of _ False]) simp_all

lemma modify_inner_calm:
  assumes "modifies sn rq base lim" and "workable F base lim sn rq d descend (KP ts)"
    and "sorted_items cmp (kids_items ts)" and "\<forall>a\<in>set acts. action_good a"
  shows "succeeds (pending F base lim sn rq R C M KP_NODE d acts (kids_items ts))
    (bindE (modify_kp_items descend purge sn ops rq (kv_items (node_body (map (\<lambda>pt. ptr_item (fst pt)) ts))) acts)
       (\<lambda>_. flush_mr sn ops rq))
    (\<lambda>_ s. holding F base lim sn rq C KP_NODE M d R s \<and> (M \<longrightarrow> mr_values (ms_res s) = []))"
proof -
  have "kv_items (node_body (map (\<lambda>pt. ptr_item (fst pt)) ts)) = map Some (map (\<lambda>pt. ptr_item (fst pt)) ts)"
    using assms(2) by (intro kv_items_node_body) (auto simp: workable_def ptr_item_def)
  then have k: "kv_items (node_body (map (\<lambda>pt. ptr_item (fst pt)) ts)) = map (\<lambda>pt. Some (ptr_item (fst pt))) ts"
    by (simp add: comp_def)
  have w: "0 < d" "kids_ok F lim sn d ts" "\<forall>pt\<in>set ts. descends F base lim sn rq d descend pt" "ts \<noteq> [] \<or> acts = []"
    using assms(2) by (simp_all add: workable_def)
  have "succeeds (pending F base lim sn rq R C M KP_NODE d [] []) (flush_mr sn ops rq)
    (\<lambda>_ s. holding F base lim sn rq C KP_NODE M d R s \<and> (M \<longrightarrow> mr_values (ms_res s) = []))"
    using holding_flush [OF assms(1)] by (rule hoare_conseq) (auto dest: pending_done)
  then show ?thesis
    unfolding k by (intro hoare_bindE [OF pending_kp_items [OF assms(1) w(1,2,3) assms(3,4) w(4)]])
qed

lemma modify_local_calm:
  assumes h: "holding F base lim sn rq c ty md d xs s" and m: "modifies sn rq base lim"
    and w: "\<And>G. grown F G \<Longrightarrow> workable G base lim sn rq d' descend t"
    and sorted: "sorted_items cmp (items t)" and good: "\<forall>a\<in>set acts. action_good a"
    and len: "length acts + length (items t) < 2 ^ 31"
  shows "\<exists>r s'. modify_local descend purge sn ops rq (node_bytes t) acts s = (Inr r, s') \<and>
    holding F base lim sn rq (run_fetches rq (fetches cmp acts (items t)) c) ty md d xs s' \<and>
    local_done lim sn (ms_file s') d' (updated cmp acts (items t)) (has_update acts) r"
proof -
  let ?R = "updated cmp acts (items t)" and ?C = "run_fetches rq (fetches cmp acts (items t)) c"
  obtain s1 where s1: "make_modres ops KP_NODE s = (Inr (empty_modres KP_NODE), s1)"
      "holding F base lim sn rq c ty md d xs s1"
    using make_modres_holding [OF h] by blast
  have wk: "workable (ms_file s1) base lim sn rq d' descend t" by (rule w [OF holdingD(1) [OF s1(2)]])
  have gt: "\<forall>x\<in>set (items t). item_good x" using wk by (cases t) (auto simp: workable_def)
  note st = start_pending [OF s1(2) m good gt len]
  have ty: "(empty_modres KP_NODE)\<lparr>mr_node_type := ty'\<rparr> = empty_modres ty'" for ty' by (simp add: empty_modres_def)
  show ?thesis
  proof (cases t)
    case (KV ys)
    then have d: "d' = 0" and ys: "\<forall>x\<in>set ys. item_good x" using wk by (simp_all add: workable_def)
    have "\<exists>a s'. modify_leaf sn ops rq (node_body ys) acts (s1\<lparr>ms_res := empty_modres KV_NODE\<rparr>) = (Inr a, s') \<and>
        holding (ms_file s1) base lim sn rq ?C KV_NODE (has_update acts) 0 ?R s' \<and> (has_update acts \<longrightarrow> mr_values (ms_res s') = [])"
      using st [of KV_NODE 0] unfolding KV items.simps by (rule succeedsD [OF modify_leaf_calm [OF m ys]])
    from with_local_calm [where m = "modify_leaf sn ops rq (node_body ys) acts" and r = "empty_modres KV_NODE", OF s1(2) this]
    show ?thesis
      using s1(1) KV d by (simp add: modify_local_def bindE_def ty)
  next
    case (KP ts)
    then have it: "items t = kids_items ts" by (simp add: kids_items_def)
    let ?m = "bindE (modify_kp_items descend purge sn ops rq (kv_items (node_body (map (\<lambda>pt. ptr_item (fst pt)) ts))) acts)
          (\<lambda>_. flush_mr sn ops rq)"
    have "\<exists>a s'. ?m (s1\<lparr>ms_res := empty_modres KP_NODE\<rparr>) = (Inr a, s') \<and>
        holding (ms_file s1) base lim sn rq ?C KP_NODE (has_update acts) d' ?R s' \<and> (has_update acts \<longrightarrow> mr_values (ms_res s') = [])"
      using st [of KP_NODE d'] unfolding it
      by (rule succeedsD [OF modify_inner_calm [OF m wk [unfolded KP] sorted [unfolded it] good]])
    from with_local_calm [where m = ?m and r = "empty_modres KP_NODE", OF s1(2) this] show ?thesis
      using s1(1) KP by (simp add: modify_local_def bindE_Inr [where m = "make_modres ops KP_NODE"] ty)
  qed
qed

lemma give_back_new:
  assumes h: "holding F base lim sn rq c KP_NODE md (Suc d) xs s" and m: "modifies sn rq base lim"
    and l: "local_done lim sn (ms_file s) d R M r" and M: "M \<or> R = []" and len: "length xs + length R < 2 ^ 31"
  shows "\<exists>s'. bindE (modify_res (mr_modified_update (\<lambda>_. True)))
      (\<lambda>_. mr_move_pointers sn ops rq (mr_pointers r)) s = (Inr (), s') \<and>
    holding F base lim sn rq c KP_NODE True (Suc d) (xs @ R) s'"
proof -
  let ?G = "ms_file s"
  obtain yss where yss: "list_all2 (elem_ok lim sn ?G KP_NODE (Suc d)) (mr_pointers r) yss" "concat yss = R"
    using l M by (auto simp: local_done_def)
  have "succeeds (holding ?G base lim sn rq c KP_NODE True (Suc d) xs) (mr_move_pointers sn ops rq (mr_pointers r))
      (\<lambda>_. holding ?G base lim sn rq c KP_NODE True (Suc d) (xs @ R))"
    unfolding yss(2) [symmetric]
    by (rule holding_lift, rule mr_move_pointers_calm [OF modifiesD(1-3) [OF m] yss(1)]) (use len yss(2) in simp)
  from succeedsD [OF hoare_bindE [OF holding_modified this] holding_snapshot [OF h]]
  show ?thesis using holding_mono holdingD(1) [OF h] by fastforce
qed

lemma give_back_child:
  assumes h: "holding F base lim sn rq c KP_NODE md (Suc d) xs s" and m: "modifies sn rq base lim"
    and l: "local_done lim sn (ms_file s) d (updated cmp acts (items t)) (has_update acts) r"
    and t: "sub_tree lim sn F d p t" "np_key p = fst (last (items t))"
    and len: "length xs + length (updated cmp acts (items t)) < 2 ^ 31"
  shows "\<exists>s'. give_back sn ops rq (Some p) r s = (Inr (), s') \<and>
    holding F base lim sn rq c KP_NODE (md \<or> has_update acts) (Suc d) (xs @ updated cmp acts (items t)) s'"
proof (cases "has_update acts")
  case True
  then show ?thesis using give_back_new [OF h m l _ len] l by (simp add: give_back_def local_done_def)
next
  case False
  then have u: "updated cmp acts (items t) = items t" by (rule updated_fetches_only)
  have "succeeds (holding F base lim sn rq c KP_NODE md (Suc d) xs) (mr_push_pointerinfo sn ops rq p)
      (\<lambda>_. holding F base lim sn rq c KP_NODE md (Suc d) (xs @ items t))"
    by (rule holding_push_pointer [OF m]) (use t len u in simp_all)
  from succeedsD [OF succeeds_ignoreE [OF this] h]
  show ?thesis using False l u by (simp add: give_back_def local_done_def)
qed

text \<open>The whole subtree below a pointer.\<close>

lemma workable_tree:
  assumes "tree_in F sn d p t"
    and "\<And>ts pt. t = KP ts \<Longrightarrow> pt \<in> set ts \<Longrightarrow> descends F base lim sn rq d descend pt"
  shows "workable F base lim sn rq d descend t"
proof (cases t)
  case (KV xs)
  then show ?thesis using assms(1) by (simp add: workable_def tree_in_def)
next
  case (KP ts)
  have k: "tree_in F sn (d - 1) (fst pt) (snd pt) \<and> np_key (fst pt) = fst (last (items (snd pt))) \<and>
      ptr_fits (fst pt) \<and> kv_fits (np_key (fst pt)) (raw_node_pointer (fst pt))" if "pt \<in> set ts" for pt
    using tree_in_kids [OF assms(1) [unfolded KP] that] by blast
  have "0 < d" "ts \<noteq> []" using assms(1) KP by (simp_all add: tree_in_def)
  moreover have "kids_ok F lim sn d ts" unfolding kids_ok_def using k tree_in_sub_tree by blast
  moreover have "kv_fits (np_key (fst pt)) (raw_node_pointer (fst pt)) \<and> (\<forall>x\<in>set (items (snd pt)). item_good x) \<and>
      descends F base lim sn rq d descend pt" if "pt \<in> set ts" for pt
    using k [OF that] assms(2) [OF KP that] unfolding tree_in_def by blast
  ultimately show ?thesis by (simp add: workable_def KP)
qed

lemma modify_node_step:
  assumes m: "modifies sn rq base lim" and t: "tree_in F sn d p t" and key: "np_key p = fst (last (items t))"
    and sorted: "sorted_items cmp (items t)"
    and kids: "\<And>G ts pt. grown F G \<Longrightarrow> t = KP ts \<Longrightarrow> pt \<in> set ts \<Longrightarrow>
      descends G base lim sn rq d (\<lambda>p as. modify_node fuel sn ops rq (Some p) as) pt"
  shows "descends F base lim sn rq (Suc d) (\<lambda>p as. modify_node (Suc fuel) sn ops rq (Some p) as) (p, t)"
  unfolding descends_def fst_conv snd_conv
proof (intro allI impI, rule succeedsI)
  fix acts ys c md s
  let ?C = "run_fetches rq (fetches cmp acts (items t)) c"
  assume acts: "acts \<noteq> []" "\<forall>a\<in>set acts. action_good a" and len: "length ys + length acts + length (items t) < 2 ^ 31"
    and h: "holding F base lim sn rq c KP_NODE md (Suc d) ys s"
  obtain s1 where s1: "read_node sn ops p s = (Inr (node_bytes t), s1)" "holding F base lim sn rq c KP_NODE md (Suc d) ys s1"
    using read_node_calm [OF h t] by blast
  have w: "workable G base lim sn rq d (\<lambda>p as. modify_node fuel sn ops rq (Some p) as) t" if "grown F G" for G
    by (rule workable_tree [OF tree_in_grown [OF t that]]) (rule kids [OF that])
  have len': "length acts + length (items t) < 2 ^ 31" using len by simp
  obtain r s2 where s2: "modify_local (\<lambda>p as. modify_node fuel sn ops rq (Some p) as) (\<lambda>p. purge_node fuel sn ops rq (Some p))
        sn ops rq (node_bytes t) acts s1 = (Inr r, s2)"
      "holding F base lim sn rq ?C KP_NODE md (Suc d) ys s2"
      "local_done lim sn (ms_file s2) d (updated cmp acts (items t)) (has_update acts) r"
    using modify_local_calm [OF s1(2) m w sorted acts(2) len'] by blast
  have "length ys + length (updated cmp acts (items t)) < 2 ^ 31" using len length_updated [of cmp acts "items t"] by simp
  then obtain s3 where "give_back sn ops rq (Some p) r s2 = (Inr (), s3)"
      "holding F base lim sn rq ?C KP_NODE (md \<or> has_update acts) (Suc d) (ys @ updated cmp acts (items t)) s3"
    using give_back_child [OF s2(2) m s2(3) tree_in_sub_tree [OF t] key] by blast
  then show "\<exists>a s'. modify_node (Suc fuel) sn ops rq (Some p) acts s = (Inr a, s') \<and>
      holding F base lim sn rq ?C KP_NODE (md \<or> has_update acts) (Suc d) (ys @ updated cmp acts (items t)) s'"
    using acts(1) s1(1) s2(1) by (simp add: bindE_def)
qed

lemma modify_node_calm:
  assumes m: "modifies sn rq base lim"
  shows "tree_in F sn d p t \<Longrightarrow> np_key p = fst (last (items t)) \<Longrightarrow> sorted_items cmp (items t) \<Longrightarrow> height t < fuel \<Longrightarrow>
    descends F base lim sn rq (Suc d) (\<lambda>p as. modify_node fuel sn ops rq (Some p) as) (p, t)"
proof (induction t arbitrary: F d p fuel rule: btree_induct)
  case (KV xs)
  obtain f where f: "fuel = Suc f" using KV.prems(4) by (cases fuel) auto
  show ?case unfolding f by (rule modify_node_step [OF m KV.prems(1-3)]) simp
next
  case (KP ts)
  obtain f where f: "fuel = Suc f" using KP.prems(4) by (cases fuel) auto
  show ?case unfolding f
  proof (rule modify_node_step [OF m KP.prems(1-3)])
    fix G ts' pt assume g: "grown F G" "KP ts = KP ts'" "pt \<in> set ts'"
    then have pt: "pt \<in> set ts" by simp
    have "0 < d" using KP.prems(1) by (simp add: tree_in_def)
    note k = tree_in_kids [OF tree_in_grown [OF KP.prems(1) g(1)] pt]
    have "sorted_items cmp (items (snd pt))"
      using KP.prems(3) split_list [OF pt] by (auto simp: sorted_items_append)
    moreover have "height (snd pt) < f" using height_child [OF pt] KP.prems(4) [unfolded f] by linarith
    ultimately have "descends G base lim sn rq (Suc (d - 1)) (\<lambda>p as. modify_node f sn ops rq (Some p) as) (fst pt, snd pt)"
      by (intro KP.IH [OF pt k(1,2)])
    then show "descends G base lim sn rq d (\<lambda>p as. modify_node f sn ops rq (Some p) as) pt"
      using \<open>0 < d\<close> by simp
  qed
qed

subsection \<open>The root\<close>

lemma malloc_calm_file:
  assumes "ready (ms_file s)" and "calm (tf_handle (ms_file s))"
  shows "\<exists>f'. on_file (on_handle (fo_malloc ops)) s = (Inr True, s\<lparr>ms_file := f'\<rparr>) \<and> calm (tf_handle f') \<and>
    grown (ms_file s) f' \<and> tf_pos f' = tf_pos (ms_file s)"
proof -
  have "inv (tf_handle (ms_file s))" using assms(1) by (simp add: ready_def can_write_def)
  then obtain h where h: "fo_malloc ops (tf_handle (ms_file s)) = (Inr True, h)" "calm h" "reads (tf_handle (ms_file s)) h"
    using malloc_calm_reads assms(2) by blast
  then show ?thesis
    using reads_grown [OF assms(1) h(3)] by (intro exI [of _ "(ms_file s)\<lparr>tf_handle := h\<rparr>"])
      (simp add: on_file_def zoomE_def on_handle_app)
qed

lemma make_modres_calm:
  assumes "ready (ms_file s)" and "calm (tf_handle (ms_file s))"
  shows "\<exists>f'. make_modres ops ty s = (Inr (empty_modres ty), s\<lparr>ms_file := f'\<rparr>) \<and> calm (tf_handle f') \<and>
    grown (ms_file s) f' \<and> tf_pos f' = tf_pos (ms_file s)"
proof -
  obtain f1 where f1: "allocE ops s = (Inr (), s\<lparr>ms_file := f1\<rparr>)" "calm (tf_handle f1)" "grown (ms_file s) f1"
      "tf_pos f1 = tf_pos (ms_file s)"
    by (rule allocE_calm [OF assms])
  obtain f2 where f2: "allocE ops (s\<lparr>ms_file := f1\<rparr>) = (Inr (), s\<lparr>ms_file := f2\<rparr>)" "calm (tf_handle f2)" "grown f1 f2"
      "tf_pos f2 = tf_pos f1"
    using allocE_calm [of "s\<lparr>ms_file := f1\<rparr>"] grown_ready [OF f1(3)] f1(2) by auto
  obtain f3 where f3: "allocE ops (s\<lparr>ms_file := f2\<rparr>) = (Inr (), s\<lparr>ms_file := f3\<rparr>)" "calm (tf_handle f3)" "grown f2 f3"
      "tf_pos f3 = tf_pos f2"
    using allocE_calm [of "s\<lparr>ms_file := f2\<rparr>"] grown_ready [OF f2(3)] f2(2) by auto
  show ?thesis
    using f1 f2 f3 grown_trans [OF f1(3) grown_trans [OF f2(3) f3(3)]]
    by (intro exI [of _ f3]) (simp add: make_modres_def bindE_def)
qed

text \<open>Giving the root back unchanged: the code pushes it to a result that is not looked at again.\<close>

lemma push_unmodified:
  assumes "ready (ms_file s)" and "calm (tf_handle (ms_file s))" and "\<not> mr_modified (ms_res s)"
  shows "\<exists>s'. ignoreE (mr_push_pointerinfo sn ops rq p) s = (Inr (), s') \<and> grown (ms_file s) (ms_file s') \<and>
    calm (tf_handle (ms_file s')) \<and> ms_ctx s' = ms_ctx s \<and> ms_purging s' = ms_purging s \<and> \<not> mr_modified (ms_res s')"
proof -
  obtain f1 where "allocE ops s = (Inr (), s\<lparr>ms_file := f1\<rparr>)" "calm (tf_handle f1)" "grown (ms_file s) f1"
    by (rule allocE_calm [OF assms(1,2)])
  then show ?thesis
    using assms(3)
    by (simp add: mr_push_pointerinfo_def ignoreE_def bindE_def modify_res_def maybe_flush_def push_value_def)
qed

definition root_in :: "'h tree_file \<Rightarrow> snappy \<Rightarrow> nat \<Rightarrow> node_pointer option \<Rightarrow> btree \<Rightarrow> bool" where
  "root_in F sn d root t \<longleftrightarrow> (case root of None \<Rightarrow> t = KV [] \<and> d = 0 | Some p \<Rightarrow> tree_in F sn d p t)"

text \<open>The root node: its actions are applied, or (none of them updating) it is left alone.\<close>

lemma modify_root_calm:
  assumes m: "modifies sn rq base lim" and h: "holding F base lim sn rq c KP_NODE False (Suc d) [] s"
    and t: "root_in F sn d root t"
    and sorted: "sorted_items cmp (items t)" and good: "\<forall>a\<in>set acts. action_good a"
    and len: "length acts + length (items t) < 2 ^ 31" and fuel: "height t < fuel" and ne: "acts \<noteq> []"
  defines "C \<equiv> run_fetches rq (fetches cmp acts (items t)) c" and "R \<equiv> updated cmp acts (items t)"
  shows "\<exists>s'. modify_node fuel sn ops rq root acts s = (Inr (), s') \<and>
    (if has_update acts \<or> root = None then holding F base lim sn rq C KP_NODE True (Suc d) R s'
     else grown F (ms_file s') \<and> calm (tf_handle (ms_file s')) \<and> ms_ctx s' = C \<and> \<not> ms_purging s' \<and>
       \<not> mr_modified (ms_res s'))"
proof -
  obtain f where f: "fuel = Suc f" using fuel by (cases fuel) auto
  let ?d = "\<lambda>p as. modify_node f sn ops rq (Some p) as"
  have read: "\<exists>s'. (case root of None \<Rightarrow> returnE [1] | Some np \<Rightarrow> read_node sn ops np) s = (Inr (node_bytes t), s') \<and>
      holding F base lim sn rq c KP_NODE False (Suc d) [] s'"
    using t h read_node_calm [OF h] by (cases root) (auto simp: node_body_def root_in_def)
  then obtain s1 where s1: "(case root of None \<Rightarrow> returnE [1] | Some np \<Rightarrow> read_node sn ops np) s = (Inr (node_bytes t), s1)"
      "holding F base lim sn rq c KP_NODE False (Suc d) [] s1"
    by blast
  have w: "workable G base lim sn rq d ?d t" if g: "grown F G" for G
  proof (cases root)
    case None
    then show ?thesis using t by (simp add: workable_def root_in_def)
  next
    case (Some p)
    then have tg: "tree_in G sn d p t" using t tree_in_grown g by (simp add: root_in_def)
    show ?thesis
    proof (rule workable_tree [OF tg])
      fix ts pt assume ts: "t = KP ts" "pt \<in> set ts"
      have "0 < d" using tg ts(1) by (simp add: tree_in_def)
      moreover have "sorted_items cmp (items (snd pt))"
        using sorted split_list [OF ts(2)] ts(1) by (auto simp: sorted_items_append)
      moreover have "height (snd pt) < f" using height_child [OF ts(2)] fuel [unfolded f ts(1)] by linarith
      moreover note k = tree_in_kids [OF tg [unfolded ts(1)] ts(2)]
      ultimately show "descends G base lim sn rq d ?d pt"
        using modify_node_calm [OF m k(1,2)] by simp
    qed
  qed
  obtain r s2 where s2: "modify_local ?d (\<lambda>p. purge_node f sn ops rq (Some p)) sn ops rq (node_bytes t) acts s1 = (Inr r, s2)"
      "holding F base lim sn rq C KP_NODE False (Suc d) [] s2" "local_done lim sn (ms_file s2) d R (has_update acts) r"
    unfolding C_def R_def using modify_local_calm [OF s1(2) m w sorted good len] by blast
  have run: "modify_node fuel sn ops rq root acts s = give_back sn ops rq root r s2"
    using ne s1(1) s2(1) by (simp add: f bindE_def)
  have lenR: "length ([] :: (sized_buf \<times> sized_buf) list) + length R < 2 ^ 31"
    using len length_updated [of cmp acts "items t"] by (simp add: R_def)
  show ?thesis
  proof (cases "has_update acts \<or> root = None")
    case True
    then have MR: "has_update acts \<or> R = []"
      using t updated_fetches_only [of acts cmp "items t"] by (cases "has_update acts") (auto simp: R_def root_in_def)
    obtain s3 where "bindE (modify_res (mr_modified_update (\<lambda>_. True)))
        (\<lambda>_. mr_move_pointers sn ops rq (mr_pointers r)) s2 = (Inr (), s3)"
        "holding F base lim sn rq C KP_NODE True (Suc d) ([] @ R) s3"
      using give_back_new [OF s2(2) m s2(3) MR lenR] by blast
    then show ?thesis
      using True s2(3) by (auto simp: run give_back_def local_done_def split: option.split)
  next
    case False
    then obtain p where p: "root = Some p" "\<not> mr_modified r" using s2(3) by (auto simp: local_done_def)
    have um: "\<not> mr_modified (ms_res s2)" "\<not> ms_purging s2" "ms_ctx s2 = C"
      using s2(2) by (auto simp: holding_def filling_def building_def)
    obtain s3 where s3: "ignoreE (mr_push_pointerinfo sn ops rq p) s2 = (Inr (), s3)" "grown (ms_file s2) (ms_file s3)"
        "calm (tf_handle (ms_file s3))" "ms_ctx s3 = C" "\<not> ms_purging s3" "\<not> mr_modified (ms_res s3)"
      using push_unmodified [OF holdingD(2,3) [OF s2(2)] um(1), of sn rq p] um(2,3) by auto
    then have "give_back sn ops rq root r s2 = (Inr (), s3)" using p by (simp add: give_back_def)
    then show ?thesis
      unfolding run using False s3(3-) grown_trans [OF holdingD(1) [OF s2(2)] s3(2)] by auto
  qed
qed

lemma modify_btree_calm:
  assumes m: "modifies sn rq (tf_pos (ms_file s)) lim" and r: "ready (ms_file s)" "calm (tf_handle (ms_file s))"
    and p: "\<not> ms_purging s" and t: "root_in (ms_file s) sn d root t"
    and sorted: "sorted_items cmp (items t)" and good: "\<forall>a\<in>set (rq_actions rq). action_good a"
    and len: "length (rq_actions rq) + length (items t) < 2 ^ 31"
    and fuel: "height t + length (rq_actions rq) + length (items t) < fuel"
  shows "\<exists>root' s'. modify_btree fuel sn ops rq root s = (Inr root', s') \<and>
    finished (ms_file s) lim sn (run_fetches rq (fetches cmp (rq_actions rq) (items t)) (ms_ctx s))
      (updated cmp (rq_actions rq) (items t)) root' s'"
proof -
  let ?acts = "rq_actions rq" and ?F = "ms_file s"
  let ?C = "run_fetches rq (fetches cmp ?acts (items t)) (ms_ctx s)" and ?R = "updated cmp ?acts (items t)"
  obtain f1 where f1: "on_file (on_handle (fo_malloc ops)) s = (Inr True, s\<lparr>ms_file := f1\<rparr>)" "calm (tf_handle f1)"
      "grown ?F f1" "tf_pos f1 = tf_pos ?F"
    using malloc_calm_file [OF r] by blast
  obtain f2 where f2: "make_modres ops KP_NODE (s\<lparr>ms_file := f1\<rparr>) = (Inr (empty_modres KP_NODE), s\<lparr>ms_file := f2\<rparr>)"
      "calm (tf_handle f2)" "grown f1 f2" "tf_pos f2 = tf_pos f1"
    using make_modres_calm [of "s\<lparr>ms_file := f1\<rparr>" KP_NODE] grown_ready [OF f1(3)] f1(2) by auto
  define s2 where "s2 = s\<lparr>ms_file := f2, ms_res := empty_modres KP_NODE\<rparr>"
  have g2: "grown ?F f2" by (rule grown_trans [OF f1(3) f2(3)])
  have h: "holding ?F (tf_pos ?F) lim sn rq (ms_ctx s) KP_NODE False (Suc d) [] s2"
    using g2 f2(2,4) f1(4) p modifiesD(5) [OF m]
    by (auto simp: s2_def holding_def filling_def building_def mr_ok_def bounded_node_def empty_modres_def)
  have run: "modify_btree fuel sn ops rq root s =
      bindE (modify_node fuel sn ops rq root ?acts) (\<lambda>_. bindE (getE ms_res) (\<lambda>root_result.
        if mr_modified root_result
        then bindE (if 1 < mr_count root_result \<or> mr_pointers root_result \<noteq> [] then finish_root fuel sn ops rq
                    else returnE (last_pointer (mr_values root_result))) (copy_node_pointer ops)
        else returnE root)) s2"
    using f1(1) f2(1) by (simp add: modify_btree_def bindE_def modify_res_def s2_def)
  have same: "finished ?F lim sn ?C ?R root s'"
    if "\<not> has_update ?acts" "grown ?F (ms_file s')" "calm (tf_handle (ms_file s'))" "ms_ctx s' = ?C" "\<not> ms_purging s'" for s'
    using that t updated_fetches_only [OF that(1)]
    by (cases root) (auto simp: finished_def root_in_def intro: tree_in_sub_tree tree_in_grown)
  show ?thesis
  proof (cases "?acts = []")
    case True
    obtain f where "fuel = Suc f" using fuel by (cases fuel) auto
    then have "modify_btree fuel sn ops rq root s = (Inr root, s2)"
      using True run by (simp add: s2_def empty_modres_def)
    then show ?thesis using same [of s2] True g2 f2(2) p by (simp add: s2_def)
  next
    case False
    have hf: "height t < fuel" using fuel by simp
    obtain s3 where s3: "modify_node fuel sn ops rq root ?acts s2 = (Inr (), s3)"
        "if has_update ?acts \<or> root = None then holding ?F (tf_pos ?F) lim sn rq ?C KP_NODE True (Suc d) ?R s3
         else grown ?F (ms_file s3) \<and> calm (tf_handle (ms_file s3)) \<and> ms_ctx s3 = ?C \<and> \<not> ms_purging s3 \<and>
           \<not> mr_modified (ms_res s3)"
      using modify_root_calm [OF m h t sorted good len hf False] by blast
    show ?thesis
    proof (cases "has_update ?acts \<or> root = None")
      case True
      then have "holding ?F (tf_pos ?F) lim sn rq ?C KP_NODE True (Suc d) ?R s3" using s3(2) by simp
      then obtain n where fl: "filling ?F (tf_pos ?F) lim sn rq ?C KP_NODE True n (Suc d) ?R s3" by (auto simp: holding_def)
      have "length ?R \<le> fuel" using fuel length_updated [of cmp ?acts "items t"] by simp
      then obtain root' s4 where s4: "(if 1 < mr_count (ms_res s3) \<or> mr_pointers (ms_res s3) \<noteq> [] then finish_root fuel sn ops rq
            else returnE (last_pointer (mr_values (ms_res s3)))) s3 = (Inr root', s4)" "finished ?F lim sn ?C ?R root' s4"
        using choose_root_calm [OF modifiesD(1-3) [OF m] fl] by blast
      obtain s5 where "copy_node_pointer ops root' s4 = (Inr root', s5)" "finished ?F lim sn ?C ?R root' s5"
        using copy_node_pointer_calm [OF s4(2)] by blast
      moreover have "mr_modified (ms_res s3)" using fl by (simp add: filling_def building_def)
      ultimately show ?thesis using s3(1) s4(1) by (auto simp: run bindE_def)
    next
      case False
      then show ?thesis using s3 same [of s3] by (auto simp: run bindE_def)
    qed
  qed
qed

end

section \<open>The three trees of a database\<close>

interpretation id_mod: btree_modifier default_file_ops os_content "\<lambda>_. 0" "\<lambda>_. True" os_calm
    "Some by_id_reduce" "Some by_id_rereduce" id_item id_reduction ebin_cmp
  by unfold_locales

interpretation seq_mod: btree_modifier default_file_ops os_content "\<lambda>_. 0" "\<lambda>_. True" os_calm
    "Some by_seq_reduce" "Some by_seq_rereduce" "\<lambda>_. True" seq_reduction seq_cmp
  by unfold_locales

interpretation local_mod: btree_modifier default_file_ops os_content "\<lambda>_. 0" "\<lambda>_. True" os_calm
    None None "\<lambda>_. True" "\<lambda>_. []" ebin_cmp
  by unfold_locales

text \<open>The same trees written through the buffering layer.\<close>

interpretation id_buf: btree_modifier "buffered_file_ops default_file_ops" os.bcontent os.bcached os.binv os.bcalm
    "Some by_id_reduce" "Some by_id_rereduce" id_item id_reduction ebin_cmp
  by unfold_locales

interpretation seq_buf: btree_modifier "buffered_file_ops default_file_ops" os.bcontent os.bcached os.binv os.bcalm
    "Some by_seq_reduce" "Some by_seq_rereduce" "\<lambda>_. True" seq_reduction seq_cmp
  by unfold_locales

interpretation local_buf: btree_modifier "buffered_file_ops default_file_ops" os.bcontent os.bcached os.binv os.bcalm
    None None "\<lambda>_. True" "\<lambda>_. []" ebin_cmp
  by unfold_locales

end
