(* ===== verification/Btree_Update.thy ===== *)
theory Btree_Update
  imports Btree_Modify
begin

text \<open>
  What the B-tree code promises its users, over the default file operations: the effect of
  \<open>modify_btree\<close> as a function on sorted item lists, what a lookup finds afterwards, and what
  happens on the paths on which the code drops an error.
\<close>

section \<open>Actions as updates of a map\<close>

definition value_of ::
  "(sized_buf \<Rightarrow> sized_buf \<Rightarrow> int) \<Rightarrow> (sized_buf \<times> sized_buf) list \<Rightarrow> sized_buf \<Rightarrow> sized_buf option" where
  "value_of cmp xs k = map_option snd (find (\<lambda>x. cmp (fst x) k = 0) xs)"

text \<open>The value of the key \<open>k\<close> after the actions, when it was \<open>v\<close> before.\<close>

fun acted :: "(sized_buf \<Rightarrow> sized_buf \<Rightarrow> int) \<Rightarrow> modify_action list \<Rightarrow> sized_buf \<Rightarrow> sized_buf option \<Rightarrow> sized_buf option" where
  "acted cmp [] k v = v"
| "acted cmp (a # as) k v = acted cmp as k
     (if cmp (action_key a) k = 0
      then case a of ACTION_FETCH _ \<Rightarrow> v | ACTION_REMOVE _ \<Rightarrow> None | ACTION_INSERT _ w \<Rightarrow> Some w
      else v)"

text \<open>The order the callers put their actions in: by key, an insertion being the last one of its key.\<close>

definition ordered_actions :: "(sized_buf \<Rightarrow> sized_buf \<Rightarrow> int) \<Rightarrow> modify_action list \<Rightarrow> bool" where
  "ordered_actions cmp acts \<longleftrightarrow>
     sorted_wrt (\<lambda>a b. cmp (action_key a) (action_key b) < 0 \<or>
                       cmp (action_key a) (action_key b) = 0 \<and> inserted a = []) acts"

lemma ordered_actions_Cons [simp]:
  "ordered_actions cmp (a # as) \<longleftrightarrow> ordered_actions cmp as \<and>
     (\<forall>b\<in>set as. cmp (action_key a) (action_key b) < 0 \<or> cmp (action_key a) (action_key b) = 0 \<and> inserted a = [])"
  by (auto simp: ordered_actions_def)

lemma value_of_simps [simp]:
  "value_of cmp [] k = None"
  "value_of cmp (x # xs) k = (if cmp (fst x) k = 0 then Some (snd x) else value_of cmp xs k)"
  by (simp_all add: value_of_def)

lemma set_updated: "y \<in> set (updated cmp acts xs) \<Longrightarrow> y \<in> set xs \<or> (\<exists>a\<in>set acts. y \<in> set (inserted a))"
  by (induction cmp acts xs rule: updated.induct) (auto split: if_splits)

lemma inserted_key: "y \<in> set (inserted a) \<Longrightarrow> fst y = action_key a"
  by (auto simp: inserted_def action_key_def split: modify_action.splits)

context key_order
begin

lemma value_of_above: "\<forall>x\<in>set xs. cmp k (fst x) < 0 \<Longrightarrow> value_of cmp xs k = None"
proof (induction xs)
  case (Cons x xs)
  then show ?case using cmp_zero_sym [of "fst x" k] by auto
qed simp

lemma acted_above: "\<forall>a\<in>set acts. cmp k (action_key a) < 0 \<Longrightarrow> acted cmp acts k v = v"
proof (induction acts)
  case (Cons a acts)
  then show ?case using cmp_zero_sym [of "action_key a" k] by auto
qed simp

text \<open>An item or an action below everything that follows.\<close>

lemma updated_above:
  assumes "\<forall>x\<in>set xs. cmp k (fst x) < 0" and "\<forall>a\<in>set acts. cmp k (action_key a) < 0"
  shows "\<forall>y\<in>set (updated cmp acts xs). cmp k (fst y) < 0"
  using assms set_updated inserted_key by metis

lemma updated_sorted:
  "sorted_items cmp xs \<Longrightarrow> ordered_actions cmp acts \<Longrightarrow> sorted_items cmp (updated cmp acts xs)"
proof (induction acts arbitrary: xs)
  case (Cons a acts)
  note outer = Cons.IH
  have ord: "ordered_actions cmp acts" "\<forall>b\<in>set acts. cmp (action_key a) (action_key b) \<le> 0"
      "inserted a \<noteq> [] \<longrightarrow> (\<forall>b\<in>set acts. cmp (action_key a) (action_key b) < 0)"
    using Cons.prems(2) by auto
  have push: "sorted_items cmp (inserted a @ updated cmp acts ys)"
    if "sorted_items cmp ys" "inserted a \<noteq> [] \<longrightarrow> (\<forall>y\<in>set ys. cmp (action_key a) (fst y) < 0)" for ys
  proof (cases "inserted a")
    case Nil
    then show ?thesis using outer [OF that(1) ord(1)] by simp
  next
    case (Cons y r)
    then have "inserted a = [y]" "fst y = action_key a"
      using inserted_key [of y a] by (auto simp: inserted_def split: modify_action.splits)
    then show ?thesis
      using outer [OF that(1) ord(1)] updated_above [of ys "action_key a" acts] that(2) ord(3) by simp
  qed
  show ?case using Cons.prems(1)
  proof (induction xs)
    case Nil
    then show ?case using push [of "[]"] by simp
  next
    case (Cons x xs)
    consider (less) "cmp (fst x) (action_key a) < 0" | (greater) "0 < cmp (fst x) (action_key a)" |
      (equal) "cmp (fst x) (action_key a) = 0" by linarith
    then show ?case
    proof cases
      case less
      have "\<forall>b\<in>set (a # acts). cmp (fst x) (action_key b) < 0"
        using less ord(2) cmp_less_le_trans by auto
      then show ?thesis using less Cons updated_above [of xs "fst x" "a # acts"] by simp
    next
      case greater
      then have "\<forall>y\<in>set (x # xs). cmp (action_key a) (fst y) < 0"
        using Cons.prems cmp_less_trans [of "action_key a" "fst x"] by (auto simp: cmp_neg_iff)
      then show ?thesis using push [of "x # xs"] Cons.prems greater by simp
    next
      case equal
      then have "\<forall>y\<in>set xs. cmp (action_key a) (fst y) < 0"
        using Cons.prems cmp_cong_left [of "fst x" "action_key a"] by auto
      then show ?thesis
        using push [of xs] push [of "x # xs"] Cons.prems equal by (auto simp: is_fetch_inserted)
    qed
  qed
qed simp

lemma value_of_skip: "cmp (action_key a) k \<noteq> 0 \<Longrightarrow> value_of cmp (inserted a @ ys) k = value_of cmp ys k"
  by (auto simp: inserted_def action_key_def split: modify_action.splits)

lemma acted_skip: "cmp (action_key a) k \<noteq> 0 \<Longrightarrow> acted cmp (a # acts) k v = acted cmp acts k v"
  by simp

text \<open>One action at the key \<open>k\<close>, everything after it being above \<open>k\<close>.\<close>

lemma value_of_act:
  assumes "cmp (action_key a) k = 0" and "inserted a \<noteq> [] \<longrightarrow> (\<forall>b\<in>set acts. cmp (action_key a) (action_key b) < 0)"
    and "value_of cmp (updated cmp acts ys) k = acted cmp acts k (value_of cmp ys k)"
    and "\<not> is_fetch a \<longrightarrow> value_of cmp ys k = None" and "is_fetch a \<longrightarrow> v = value_of cmp ys k"
  shows "value_of cmp (inserted a @ updated cmp acts ys) k = acted cmp (a # acts) k v"
proof (cases a)
  case (ACTION_INSERT key w)
  have "\<forall>b\<in>set acts. cmp k (action_key b) < 0"
    using assms(1,2) ACTION_INSERT cmp_cong_left [of "action_key a" k] by (simp add: inserted_def)
  then show ?thesis
    using ACTION_INSERT assms(1) acted_above [of acts k "Some w"] by (simp add: inserted_def action_key_def)
qed (use assms in \<open>simp_all add: inserted_def is_fetch_def action_key_def\<close>)

lemma value_of_updated:
  "sorted_items cmp xs \<Longrightarrow> ordered_actions cmp acts \<Longrightarrow>
     value_of cmp (updated cmp acts xs) k = acted cmp acts k (value_of cmp xs k)"
proof (induction acts arbitrary: xs)
  case (Cons a acts)
  note outer = Cons.IH
  have ord: "ordered_actions cmp acts" "\<forall>b\<in>set acts. cmp (action_key a) (action_key b) \<le> 0"
      "inserted a \<noteq> [] \<longrightarrow> (\<forall>b\<in>set acts. cmp (action_key a) (action_key b) < 0)"
    using Cons.prems(2) by auto
  show ?case using Cons.prems(1)
  proof (induction xs)
    case Nil
    have IH: "value_of cmp (updated cmp acts []) k = acted cmp acts k (value_of cmp [] k)" using outer ord(1) by simp
    show ?case
    proof (cases "cmp (action_key a) k = 0")
      case True
      then show ?thesis using value_of_act [OF True ord(3) IH, of None] by simp
    next
      case False
      then show ?thesis using IH value_of_skip [OF False] by simp
    qed
  next
    case (Cons x xs)
    have IH: "value_of cmp (updated cmp acts ys) k = acted cmp acts k (value_of cmp ys k)"
      if "ys = xs \<or> ys = x # xs" for ys
      using outer [of ys] that Cons.prems ord(1) by auto
    have above: "\<forall>y\<in>set xs. cmp (fst x) (fst y) < 0" using Cons.prems by simp
    consider (less) "cmp (fst x) (action_key a) < 0" | (greater) "0 < cmp (fst x) (action_key a)" |
      (equal) "cmp (fst x) (action_key a) = 0" by linarith
    then show ?case
    proof cases
      case less
      have "acted cmp (a # acts) k (Some (snd x)) = Some (snd x)" if "cmp (fst x) k = 0"
      proof (rule acted_above, rule ballI)
        fix b assume "b \<in> set (a # acts)"
        then have "cmp (fst x) (action_key b) < 0" using less ord(2) cmp_less_le_trans by auto
        then show "cmp k (action_key b) < 0" using cmp_cong_left [OF that] by simp
      qed
      then show ?thesis using less Cons by (simp del: acted.simps)
    next
      case greater
      show ?thesis
      proof (cases "cmp (action_key a) k = 0")
        case True
        have "\<forall>y\<in>set (x # xs). cmp (action_key a) (fst y) < 0"
          using above greater cmp_less_trans [of "action_key a" "fst x"] by (auto simp: cmp_neg_iff)
        then have "value_of cmp (x # xs) k = None"
          using value_of_above [of "x # xs" k] cmp_cong_left [OF True] by simp
        then show ?thesis
          using value_of_act [OF True ord(3) IH, of "x # xs" None] greater by (simp del: acted.simps value_of_simps)
      next
        case False
        then show ?thesis using IH [of "x # xs"] value_of_skip [OF False] greater by simp
      qed
    next
      case equal
      show ?thesis
      proof (cases "cmp (action_key a) k = 0")
        case True
        have "\<forall>y\<in>set xs. cmp k (fst y) < 0"
          using above equal True cmp_eq_trans [OF equal True] cmp_cong_left [of "fst x" k] by simp
        then have none: "value_of cmp xs k = None" by (rule value_of_above)
        show ?thesis
          using value_of_act [OF True ord(3) IH, of xs "value_of cmp (x # xs) k"]
            value_of_act [OF True ord(3) IH, of "x # xs" "value_of cmp (x # xs) k"] none equal
          by (cases "is_fetch a") (simp_all del: acted.simps value_of_simps)
      next
        case False
        then have "cmp (fst x) k \<noteq> 0" using equal cmp_eq_trans [of "action_key a" "fst x" k] cmp_zero_sym by blast
        then show ?thesis
          using IH [of "x # xs"] IH [of xs] value_of_skip [OF False] equal False by simp
      qed
    qed
  qed
qed simp

end

section \<open>What a tree in a file is\<close>

text \<open>
  \<open>tree_at sn ok red c root xs\<close>: the file content \<open>c\<close> holds, at the pointer \<open>root\<close> (none for the
  empty tree), a well-formed and balanced tree with the items \<open>xs\<close>, all of whose pointers carry the
  reductions of their subtrees.
\<close>

definition tree_at ::
  "snappy \<Rightarrow> (sized_buf \<times> sized_buf \<Rightarrow> bool) \<Rightarrow> ((sized_buf \<times> sized_buf) list \<Rightarrow> sized_buf) \<Rightarrow>
   byte list \<Rightarrow> node_pointer option \<Rightarrow> (sized_buf \<times> sized_buf) list \<Rightarrow> bool" where
  "tree_at sn ok red c root xs \<longleftrightarrow>
     (case root of
        None \<Rightarrow> xs = []
      | Some p \<Rightarrow> \<exists>t d. items t = xs \<and> on_disk sn c (unat (np_pointer p)) t \<and> unat (np_pointer p) < 2 ^ 48 \<and>
          bt_wf t \<and> bt_balanced d t \<and> reduce_wf red t \<and> (\<forall>x\<in>set xs. ok x \<and> kv_fits (fst x) (snd x)) \<and>
          np_reduce_value p = red xs)"

definition update_request ::
  "(sized_buf \<Rightarrow> sized_buf \<Rightarrow> int) \<Rightarrow> reduce_fn option \<Rightarrow> reduce_fn option \<Rightarrow> 'c modify_request \<Rightarrow> bool" where
  "update_request cmp red rered rq \<longleftrightarrow>
     rq_compare rq = cmp \<and> rq_reduce rq = red \<and> rq_rereduce rq = rered \<and>
     2 \<le> rq_kv_chunk_threshold rq \<and> rq_kv_chunk_threshold rq \<le> 2 ^ 20 \<and>
     2 \<le> rq_kp_chunk_threshold rq \<and> rq_kp_chunk_threshold rq \<le> 2 ^ 20"

definition actions_fit :: "(sized_buf \<times> sized_buf \<Rightarrow> bool) \<Rightarrow> modify_action list \<Rightarrow> bool" where
  "actions_fit ok acts \<longleftrightarrow> (\<forall>a\<in>set acts. \<forall>x\<in>set (inserted a). ok x \<and> kv_fits (fst x) (snd x))"

text \<open>What an update does to the file: it is appended to, and the new root has the updated items, unless
  the file outgrew the 48-bit positions or the single update wrote 2 GB.\<close>

definition updates_tree ::
  "snappy \<Rightarrow> (sized_buf \<times> sized_buf \<Rightarrow> bool) \<Rightarrow> ((sized_buf \<times> sized_buf) list \<Rightarrow> sized_buf) \<Rightarrow>
   os_file tree_file \<Rightarrow> os_file tree_file \<Rightarrow> node_pointer option \<Rightarrow> (sized_buf \<times> sized_buf) list \<Rightarrow> bool" where
  "updates_tree sn ok red f f' root xs \<longleftrightarrow>
     prefix (os_content (tf_handle f)) (os_content (tf_handle f')) \<and>
     length (os_content (tf_handle f')) \<le> tf_pos f' \<and> tf_pos f \<le> tf_pos f' \<and> os_calm (tf_handle f') \<and>
     (tf_pos f' < 2 ^ 48 \<and> tf_pos f' < tf_pos f + 2 ^ 31 \<longrightarrow> tree_at sn ok red (os_content (tf_handle f')) root xs)"

context btree_modifier
begin

lemma modify_btree_root:
  assumes "snappy_ok sn" and rq: "update_request cmp red rered rq"
    and f: "ready (ms_file s)" "calm (tf_handle (ms_file s))" and "\<not> ms_purging s"
    and tree: "tree_at sn item_ok reduction (content (tf_handle (ms_file s))) root xs"
    and sorted: "sorted_items cmp xs" and acts: "actions_fit item_ok (rq_actions rq)"
    and len: "length (rq_actions rq) + length xs < 2 ^ 31"
  shows "\<exists>N. \<forall>fuel\<ge>N. \<exists>root' s'. modify_btree fuel sn ops rq root s = (Inr root', s') \<and>
    grown (ms_file s) (ms_file s') \<and> calm (tf_handle (ms_file s')) \<and>
    (tf_pos (ms_file s') < 2 ^ 48 \<and> tf_pos (ms_file s') < tf_pos (ms_file s) + 2 ^ 31 \<longrightarrow>
      tree_at sn item_ok reduction (content (tf_handle (ms_file s'))) root' (updated cmp (rq_actions rq) xs)) \<and>
    ms_ctx s' = run_fetches rq (fetches cmp (rq_actions rq) xs) (ms_ctx s) \<and> \<not> ms_purging s'"
proof -
  note defs = root_in_def tree_in_def item_good_def
  obtain t d where t: "items t = xs" "root_in (ms_file s) sn d root t"
  proof (cases root)
    case None
    then show ?thesis using tree that [of "KV []" 0] by (simp add: tree_at_def defs)
  next
    case (Some p)
    then show ?thesis using tree that by (auto simp: tree_at_def defs)
  qed
  have good: "\<forall>a\<in>set (rq_actions rq). action_good a"
    using acts by (simp add: actions_fit_def action_good_def item_good_def)
  have run: "\<exists>root' s'. modify_btree fuel sn ops rq root s = (Inr root', s') \<and>
      finished (ms_file s) lim sn (run_fetches rq (fetches cmp (rq_actions rq) xs) (ms_ctx s)) (updated cmp (rq_actions rq) xs) root' s'"
    if "lim < 2 ^ 48" "lim < tf_pos (ms_file s) + 2 ^ 31" "height t + length (rq_actions rq) + length xs < fuel" for fuel lim
  proof -
    have "modifies sn rq (tf_pos (ms_file s)) lim"
      using that(1,2) assms(1) rq by (simp add: modifies_def request_ok_def update_request_def)
    from modify_btree_calm [OF this f assms(5) t(2) _ good] show ?thesis
      using sorted len that(3) by (simp add: t(1))
  qed
  show ?thesis
  proof (rule exI [of _ "Suc (height t + length (rq_actions rq) + length xs)"], intro allI impI)
    fix fuel assume "Suc (height t + length (rq_actions rq) + length xs) \<le> fuel"
    then have fuel: "height t + length (rq_actions rq) + length xs < fuel" by simp
    note fin = finished_def sub_tree_def item_good_def
    obtain root' s' where r0: "modify_btree fuel sn ops rq root s = (Inr root', s')"
      and g: "grown (ms_file s) (ms_file s')" "calm (tf_handle (ms_file s'))"
        "ms_ctx s' = run_fetches rq (fetches cmp (rq_actions rq) xs) (ms_ctx s)" "\<not> ms_purging s'"
      using run [of 0 fuel] fuel by (auto simp: fin)
    have "tree_at sn item_ok reduction (content (tf_handle (ms_file s'))) root' (updated cmp (rq_actions rq) xs)"
      if "tf_pos (ms_file s') < 2 ^ 48" "tf_pos (ms_file s') < tf_pos (ms_file s) + 2 ^ 31"
      using run [OF that fuel] r0 by (cases root') (auto simp: fin tree_at_def, blast)
    then show "\<exists>root' s'. modify_btree fuel sn ops rq root s = (Inr root', s') \<and>
      grown (ms_file s) (ms_file s') \<and> calm (tf_handle (ms_file s')) \<and>
      (tf_pos (ms_file s') < 2 ^ 48 \<and> tf_pos (ms_file s') < tf_pos (ms_file s) + 2 ^ 31 \<longrightarrow>
        tree_at sn item_ok reduction (content (tf_handle (ms_file s'))) root' (updated cmp (rq_actions rq) xs)) \<and>
      ms_ctx s' = run_fetches rq (fetches cmp (rq_actions rq) xs) (ms_ctx s) \<and> \<not> ms_purging s'"
      using r0 g by blast
  qed
qed

end

abbreviation os_modifier ::
  "reduce_fn option \<Rightarrow> reduce_fn option \<Rightarrow> (sized_buf \<times> sized_buf \<Rightarrow> bool) \<Rightarrow>
   ((sized_buf \<times> sized_buf) list \<Rightarrow> sized_buf) \<Rightarrow> (sized_buf \<Rightarrow> sized_buf \<Rightarrow> int) \<Rightarrow> bool" where
  "os_modifier \<equiv> btree_modifier default_file_ops os_content (\<lambda>_. 0) (\<lambda>_. True) os_calm"

lemma os_ready_iff: "os.ready f \<longleftrightarrow> length (os_content (tf_handle f)) \<le> tf_pos f"
  by (simp add: os.ready_def os.can_write_def)

lemma modify_btree_updates_os:
  assumes loc: "os_modifier red rered ok reduction cmp"
    and "snappy_ok sn" and rq: "update_request cmp red rered rq"
    and f: "length (os_content (tf_handle (ms_file s))) \<le> tf_pos (ms_file s)" "os_calm (tf_handle (ms_file s))"
    and "\<not> ms_purging s"
    and tree: "tree_at sn ok reduction (os_content (tf_handle (ms_file s))) root xs"
    and sorted: "sorted_items cmp xs" and acts: "actions_fit ok (rq_actions rq)"
    and len: "length (rq_actions rq) + length xs < 2 ^ 31"
  shows "\<exists>N. \<forall>fuel\<ge>N. \<exists>root' s'. modify_btree fuel sn default_file_ops rq root s = (Inr root', s') \<and>
    updates_tree sn ok reduction (ms_file s) (ms_file s') root' (updated cmp (rq_actions rq) xs) \<and>
    ms_ctx s' = run_fetches rq (fetches cmp (rq_actions rq) xs) (ms_ctx s) \<and> \<not> ms_purging s'"
proof -
  have "os.ready (ms_file s)" using f(1) by (simp add: os_ready_iff)
  from btree_modifier.modify_btree_root [OF loc assms(2,3) this f(2) assms(6) tree sorted acts len] show ?thesis
    by (simp add: updates_tree_def os.grown_def os_ready_iff conj_ac)
qed

section \<open>Looking up a key after an update\<close>

definition lookup_answer :: "sized_buf \<Rightarrow> sized_buf option \<Rightarrow> callback_call" where
  "lookup_answer k v = (Some k, v)"

lemma value_of_sorted:
  assumes "sorted_items ebin_cmp xs" and "(k, v) \<in> set xs"
  shows "value_of ebin_cmp xs k = Some v"
  using assms
proof (induction xs)
  case (Cons x xs)
  show ?case
  proof (cases "x = (k, v)")
    case False
    then have "(k, v) \<in> set xs" using Cons.prems(2) by simp
    moreover from this have "ebin_cmp (fst x) k < 0" using Cons.prems(1) by fastforce
    ultimately show ?thesis using Cons by simp
  qed (simp add: ebin_cmp_zero)
qed simp

lemma value_of_None: "value_of ebin_cmp xs k = None \<longleftrightarrow> (\<forall>x\<in>set xs. fst x \<noteq> k)"
  by (induction xs) (auto simp: ebin_cmp_zero)

text \<open>
  A single key is answered exactly, in every tree sorted by a key order: \<open>lookup_one cmp xs k\<close> is the only call
  of the callback.
\<close>

definition lookup_one ::
  "(sized_buf \<Rightarrow> sized_buf \<Rightarrow> int) \<Rightarrow> (sized_buf \<times> sized_buf) list \<Rightarrow> sized_buf \<Rightarrow> callback_call" where
  "lookup_one cmp xs k = (case find (\<lambda>x. cmp (fst x) k = 0) xs of None \<Rightarrow> missing k | Some x \<Rightarrow> found x)"

lemma lookup_one_ebin: "lookup_one ebin_cmp xs k = lookup_answer k (value_of ebin_cmp xs k)"
  by (induction xs) (auto simp: lookup_one_def lookup_answer_def value_of_def missing_def found_def ebin_cmp_zero)

context key_order
begin

lemma sorted_items_unique:
  "sorted_items cmp xs \<Longrightarrow> x \<in> set xs \<Longrightarrow> y \<in> set xs \<Longrightarrow> cmp (fst x) (fst y) = 0 \<Longrightarrow> x = y"
proof (induction xs)
  case (Cons z xs)
  have "cmp (fst y) (fst x) = 0" using Cons.prems(4) cmp_zero_sym by blast
  then show ?case using Cons by auto
qed simp

lemma tree_calls_one:
  assumes "bt_wf t" and "sorted_items cmp (items t)" and "\<forall>x\<in>set (items t). fst x \<noteq> []" and "k \<noteq> []"
    and "lr_compare rq = cmp"
  shows "tree_calls (lookup_compare rq) t [k] = [lookup_one cmp (items t) k]"
proof -
  have lc: "lookup_compare rq (fst x) k = cmp (fst x) k" if "x \<in> set (items t)" for x
    using assms(3-5) that by simp
  obtain c where c: "tree_calls (lookup_compare rq) t [k] = [c]" "answers (lookup_compare rq) (items t) c k"
    using tree_calls_answers(1) [of "lookup_compare rq" t "[k]"] by (auto simp: list_all2_Cons2)
  show ?thesis
  proof (cases "find (\<lambda>x. cmp (fst x) k = 0) (items t)")
    case None
    then have "cmp (fst x) k \<noteq> 0" if "x \<in> set (items t)" for x using that unfolding find_None_iff by blast
    then show ?thesis using c lc None by (auto simp: answers_def lookup_one_def)
  next
    case (Some x)
    then have x: "x \<in> set (items t)" "cmp (fst x) k = 0" by (auto simp: find_Some_iff)
    have "agree (lookup_compare rq) (items t) [k]" using lc by (simp add: agree_def)
    moreover have "\<forall>key\<in>set [k]. has_key cmp (items t) key" using x by (auto simp: has_key_def)
    ultimately have "snd c \<noteq> None"
      using tree_calls_complete(1) [OF _ assms(1,2), of "lookup_compare rq" "[k]"] c(1) by auto
    then obtain y where y: "y \<in> set (items t)" "cmp (fst y) k = 0" "c = found y"
      using c(2) lc by (auto simp: answers_def missing_def)
    have "cmp (fst x) (fst y) = 0" using x(2) y(2) cmp_eq_trans cmp_zero_sym by blast
    then have "x = y" using sorted_items_unique [OF assms(2) x(1) y(1)] by blast
    then show ?thesis using c(1) y(3) Some by (simp add: lookup_one_def)
  qed
qed

end

context file_backend
begin

lemma lookup_does_run:
  assumes "lookup_does rq m s cs () f i"
  obtains s' where "m s = (fst (run_calls rq cs (lk_ctx s)), s')" and "lk_ctx s' = snd (run_calls rq cs (lk_ctx s))"
    and "calm (lk_handle s')" and "reads (lk_handle s) (lk_handle s')"
proof -
  obtain r c where run: "run_calls rq cs (lk_ctx s) = (r, c)" by fastforce
  show ?thesis
    using assms that unfolding lookup_does_def run by (cases r) auto
qed

lemma btree_lookup_one:
  assumes "key_order cmp" and "bt_wf t" and "sorted_items cmp (items t)" and "\<forall>x\<in>set (items t). fst x \<noteq> []" and "k \<noteq> []"
    and "lr_compare rq = cmp" and "lr_node_callback rq = None" and "lr_keys rq = [k]"
    and "on_disk sn (content (lk_handle s)) (unat root) t" and "height t < fuel"
    and "inv (lk_handle s)" and "calm (lk_handle s)" and "\<not> lk_fold s"
  obtains s' where "btree_lookup fuel sn ops rq root s = (fst (run_calls rq [lookup_one cmp (items t) k] (lk_ctx s)), s')"
    and "lk_ctx s' = snd (run_calls rq [lookup_one cmp (items t) k] (lk_ctx s))"
    and "calm (lk_handle s')" and "reads (lk_handle s) (lk_handle s')"
proof -
  let ?s = "s\<lparr>lk_in_fold := False\<rparr>" and ?cs = "[lookup_one cmp (items t) k]"
  have "lookup_does rq (btree_lookup_inner fuel sn ops rq root [k] None) ?s ?cs () False False"
    unfolding key_order.tree_calls_one [OF assms(1-6), symmetric]
    by (rule btree_lookup_inner_does [OF assms(7,9,10)]) (use assms(11-13) in \<open>simp_all add: lk_ready_def\<close>)
  then show ?thesis by (rule lookup_does_run) (rule that, simp_all add: btree_lookup_def assms(8))
qed

end

lemma btree_lookup_single:
  assumes "bt_wf t" and "sorted_items ebin_cmp (items t)" and "\<forall>x\<in>set (items t). fst x \<noteq> []" and "k \<noteq> []"
    and "lr_compare rq = ebin_cmp" and "lr_node_callback rq = None" and "lr_keys rq = [k]"
    and "on_disk sn (os_content (lk_handle s)) (unat root) t" and "height t < fuel" and "os_calm (lk_handle s)"
    and "\<not> lk_fold s"
  shows "\<exists>s'. btree_lookup fuel sn default_file_ops rq root s =
      (fst (run_calls rq [lookup_answer k (value_of ebin_cmp (items t) k)] (lk_ctx s)), s') \<and>
    lk_ctx s' = snd (run_calls rq [lookup_answer k (value_of ebin_cmp (items t) k)] (lk_ctx s))"
proof -
  obtain s' where "btree_lookup fuel sn default_file_ops rq root s = (fst (run_calls rq [lookup_one ebin_cmp (items t) k] (lk_ctx s)), s')"
      "lk_ctx s' = snd (run_calls rq [lookup_one ebin_cmp (items t) k] (lk_ctx s))"
    by (rule os.btree_lookup_one [OF ebin.key_order_axioms assms(1-9)]) (use assms(10,11) in simp_all)
  then show ?thesis by (simp add: lookup_one_ebin)
qed

section \<open>Whatever happens, the old file survives\<close>

text \<open>
  \<open>keeps F f\<close>: everything below the append position of \<open>F\<close> is still in \<open>f\<close>. \<open>file_safe F m\<close>: the
  command \<open>m\<close> keeps it, whether it succeeds or not.
\<close>

definition keeps :: "os_file tree_file \<Rightarrow> os_file tree_file \<Rightarrow> bool" where
  "keeps F f \<longleftrightarrow> tf_pos F \<le> tf_pos f \<and>
     prefix (take (tf_pos F) (os_content (tf_handle F))) (os_content (tf_handle f))"

definition file_safe :: "os_file tree_file \<Rightarrow> ((os_file, 'c) modify_state, 'a) cmd \<Rightarrow> bool" where
  "file_safe F m \<longleftrightarrow> (\<forall>s. keeps F (ms_file s) \<longrightarrow> keeps F (ms_file (snd (m s))))"

named_theorems file_safe_rules \<open>commands that keep the old content of the file\<close>

lemma file_safeD: "file_safe F m \<Longrightarrow> keeps F (ms_file s) \<Longrightarrow> m s = (r, s') \<Longrightarrow> keeps F (ms_file s')"
  unfolding file_safe_def by (metis snd_conv)

lemma file_safe_bindE [file_safe_rules]:
  fixes m :: "((os_file, 'c) modify_state, 'a) cmd"
  assumes "file_safe F m" and "\<And>a. file_safe F (f a)"
  shows "file_safe F (bindE m f)"
  unfolding file_safe_def
proof (intro allI impI)
  fix s :: "(os_file, 'c) modify_state" assume k: "keeps F (ms_file s)"
  obtain r t where m: "m s = (r, t)" by fastforce
  then have "keeps F (ms_file t)" using assms(1) k file_safeD by blast
  then show "keeps F (ms_file (snd (bindE m f s)))"
    using assms(2) m by (cases r) (auto simp: bindE_def file_safe_def)
qed

lemma file_safe_basic [file_safe_rules]:
  "file_safe F (returnE a)" "file_safe F (Pair r)" "file_safe F (throwE e)" "file_safe F (getE g)" "file_safe F (unlessE c e')"
  "file_safe F (modify_res h)" "file_safe F (fetched rq k v)" "file_safe F (on_mctx c')"
  by (simp_all add: file_safe_def modify_res_def fetched_def on_mctx_def zoomE_def unlessE_def split: option.split prod.split)

lemma file_safe_modify [file_safe_rules]: "(\<And>s. ms_file (f s) = ms_file s) \<Longrightarrow> file_safe F (modifyE f)"
  by (simp add: file_safe_def)

lemma file_safe_ignoreE [file_safe_rules]: "file_safe F m \<Longrightarrow> file_safe F (ignoreE m)"
  unfolding file_safe_def ignoreE_def by (force split: prod.splits sum.splits fault.splits)

lemma file_safe_with_local [file_safe_rules]:
  fixes m :: "((os_file, 'c) modify_state, unit) cmd"
  assumes "file_safe F m"
  shows "file_safe F (with_local r m)"
  unfolding file_safe_def
proof (intro allI impI)
  fix s :: "(os_file, 'c) modify_state" assume "keeps F (ms_file s)"
  then have "keeps F (ms_file (snd (m (s\<lparr>ms_res := r\<rparr>))))" using assms by (simp add: file_safe_def)
  then show "keeps F (ms_file (snd (with_local r m s)))" by (auto simp: with_local_def split: prod.splits)
qed

lemma file_safe_on_file:
  assumes "\<And>f r f'. keeps F f \<Longrightarrow> m f = (r, f') \<Longrightarrow> keeps F f'"
  shows "file_safe F (on_file m)"
  using assms by (auto simp: file_safe_def on_file_def zoomE_def split: prod.splits)

lemma keeps_same: "keeps F f \<Longrightarrow> os_content h = os_content (tf_handle f) \<Longrightarrow> keeps F (f\<lparr>tf_handle := h\<rparr>)"
  by (simp add: keeps_def)

lemma keeps_written:
  assumes "keeps F f" and "os_content h = write_at (os_content (tf_handle f)) (tf_pos f) bs"
  shows "keeps F \<lparr>tf_pos = tf_pos f + k, tf_handle = h\<rparr>"
proof -
  let ?old = "take (tf_pos F) (os_content (tf_handle F))" and ?c = "os_content (tf_handle f)"
  have p: "prefix ?old ?c" "tf_pos F \<le> tf_pos f" using assms(1) by (simp_all add: keeps_def)
  then have len: "length ?old \<le> tf_pos f" "length ?old \<le> length ?c"
    using prefix_length_le [OF p(1)] by simp_all
  then have "take (length ?old) (os_content h) = take (length ?old) ?c"
    unfolding assms(2) by (rule take_write_at)
  also have "\<dots> = ?old" using p(1) by (metis append_eq_conv_conj prefixE)
  finally have "prefix ?old (os_content h)" by (metis take_is_prefix)
  then show ?thesis using p(2) by (simp add: keeps_def)
qed

lemma file_safe_malloc [file_safe_rules]: "file_safe F (on_file (on_handle (fo_malloc default_file_ops)))"
  by (rule file_safe_on_file) (auto simp: on_handle_app os_malloc_def intro!: keeps_same split: list.splits)

lemma file_safe_allocE [file_safe_rules]: "file_safe F (allocE default_file_ops)"
  unfolding allocE_def by (intro file_safe_rules)

lemma keeps_db_write_buf:
  assumes "keeps F f" and "db_write_buf default_file_ops buf f = (r, f')"
  shows "keeps F f'"
proof -
  have c: "os.can_write f" by (simp add: os.can_write_def)
  show ?thesis
  proof (cases r)
    case (Inl e)
    note w = os.db_write_buf_Inl [OF c assms(2) [unfolded Inl]]
    then obtain k where "os_content (tf_handle f') = write_at (os_content (tf_handle f)) (tf_pos f) (take k (chunk_image (tf_pos f) buf))"
      by (auto simp: os.wrote_def)
    from keeps_written [OF assms(1) this, of 0] show ?thesis using w(2) by (cases f') simp
  next
    case (Inr a)
    obtain p n where a: "a = (p, n)" by fastforce
    note w = os.db_write_buf_Inr [OF c assms(2) [unfolded Inr a]]
    then have "os_content (tf_handle f') = write_at (os_content (tf_handle f)) (tf_pos f) (chunk_image (tf_pos f) buf)"
      by (simp add: os.wrote_def)
    from keeps_written [OF assms(1) this, of n] show ?thesis using w(3) by (cases f') simp
  qed
qed

lemma file_safe_write [file_safe_rules]: "file_safe F (on_file (db_write_buf_compressed sn default_file_ops buf))"
proof (rule file_safe_on_file)
  fix f r f' assume k: "keeps F f" and run: "db_write_buf_compressed sn default_file_ops buf f = (r, f')"
  obtain ok h where m: "os_malloc (tf_handle f) = (Inr ok, h)" "os_content h = os_content (tf_handle f)"
    by (cases "os_allocs (tf_handle f)") (auto simp: os_malloc_def)
  have k': "keeps F (f\<lparr>tf_handle := h\<rparr>)" by (rule keeps_same [OF k m(2)])
  show "keeps F f'"
    using run m(1) k' keeps_db_write_buf [OF k']
    by (cases ok) (auto simp: db_write_buf_compressed_def bindE_def on_handle_app)
qed

lemma file_safe_read [file_safe_rules]: "file_safe F (read_node sn default_file_ops p)"
proof -
  have safe: "file_safe F (on_file (on_handle (pread_compressed sn default_file_ops pos)))" for pos
  proof (rule file_safe_on_file)
    fix f r f' assume k: "keeps F f" and run: "on_handle (pread_compressed sn default_file_ops pos) f = (r, f')"
    obtain r' h where h: "pread_compressed sn default_file_ops pos (tf_handle f) = (r', h)" by fastforce
    have rr: "os.reads (tf_handle f) (tf_handle f)" by (simp add: os.reads_refl)
    have "os_content h = os_content (tf_handle f)"
      using hoare_InrD [OF os.pread_compressed_any rr, of sn pos] hoare_InlD [OF os.pread_compressed_any rr, of sn pos] h
      by (cases r') (auto simp: os.reads_def os.reads_err_def)
    then show "keeps F f'" using run k h keeps_same by (auto simp: on_handle_app)
  qed
  show ?thesis
    using safe [of "unat (np_pointer p)"] unfolding file_safe_def read_node_def
    by (force split: prod.splits sum.splits fault.splits)
qed

lemma file_safe_split [file_safe_rules]:
  "(c \<Longrightarrow> file_safe F m) \<Longrightarrow> (\<not> c \<Longrightarrow> file_safe F n) \<Longrightarrow> file_safe F (if c then m else n)"
  "(\<And>a b. file_safe F (f a b)) \<Longrightarrow> file_safe F (case p of (a, b) \<Rightarrow> f a b)"
  "file_safe F m \<Longrightarrow> (\<And>x. file_safe F (g x)) \<Longrightarrow> file_safe F (case opt of None \<Rightarrow> m | Some x \<Rightarrow> g x)"
  "file_safe F m \<Longrightarrow> (\<And>x xs. file_safe F (h x xs)) \<Longrightarrow> file_safe F (case l of [] \<Rightarrow> m | x # xs \<Rightarrow> h x xs)"
  "(\<And>e. file_safe F (i e)) \<Longrightarrow> (\<And>a. file_safe F (j a)) \<Longrightarrow> file_safe F (case r of Inl e \<Rightarrow> i e | Inr a \<Rightarrow> j a)"
  by (simp_all split: prod.split option.split list.split sum.split)

lemma file_safe_flush_mr_partial [file_safe_rules]: "file_safe F (flush_mr_partial sn default_file_ops rq q)"
  unfolding flush_mr_partial_def reduce_node_def Let_def by (intro file_safe_rules)

lemma file_safe_flush_mr [file_safe_rules]: "file_safe F (flush_mr sn default_file_ops rq)"
  unfolding flush_mr_def by (intro file_safe_rules)

lemma file_safe_maybe_flush [file_safe_rules]: "file_safe F (maybe_flush sn default_file_ops rq)"
  unfolding maybe_flush_def by (intro file_safe_rules)

lemma file_safe_push [file_safe_rules]:
  "file_safe F (mr_push_item sn default_file_ops rq k v)" "file_safe F (mr_push_pointerinfo sn default_file_ops rq p)"
  unfolding mr_push_item_def mr_push_pointerinfo_def by (intro file_safe_rules)+

lemma file_safe_move [file_safe_rules]: "file_safe F (mr_move_pointers sn default_file_ops rq ptrs)"
  by (induction ptrs) (auto intro!: file_safe_rules)

lemma file_safe_make_modres [file_safe_rules]: "file_safe F (make_modres default_file_ops ty)"
  unfolding make_modres_def by (intro file_safe_rules)

lemma file_safe_copy [file_safe_rules]: "file_safe F (copy_node_pointer default_file_ops p)"
  unfolding copy_node_pointer_def by (intro file_safe_rules)

lemma file_safe_finish_loop [file_safe_rules]: "file_safe F (finish_root_loop fuel sn default_file_ops rq r)"
  by (induction fuel arbitrary: r) (auto intro!: file_safe_rules)

lemma file_safe_finish [file_safe_rules]:
  "file_safe F (finish_root fuel sn default_file_ops rq)" "file_safe F (complete_new_btree fuel sn default_file_ops rq)"
  unfolding finish_root_def complete_new_btree_def by (intro file_safe_rules)+

lemma file_safe_action [file_safe_rules]: "file_safe F (do_action sn default_file_ops rq a v)"
  by (cases a) (auto simp: do_action_def intro!: file_safe_rules)

lemma file_safe_purge_action:
  "(\<And>a. a = PURGE_ITEM \<Longrightarrow> file_safe F i) \<Longrightarrow> file_safe F st \<Longrightarrow> file_safe F k \<Longrightarrow> file_safe F p \<Longrightarrow>
     file_safe F (case a of PURGE_ITEM \<Rightarrow> i | PURGE_STOP \<Rightarrow> st | PURGE_KEEP \<Rightarrow> k | PURGE_PARTIAL \<Rightarrow> p)"
  by (cases a) auto

lemma file_safe_purgekv [file_safe_rules]: "file_safe F (maybe_purgekv sn default_file_ops rq k v)"
  unfolding maybe_purgekv_def by (intro file_safe_rules file_safe_purge_action) simp_all

lemma file_safe_purgekp [file_safe_rules]:
  "(\<And>p. file_safe F (purge p)) \<Longrightarrow> file_safe F (maybe_purgekp purge sn default_file_ops rq p)"
  unfolding maybe_purgekp_def by (intro file_safe_rules file_safe_purge_action) simp_all

lemma file_safe_read_pointer [file_safe_rules]: "file_safe F (read_pointer_in default_file_ops k v)"
  unfolding read_pointer_in_def by (intro file_safe_rules)

lemma file_safe_purge_kv_items [file_safe_rules]: "file_safe F (purge_kv_items sn default_file_ops rq xs)"
proof (induction xs)
  case (Cons x xs)
  then show ?case by (cases x) (auto intro!: file_safe_rules)
qed (auto intro!: file_safe_rules)

lemma file_safe_purge_kp_items [file_safe_rules]:
  assumes "\<And>p. file_safe F (purge p)"
  shows "file_safe F (purge_kp_items purge sn default_file_ops rq xs)"
proof (induction xs)
  case (Cons x xs)
  then show ?case by (cases x) (auto intro!: file_safe_rules assms)
qed (auto intro!: file_safe_rules)

lemma file_safe_purge_node [file_safe_rules]: "file_safe F (purge_node fuel sn default_file_ops rq nptr)"
proof (induction fuel arbitrary: nptr)
  case (Suc fuel)
  show ?case unfolding purge_node.simps by (intro file_safe_rules Suc)
qed (auto intro!: file_safe_rules)

lemma file_safe_kv_item [file_safe_rules]: "file_safe F (modify_kv_item sn default_file_ops rq k v acts)"
proof (induction acts)
  case (Cons a acts)
  then show ?case by (cases a) (auto simp: Let_def intro!: file_safe_rules)
qed (auto intro!: file_safe_rules)

lemma file_safe_kv_items [file_safe_rules]: "file_safe F (modify_kv_items sn default_file_ops rq xs acts)"
proof (induction xs arbitrary: acts)
  case (Cons x xs)
  then show ?case by (cases x) (auto intro!: file_safe_rules)
qed (auto intro!: file_safe_rules)

lemma file_safe_trailing [file_safe_rules]: "file_safe F (trailing_actions sn default_file_ops rq acts)"
  by (induction acts) (auto intro!: file_safe_rules)

lemma file_safe_kp_items [file_safe_rules]:
  assumes "\<And>p as. file_safe F (descend p as)" and "\<And>p. file_safe F (purge p)"
  shows "file_safe F (modify_kp_items descend purge sn default_file_ops rq xs acts)"
proof (induction xs arbitrary: acts)
  case (Cons x xs)
  then show ?case
    by (cases x; cases acts) (auto simp: Let_def intro!: file_safe_rules assms)
qed (auto intro!: file_safe_rules)

lemma file_safe_modify_node [file_safe_rules]: "file_safe F (modify_node fuel sn default_file_ops rq nptr acts)"
proof (induction fuel arbitrary: nptr acts)
  case (Suc fuel)
  show ?case
    unfolding modify_node.simps modify_local_def modify_leaf_def give_back_def by (intro file_safe_rules Suc)
qed (auto intro!: file_safe_rules)

lemma file_safe_modify_btree: "file_safe F (modify_btree fuel sn default_file_ops rq root)"
  unfolding modify_btree_def by (intro file_safe_rules)

lemma file_safe_guided_purge: "file_safe F (guided_purge_btree fuel sn default_file_ops rq root)"
  unfolding guided_purge_btree_def by (intro file_safe_rules) simp_all

section \<open>Properties\<close>

text \<open>
  C1. Updating the by-id index. Given a file that holds a sorted tree, and actions in order, without
  disturbances \<open>modify_btree\<close> succeeds (with enough fuel), only appends to the file, and the tree at the
  pointer it returns is again well formed, balanced, sorted and carries the right reductions; looked
  at as a map, it is the old map with the insertions and removals applied. The fetch callback has
  been called for every fetch action with the value found in the old tree. (The claim about the new
  tree needs the file to stay below 256 TB and the update to write less than 2 GB.)
\<close>

theorem modify_btree_updates:
  assumes "snappy_ok sn" and "update_request ebin_cmp (Some by_id_reduce) (Some by_id_rereduce) rq"
    and "length (os_content (tf_handle (ms_file s))) \<le> tf_pos (ms_file s)" and "os_calm (tf_handle (ms_file s))"
    and "\<not> ms_purging s" and "tree_at sn id_item id_reduction (os_content (tf_handle (ms_file s))) root xs"
    and "sorted_items ebin_cmp xs" and "ordered_actions ebin_cmp (rq_actions rq)" and "actions_fit id_item (rq_actions rq)"
    and "length (rq_actions rq) + length xs < 2 ^ 31"
  shows "\<exists>ys N. sorted_items ebin_cmp ys \<and>
    (\<forall>k. value_of ebin_cmp ys k = acted ebin_cmp (rq_actions rq) k (value_of ebin_cmp xs k)) \<and>
    (\<forall>fuel\<ge>N. \<exists>root' s'. modify_btree fuel sn default_file_ops rq root s = (Inr root', s') \<and>
      updates_tree sn id_item id_reduction (ms_file s) (ms_file s') root' ys \<and>
      ms_ctx s' = run_fetches rq (fetches ebin_cmp (rq_actions rq) xs) (ms_ctx s))"
  using modify_btree_updates_os [OF id_mod.btree_modifier_axioms assms(1-7,9,10)]
    ebin.updated_sorted [OF assms(7,8)] ebin.value_of_updated [OF assms(7,8)]
  by blast

text \<open>
  C2. What was written is found. After \<open>modify_btree\<close> has updated the by-id index, \<open>btree_lookup\<close> of a
  key in the new tree makes exactly one callback, with the value that the actions left for this key, or
  without a value if they left none.
\<close>

theorem modify_btree_then_lookup:
  assumes "snappy_ok sn" and "update_request ebin_cmp (Some by_id_reduce) (Some by_id_rereduce) rq"
    and "length (os_content (tf_handle (ms_file s))) \<le> tf_pos (ms_file s)" and "os_calm (tf_handle (ms_file s))"
    and "\<not> ms_purging s" and "tree_at sn id_item id_reduction (os_content (tf_handle (ms_file s))) root xs"
    and "sorted_items ebin_cmp xs" and "ordered_actions ebin_cmp (rq_actions rq)" and "actions_fit id_item (rq_actions rq)"
    and "length (rq_actions rq) + length xs < 2 ^ 31"
    and "\<forall>x\<in>set xs. fst x \<noteq> []" and "\<forall>a\<in>set (rq_actions rq). action_key a \<noteq> []"
    and "lr_compare lrq = ebin_cmp" and "lr_node_callback lrq = None" and "lr_keys lrq = [k]" and "k \<noteq> []"
  shows "\<exists>N. \<forall>fuel\<ge>N. \<exists>root' s'. modify_btree fuel sn default_file_ops rq root s = (Inr root', s') \<and>
    (tf_pos (ms_file s') < 2 ^ 48 \<and> tf_pos (ms_file s') < tf_pos (ms_file s) + 2 ^ 31 \<longrightarrow>
     (case root' of
        None \<Rightarrow> acted ebin_cmp (rq_actions rq) k (value_of ebin_cmp xs k) = None
      | Some p \<Rightarrow> \<exists>N'. \<forall>fuel'\<ge>N'. \<exists>ls.
          btree_lookup fuel' sn default_file_ops lrq (np_pointer p)
            \<lparr>lk_handle = tf_handle (ms_file s'), lk_fold = False, lk_in_fold = False, lk_ctx = c\<rparr> =
          (fst (run_calls lrq [(Some k, acted ebin_cmp (rq_actions rq) k (value_of ebin_cmp xs k))] c), ls) \<and>
          lk_ctx ls = snd (run_calls lrq [(Some k, acted ebin_cmp (rq_actions rq) k (value_of ebin_cmp xs k))] c)))"
proof -
  let ?ys = "updated ebin_cmp (rq_actions rq) xs"
  obtain N where N: "\<forall>fuel\<ge>N. \<exists>root' s'. modify_btree fuel sn default_file_ops rq root s = (Inr root', s') \<and>
      updates_tree sn id_item id_reduction (ms_file s) (ms_file s') root' ?ys"
    using modify_btree_updates_os [OF id_mod.btree_modifier_axioms assms(1-7,9,10)] by blast
  have ys: "sorted_items ebin_cmp ?ys" "value_of ebin_cmp ?ys k = acted ebin_cmp (rq_actions rq) k (value_of ebin_cmp xs k)"
    by (rule ebin.updated_sorted [OF assms(7,8)], rule ebin.value_of_updated [OF assms(7,8)])
  have ne: "\<forall>x\<in>set ?ys. fst x \<noteq> []" using set_updated inserted_key assms(11,12) by metis
  have look: "\<exists>N'. \<forall>fuel'\<ge>N'. \<exists>ls. btree_lookup fuel' sn default_file_ops lrq (np_pointer p)
        \<lparr>lk_handle = tf_handle f, lk_fold = False, lk_in_fold = False, lk_ctx = c\<rparr> =
      (fst (run_calls lrq [(Some k, value_of ebin_cmp ?ys k)] c), ls) \<and>
      lk_ctx ls = snd (run_calls lrq [(Some k, value_of ebin_cmp ?ys k)] c)"
    if tr: "tree_at sn id_item id_reduction (os_content (tf_handle f)) (Some p) ?ys" and cm: "os_calm (tf_handle f)" for p f
  proof -
    obtain t where t: "items t = ?ys" "on_disk sn (os_content (tf_handle f)) (unat (np_pointer p)) t" "bt_wf t"
      using tr by (auto simp: tree_at_def)
    then show ?thesis
      using btree_lookup_single [OF t(3) _ _ assms(16,13,14,15),
          of sn "\<lparr>lk_handle = tf_handle f, lk_fold = False, lk_in_fold = False, lk_ctx = c\<rparr>" "np_pointer p"]
        ys(1) ne cm
      by (intro exI [of _ "Suc (height t)"]) (simp add: lookup_answer_def)
  qed
  show ?thesis
  proof (rule exI [of _ N], intro allI impI)
    fix fuel assume "N \<le> fuel"
    then obtain root' s' where run: "modify_btree fuel sn default_file_ops rq root s = (Inr root', s')"
      and up: "updates_tree sn id_item id_reduction (ms_file s) (ms_file s') root' ?ys"
      using N by blast
    have "case root' of None \<Rightarrow> value_of ebin_cmp ?ys k = None
      | Some p \<Rightarrow> \<exists>N'. \<forall>fuel'\<ge>N'. \<exists>ls. btree_lookup fuel' sn default_file_ops lrq (np_pointer p)
            \<lparr>lk_handle = tf_handle (ms_file s'), lk_fold = False, lk_in_fold = False, lk_ctx = c\<rparr> =
          (fst (run_calls lrq [(Some k, value_of ebin_cmp ?ys k)] c), ls) \<and>
          lk_ctx ls = snd (run_calls lrq [(Some k, value_of ebin_cmp ?ys k)] c)"
      if "tf_pos (ms_file s') < 2 ^ 48 \<and> tf_pos (ms_file s') < tf_pos (ms_file s) + 2 ^ 31"
      using up that look [of "ms_file s'"] by (cases root') (auto simp: updates_tree_def tree_at_def)
    then show "\<exists>root' s'. modify_btree fuel sn default_file_ops rq root s = (Inr root', s') \<and>
        (tf_pos (ms_file s') < 2 ^ 48 \<and> tf_pos (ms_file s') < tf_pos (ms_file s) + 2 ^ 31 \<longrightarrow>
         (case root' of None \<Rightarrow> acted ebin_cmp (rq_actions rq) k (value_of ebin_cmp xs k) = None
          | Some p \<Rightarrow> \<exists>N'. \<forall>fuel'\<ge>N'. \<exists>ls. btree_lookup fuel' sn default_file_ops lrq (np_pointer p)
              \<lparr>lk_handle = tf_handle (ms_file s'), lk_fold = False, lk_in_fold = False, lk_ctx = c\<rparr> =
            (fst (run_calls lrq [(Some k, acted ebin_cmp (rq_actions rq) k (value_of ebin_cmp xs k))] c), ls) \<and>
            lk_ctx ls = snd (run_calls lrq [(Some k, acted ebin_cmp (rq_actions rq) k (value_of ebin_cmp xs k))] c)))"
      using run unfolding ys(2) by blast
  qed
qed


lemma flush_items_wrapped:
  "sum_list (map item_size is) < unat q \<Longrightarrow> flush_items ty q k is = (is, [])"
proof (induction "is" arbitrary: q k)
  case (Cons i "is")
  have "unat q < 2 ^ 64" by (rule unat_less_u64)
  then have "unat (word_of_nat (item_size i) :: u64) = item_size i"
    using Cons.prems by (simp add: unat_of_nat take_bit_nat_eq_self)
  then have u: "unat (q - word_of_nat (item_size i)) = unat q - item_size i"
    using Cons.prems by (simp add: unat_sub_if')
  then have "flush_items ty (q - word_of_nat (item_size i)) (Suc k) is = (is, [])"
    using Cons.prems by (intro Cons.IH) simp
  moreover have "0 < q" using Cons.prems by (simp add: word_less_nat_alt)
  ultimately show ?case by simp
qed simp

text \<open>
  C19. The quota of a partial flush is ignored. \<open>flush_mr_partial\<close> means to write a node of about the size
  of its quota and to keep the remaining items, but the quota is an unsigned number that wraps around
  when the item that exceeds it is subtracted: unless the sizes of the first items add up to the
  quota exactly, all items go into the node, however many there are.
\<close>

theorem flush_items_ignores_quota:
  assumes "0 < q" and "2 * sum_list (map item_size is) < 2 ^ 64"
    and "\<forall>k\<le>length is. sum_list (map item_size (take k is)) \<noteq> unat q"
  shows "flush_items ty q n is = (is, [])"
  using assms
proof (induction "is" arbitrary: q n)
  case (Cons i "is")
  let ?w = "word_of_nat (item_size i) :: u64"
  have w: "unat ?w = item_size i" using Cons.prems(2) by (simp add: unat_of_nat take_bit_nat_eq_self)
  have neq: "item_size i \<noteq> unat q" using Cons.prems(3) [rule_format, of 1] by simp
  have "flush_items ty (q - ?w) (Suc n) is = (is, [])"
  proof (cases "item_size i < unat q")
    case True
    then have u: "unat (q - ?w) = unat q - item_size i" using w by (simp add: unat_sub_if')
    show ?thesis
    proof (rule Cons.IH)
      show "0 < q - ?w" using u True by (simp add: word_less_nat_alt)
      show "2 * sum_list (map item_size is) < 2 ^ 64" using Cons.prems(2) by simp
      show "\<forall>k\<le>length is. sum_list (map item_size (take k is)) \<noteq> unat (q - ?w)"
      proof (intro allI impI)
        fix k assume "k \<le> length is"
        then show "sum_list (map item_size (take k is)) \<noteq> unat (q - ?w)"
          using Cons.prems(3) [rule_format, of "Suc k"] u True by simp
      qed
    qed
  next
    case False
    then have "unat (q - ?w) = 2 ^ 64 + unat q - item_size i" using w neq by (simp add: unat_sub_if')
    then show ?thesis using Cons.prems(2) by (intro flush_items_wrapped) simp
  qed
  then show ?case using Cons.prems(1) by simp
qed simp


section \<open>Witnesses\<close>

definition example_request :: "modify_action list \<Rightarrow> (sized_buf \<times> sized_buf option) list modify_request" where
  "example_request acts =
     \<lparr>rq_compare = ebin_cmp, rq_actions = acts, rq_fetch_callback = Some (\<lambda>k v log. log @ [(k, v)]),
      rq_reduce = Some by_id_reduce, rq_rereduce = Some by_id_rereduce, rq_purge_kp = None, rq_purge_kv = None,
      rq_compacting = False, rq_kv_chunk_threshold = DB_CHUNK_THRESHOLD, rq_kp_chunk_threshold = DB_CHUNK_THRESHOLD\<rparr>"

definition example_state :: "byte list \<Rightarrow> io_event list \<Rightarrow> (os_file, (sized_buf \<times> sized_buf option) list) modify_state" where
  "example_state c es =
     \<lparr>ms_file = \<lparr>tf_pos = length c,
         tf_handle = \<lparr>os_content = c, os_synced = [], os_events = es, os_allocs = [], os_errinfo = 0\<rparr>\<rparr>,
      ms_purging = False, ms_ctx = [], ms_res = empty_modres KP_NODE\<rparr>"

definition example_actions :: "modify_action list" where
  "example_actions = [ACTION_FETCH [97], ACTION_INSERT [97] (replicate 23 0)]"

lemma example_request_simps [simp]:
  "rq_actions (example_request acts) = acts" "rq_fetch_callback (example_request acts) = Some (\<lambda>k v log. log @ [(k, v)])"
  by (simp_all add: example_request_def)

lemma example_update:
  "update_request ebin_cmp (Some by_id_reduce) (Some by_id_rereduce) (example_request acts)"
  "ordered_actions ebin_cmp example_actions" "actions_fit id_item example_actions" "length example_actions = 2"
  "\<forall>a\<in>set example_actions. action_key a \<noteq> []"
  by (simp_all add: update_request_def example_request_def DB_CHUNK_THRESHOLD_def example_actions_def
      ordered_actions_def action_key_def inserted_def actions_fit_def id_item_def kv_fits_def)

lemma example_acted: "acted ebin_cmp example_actions k None = (if k = [97] then Some (replicate 23 0) else None)"
  by (auto simp: example_actions_def action_key_def ebin_cmp_zero)

lemma example_state_simps [simp]:
  "ms_file (example_state c es) = \<lparr>tf_pos = length c,
     tf_handle = \<lparr>os_content = c, os_synced = [], os_events = es, os_allocs = [], os_errinfo = 0\<rparr>\<rparr>"
  "\<not> ms_purging (example_state c es)" "ms_ctx (example_state c es) = []"
  by (simp_all add: example_state_def)

lemma example_fetches: "run_fetches (example_request acts) (fetches ebin_cmp example_actions []) [] = [([97], None)]"
  by (simp add: example_actions_def fetch_log_def run_fetches_def)

theorem modify_btree_updates_witness:
  "\<exists>ys N. sorted_items ebin_cmp ys \<and>
    (\<forall>k. value_of ebin_cmp ys k = (if k = [97] then Some (replicate 23 0) else None)) \<and>
    (\<forall>fuel\<ge>N. \<exists>root' s'.
      modify_btree fuel plain_codec default_file_ops (example_request example_actions) None (example_state [] []) = (Inr root', s') \<and>
      updates_tree plain_codec id_item id_reduction (ms_file (example_state [] [])) (ms_file s') root' ys \<and>
      ms_ctx s' = [([97], None)])"
  using modify_btree_updates [OF plain_codec_ok example_update(1), of "example_state [] []" None "[]" example_actions]
    example_update(2-4)
  by (simp add: os_calm_def tree_at_def example_acted example_fetches split del: if_split)

theorem modify_btree_then_lookup_witness:
  "\<exists>N. \<forall>fuel\<ge>N. \<exists>root' s'.
    modify_btree fuel plain_codec default_file_ops (example_request example_actions) None (example_state [] []) = (Inr root', s') \<and>
    (tf_pos (ms_file s') < 2 ^ 48 \<and> tf_pos (ms_file s') < 2 ^ 31 \<longrightarrow>
     (case root' of
        None \<Rightarrow> False
      | Some p \<Rightarrow> \<exists>N'. \<forall>fuel'\<ge>N'. \<exists>ls.
          btree_lookup fuel' plain_codec default_file_ops (logging_request [[97]]) (np_pointer p)
            \<lparr>lk_handle = tf_handle (ms_file s'), lk_fold = False, lk_in_fold = False, lk_ctx = []\<rparr> = (Inr (), ls) \<and>
          lk_ctx ls = [(Some [97], Some (replicate 23 0))]))"
  using modify_btree_then_lookup [OF plain_codec_ok example_update(1), of "example_state [] []" None "[]" example_actions
      "logging_request [[97]]" "[97]" "[]"] example_update(2-5)
  by (simp add: example_acted run_calls_logging os_calm_def tree_at_def value_of_def cong: option.case_cong)


theorem flush_items_ignores_quota_witness:
  "flush_items KV_NODE 10 0 [kv_node ([97], replicate 5 0), kv_node ([98], replicate 5 0), kv_node ([99], replicate 5 0)] =
     ([kv_node ([97], replicate 5 0), kv_node ([98], replicate 5 0), kv_node ([99], replicate 5 0)], [])"
  by (rule flush_items_ignores_quota)
    (auto simp: kv_node_def item_size_def sizeof_raw_kv_length_def le_Suc_eq numeral_3_eq_3)

text \<open>A result with one finished node and one item left, in an environment whose first write fails.\<close>

definition example_pointer :: "byte \<Rightarrow> u64 \<Rightarrow> node_pointer" where
  "example_pointer k pos = \<lparr>np_key = [k], np_pointer = pos, np_reduce_value = [], np_subtreesize = 0\<rparr>"

definition example_result :: modify_result where
  "example_result = \<lparr>mr_values = [encode_pointer (example_pointer 98 4096)], mr_node_len = 20, mr_count = 1,
     mr_pointers = [encode_pointer (example_pointer 97 0)], mr_modified = True, mr_node_type = KP_NODE\<rparr>"

lemma raw_write_fails:
  assumes "buf \<noteq> []" and "os_events h = Failure n # es"
  shows "raw_write default_file_ops buf pos h = (Inl (Err COUCHSTORE_ERROR_WRITE), save_errno n (h\<lparr>os_events := es\<rparr>))"
  using assms
  by (simp add: raw_write_def raw_write_loop_step bindE_def couch_pwrite.simps pwrite_def next_event_def del: raw_write_loop.simps)

lemma db_write_buf_fails:
  assumes "os_events (tf_handle f) = Failure n # es"
  shows "db_write_buf default_file_ops buf f =
    (Inl (Err COUCHSTORE_ERROR_WRITE), f\<lparr>tf_handle := save_errno n ((tf_handle f)\<lparr>os_events := es\<rparr>)\<rparr>)"
proof -
  have "be_bytes 4 w @ be_bytes 4 v \<noteq> []" for w v :: u32
    using length_be_bytes [of 4 w] by (metis append_is_Nil_conv list.size(3) zero_neq_numeral)
  then show ?thesis using assms by (simp add: db_write_buf_def bindE_def on_handle_app raw_write_fails Let_def)
qed


end
