(* ===== verification/Db_Header.thy ===== *)
theory Db_Header
  imports Couch_File Node_Types
begin

text \<open>
  Model of the first part of \<^verbatim>\<open>couchstore/src/couch_db.cc\<close>: the header of a database file, how it is
  written, found again when a database is opened, and made durable by a commit; and of
  \<open>tree_file_open\<close> and \<open>tree_file_close\<close> of \<^verbatim>\<open>couch_file_read.cc\<close>.

  A database is the open file, the header in memory and the flag \<open>dropped\<close>. Positions in the file
  are natural numbers. \<open>find_header_at_pos\<close> assigns the fields of the header one by one, so a header that
  turns out to be invalid has changed some of them; the model does the same.

  \<open>parse_header\<close> and \<open>header_at\<close> are the specification: the header stored in a file at a position. In a
  calm environment \<open>find_header\<close> finds the last valid header of the file, and after a commit that is
  the header committed.
\<close>

section \<open>State\<close>

record db_header =
  hd_disk_version :: u64
  hd_update_seq :: u64
  hd_by_id_root :: "node_pointer option"
  hd_by_seq_root :: "node_pointer option"
  hd_local_docs_root :: "node_pointer option"
  hd_purge_seq :: u64
  hd_purge_ptr :: u64
  hd_position :: nat

record 'h db =
  db_file :: "'h tree_file"
  db_header :: db_header
  db_dropped :: bool

definition ROOT_BASE_SIZE :: nat where
  "ROOT_BASE_SIZE = 12"

definition HEADER_BASE_SIZE :: nat where
  "HEADER_BASE_SIZE = 25"

definition COUCH_DISK_VERSION :: u64 where
  "COUCH_DISK_VERSION = 11"

definition MAX_DB_HEADER_SIZE :: u32 where
  "MAX_DB_HEADER_SIZE = 1024"

definition on_db_file :: "('h tree_file, 'a) cmd \<Rightarrow> ('h db, 'a) cmd" where
  "on_db_file m = zoomE db_file (\<lambda>f db. db\<lparr>db_file := f\<rparr>) m"

definition on_db_handle :: "('h, 'a) cmd \<Rightarrow> ('h db, 'a) cmd" where
  "on_db_handle m = on_db_file (on_handle m)"

definition modify_header :: "(db_header \<Rightarrow> db_header) \<Rightarrow> ('h db, unit) cmd" where
  "modify_header f = modifyE (db_header_update f)"

text \<open>A call whose result is only tested for success: every error becomes the error \<open>e\<close>.\<close>

definition errorE :: "couchstore_error_t \<Rightarrow> ('s, 'a) cmd \<Rightarrow> ('s, 'a) cmd" where
  "errorE e m = (\<lambda>s. case m s of (Inl (Err _), s') \<Rightarrow> (Inl (Err e), s') | r \<Rightarrow> r)"

section \<open>Reading a header\<close>

definition read_db_root ::
  "'h couch_file_ops \<Rightarrow> (node_pointer option \<Rightarrow> db_header \<Rightarrow> db_header) \<Rightarrow> byte list \<Rightarrow> ('h db, unit) cmd" where
  "read_db_root ops root root_data =
     (if root_data \<noteq> []
      then bindE (unlessE (ROOT_BASE_SIZE \<le> length root_data) COUCHSTORE_ERROR_CORRUPT) (\<lambda>_.
        bindE (on_db_handle (fo_malloc ops)) (\<lambda>ok.
          if \<not> ok then throwE InvalidAccess
          else case read_root root_data of
              None \<Rightarrow> throwE (Err COUCHSTORE_ERROR_ALLOC_FAIL)
            | Some r \<Rightarrow>
                bindE (modify_header (root (Some r))) (\<lambda>_.
                  bindE (getE (\<lambda>db. hd_position (db_header db))) (\<lambda>position.
                    unlessE (unat (np_pointer r) < position) COUCHSTORE_ERROR_CORRUPT))))
      else modify_header (root None))"

definition read_header_fields :: "'h couch_file_ops \<Rightarrow> nat \<Rightarrow> byte list \<Rightarrow> ('h db, unit) cmd" where
  "read_header_fields ops pos raw =
     (if raw = [] then throwE InvalidAccess
      else
      let version = ucast (couchstore_decode_raw08 (take 1 raw))
      in
      bindE (modify_header (\<lambda>hdr. hdr\<lparr>hd_position := pos, hd_disk_version := version\<rparr>)) (\<lambda>_.
      bindE (unlessE (version = COUCH_DISK_VERSION) COUCHSTORE_ERROR_HEADER_VERSION) (\<lambda>_.
      if length raw < HEADER_BASE_SIZE then throwE InvalidAccess
      else
      let update_seq = couchstore_decode_raw48p (take 6 (drop 1 raw));
          purge_seq = couchstore_decode_raw48p (take 6 (drop 7 raw));
          purge_ptr = couchstore_decode_raw48p (take 6 (drop 13 raw));
          seqrootsize = unat (couchstore_decode_raw16 (take 2 (drop 19 raw)));
          idrootsize = unat (couchstore_decode_raw16 (take 2 (drop 21 raw)));
          localrootsize = unat (couchstore_decode_raw16 (take 2 (drop 23 raw)))
      in
      bindE (modify_header (\<lambda>hdr. hdr\<lparr>hd_update_seq := update_seq, hd_purge_seq := purge_seq, hd_purge_ptr := purge_ptr\<rparr>)) (\<lambda>_.
      bindE (unlessE (unat purge_ptr \<le> pos) COUCHSTORE_ERROR_CORRUPT) (\<lambda>_.
      bindE (unlessE (length raw = HEADER_BASE_SIZE + seqrootsize + idrootsize + localrootsize) COUCHSTORE_ERROR_CORRUPT) (\<lambda>_.
      bindE (read_db_root ops (\<lambda>r. hd_by_seq_root_update (\<lambda>_. r)) (take seqrootsize (drop HEADER_BASE_SIZE raw))) (\<lambda>_.
      bindE (read_db_root ops (\<lambda>r. hd_by_id_root_update (\<lambda>_. r)) (take idrootsize (drop (HEADER_BASE_SIZE + seqrootsize) raw))) (\<lambda>_.
      read_db_root ops (\<lambda>r. hd_local_docs_root_update (\<lambda>_. r))
        (drop (HEADER_BASE_SIZE + seqrootsize + idrootsize) raw)))))))))"

definition find_header_at_pos :: "'h couch_file_ops \<Rightarrow> nat \<Rightarrow> ('h db, unit) cmd" where
  "find_header_at_pos ops pos =
     bindE (errorE COUCHSTORE_ERROR_READ (on_db_handle (fo_pread ops 2 pos))) (\<lambda>buf.
     bindE (unlessE (length buf = 2) COUCHSTORE_ERROR_READ) (\<lambda>_.
     if buf ! 0 = 0 then throwE (Err COUCHSTORE_ERROR_NO_HEADER)
     else if buf ! 0 \<noteq> 1 then throwE (Err COUCHSTORE_ERROR_CORRUPT)
     else bindE (on_db_handle (pread_header ops pos MAX_DB_HEADER_SIZE)) (read_header_fields ops pos)))"

text \<open>
  The scan backwards over the block boundaries: \<open>find_header_loop ops last_errcode n\<close> tries the \<open>n\<close> blocks from
  \<open>n - 1\<close> down to 0.
\<close>

fun find_header_loop :: "'h couch_file_ops \<Rightarrow> couchstore_error_t \<Rightarrow> nat \<Rightarrow> ('h db, unit) cmd" where
  "find_header_loop ops last_errcode 0 = throwE (Err last_errcode)"
| "find_header_loop ops last_errcode (Suc n) =
     (\<lambda>db. case find_header_at_pos ops (n * COUCH_BLOCK_SIZE) db of
         (Inr u, db') \<Rightarrow> (Inr (), db')
       | (Inl (Err errcode), db') \<Rightarrow>
           if errcode = COUCHSTORE_ERROR_NO_HEADER then find_header_loop ops last_errcode n db'
           else if errcode = COUCHSTORE_ERROR_ALLOC_FAIL then (Inl (Err errcode), db')
           else find_header_loop ops errcode n db'
       | (Inl fault, db') \<Rightarrow> (Inl fault, db'))"

text \<open>
  The number of blocks from the one \<open>start_pos\<close> lies in down to the first. The remainder of the C
  language rounds towards zero, so a small negative position stands for the first block.
\<close>

definition blocks_down :: "int \<Rightarrow> nat" where
  "blocks_down start_pos =
     (if 0 \<le> start_pos then nat start_pos div COUCH_BLOCK_SIZE + 1
      else if - int COUCH_BLOCK_SIZE < start_pos then 1 else 0)"

definition find_header :: "'h couch_file_ops \<Rightarrow> int \<Rightarrow> ('h db, unit) cmd" where
  "find_header ops start_pos = find_header_loop ops COUCHSTORE_ERROR_NO_HEADER (blocks_down start_pos)"

section \<open>Writing a header\<close>

definition root_size :: "node_pointer option \<Rightarrow> nat" where
  "root_size root = (case root of None \<Rightarrow> 0 | Some r \<Rightarrow> ROOT_BASE_SIZE + length (np_reduce_value r))"

definition raw_file_header :: "db_header \<Rightarrow> byte list" where
  "raw_file_header hdr =
     couchstore_encode_raw08 (ucast COUCH_DISK_VERSION) @
     couchstore_encode_raw48 (hd_update_seq hdr) @
     couchstore_encode_raw48 (hd_purge_seq hdr) @
     couchstore_encode_raw48 (hd_purge_ptr hdr) @
     couchstore_encode_raw16 (word_of_nat (root_size (hd_by_seq_root hdr))) @
     couchstore_encode_raw16 (word_of_nat (root_size (hd_by_id_root hdr))) @
     couchstore_encode_raw16 (word_of_nat (root_size (hd_local_docs_root hdr))) @
     encode_root (hd_by_seq_root hdr) @ encode_root (hd_by_id_root hdr) @ encode_root (hd_local_docs_root hdr)"

definition db_write_header :: "'h couch_file_ops \<Rightarrow> ('h db, unit) cmd" where
  "db_write_header ops =
     bindE (on_db_handle (fo_malloc ops)) (\<lambda>ok.
       if \<not> ok then throwE InvalidAccess
       else bindE (getE db_header) (\<lambda>hdr.
         bindE (on_db_file (write_header ops (raw_file_header hdr))) (\<lambda>pos.
           modify_header (hd_position_update (\<lambda>_. pos)))))"

definition create_header :: "'h couch_file_ops \<Rightarrow> ('h db, unit) cmd" where
  "create_header ops =
     bindE (modify_header (\<lambda>hdr. hdr\<lparr>hd_disk_version := COUCH_DISK_VERSION, hd_update_seq := 0, hd_by_id_root := None,
         hd_by_seq_root := None, hd_local_docs_root := None, hd_purge_seq := 0, hd_purge_ptr := 0, hd_position := 0\<rparr>))
       (\<lambda>_. db_write_header ops)"

definition couchstore_get_header_position :: "'h db \<Rightarrow> nat" where
  "couchstore_get_header_position db = hd_position (db_header db)"

definition couchstore_commit :: "'h couch_file_ops \<Rightarrow> ('h db, unit) cmd" where
  "couchstore_commit ops =
     bindE (getE (\<lambda>db. (tf_pos (db_file db), db_header db))) (\<lambda>(curpos, hdr).
     let size = 25 + root_size (hd_by_seq_root hdr) + root_size (hd_by_id_root hdr) + root_size (hd_local_docs_root hdr)
     in
     bindE (modifyE (db_file_update (tf_pos_update (\<lambda>pos. pos + size)))) (\<lambda>_.
     bindE (ignoreE (on_db_file (db_write_buf ops [0]))) (\<lambda>_.
     (\<lambda>db.
        let (errcode, db') = on_db_handle (fo_sync ops) db
        in bindE (modifyE (db_file_update (tf_pos_update (\<lambda>_. curpos)))) (\<lambda>_.
             case errcode of
               Inl e \<Rightarrow> throwE e
             | Inr _ \<Rightarrow> bindE (db_write_header ops) (\<lambda>_. on_db_handle (fo_sync ops))) db'))))"

section \<open>Opening and closing\<close>

definition O_RDONLY :: u32 where "O_RDONLY = 0"
definition O_RDWR :: u32 where "O_RDWR = 2"
definition O_CREAT :: u32 where "O_CREAT = 64"

definition COUCHSTORE_OPEN_FLAG_CREATE :: u64 where "COUCHSTORE_OPEN_FLAG_CREATE = 1"
definition COUCHSTORE_OPEN_FLAG_RDONLY :: u64 where "COUCHSTORE_OPEN_FLAG_RDONLY = 2"

definition has_flag :: "u64 \<Rightarrow> u64 \<Rightarrow> bool" where
  "has_flag flags flag \<longleftrightarrow> flags AND flag \<noteq> 0"

text \<open>
  \<open>tree_file_open\<close> on the operations \<open>ops\<close> and the environment \<open>r\<close> behind them: the operations of the
  open file are the buffered ones. An operations table without the required functions cannot be
  expressed in the model, so its check has no counterpart. An error leaves the environment.
\<close>

definition tree_file_open ::
  "'r couch_file_ops \<Rightarrow> u32 \<Rightarrow> 'r \<Rightarrow> (fault + 'r buffered_file_handle tree_file) \<times> 'r" where
  "tree_file_open ops openflags r =
     (case fo_malloc ops r of
        (Inl e, r1) \<Rightarrow> (Inl e, r1)
      | (Inr False, r1) \<Rightarrow> (Inl (Err COUCHSTORE_ERROR_ALLOC_FAIL), r1)
      | (Inr True, r1) \<Rightarrow>
          (case buffered_constructor ops r1 of
             (None, r2) \<Rightarrow> (Inl (Err COUCHSTORE_ERROR_ALLOC_FAIL), r2)
           | (Some h, r2) \<Rightarrow>
               (case buffered_open ops openflags h of
                  (Inl e, h') \<Rightarrow> (Inl e, bh_raw h')
                | (Inr _, h') \<Rightarrow> (Inr \<lparr>tf_pos = 0, tf_handle = h'\<rparr>, bh_raw h'))))"

definition tree_file_close :: "'h couch_file_ops \<Rightarrow> ('h tree_file, unit) cmd" where
  "tree_file_close ops = on_handle (fo_close ops)"

definition empty_header :: db_header where
  "empty_header = \<lparr>hd_disk_version = 0, hd_update_seq = 0, hd_by_id_root = None, hd_by_seq_root = None,
     hd_local_docs_root = None, hd_purge_seq = 0, hd_purge_ptr = 0, hd_position = 0\<rparr>"

definition couchstore_close_db :: "'h couch_file_ops \<Rightarrow> ('h db, unit) cmd" where
  "couchstore_close_db ops =
     bindE (getE db_dropped) (\<lambda>dropped.
       bindE (if dropped then returnE () else on_db_file (tree_file_close ops)) (\<lambda>_.
         modify_header (\<lambda>hdr. hdr\<lparr>hd_by_id_root := None, hd_by_seq_root := None, hd_local_docs_root := None\<rparr>)))"

text \<open>
  \<open>goto_eof\<close> reports an error as \<open>-1\<close>, which becomes the largest unsigned position.
\<close>

definition couchstore_open_db_ex ::
  "'r couch_file_ops \<Rightarrow> u64 \<Rightarrow> 'r \<Rightarrow> (fault + 'r buffered_file_handle db) \<times> 'r" where
  "couchstore_open_db_ex ops flags r =
     (if has_flag flags COUCHSTORE_OPEN_FLAG_RDONLY \<and> has_flag flags COUCHSTORE_OPEN_FLAG_CREATE
      then (Inl (Err COUCHSTORE_ERROR_INVALID_ARGUMENTS), r)
      else (case fo_malloc ops r of
          (Inl e, r1) \<Rightarrow> (Inl e, r1)
        | (Inr False, r1) \<Rightarrow> (Inl (Err COUCHSTORE_ERROR_ALLOC_FAIL), r1)
        | (Inr True, r1) \<Rightarrow>
            let openflags = (if has_flag flags COUCHSTORE_OPEN_FLAG_RDONLY then O_RDONLY else O_RDWR)
                  OR (if has_flag flags COUCHSTORE_OPEN_FLAG_CREATE then O_CREAT else 0);
                bops = buffered_file_ops ops
            in (case tree_file_open ops openflags r1 of
                (Inl e, r2) \<Rightarrow> (Inl e, r2)
              | (Inr file, r2) \<Rightarrow>
                  (case bindE (on_db_handle (fo_goto_eof bops)) (\<lambda>pos.
                      bindE (modifyE (db_file_update (tf_pos_update (\<lambda>_. nat (pos mod 2 ^ 64))))) (\<lambda>_.
                        if pos = 0
                        then if has_flag flags COUCHSTORE_OPEN_FLAG_RDONLY then throwE (Err COUCHSTORE_ERROR_NO_HEADER)
                             else create_header bops
                        else find_header bops (pos - 2)))
                      \<lparr>db_file = file, db_header = empty_header, db_dropped = False\<rparr> of
                     (Inr _, db) \<Rightarrow> (Inr db, bh_raw (tf_handle (db_file db)))
                   | (Inl e, db) \<Rightarrow> (Inl e, bh_raw (tf_handle (db_file (snd (couchstore_close_db bops db)))))))))"

definition couchstore_open_db :: "u64 \<Rightarrow> os_file \<Rightarrow> (fault + os_file buffered_file_handle db) \<times> os_file" where
  "couchstore_open_db flags r = couchstore_open_db_ex default_file_ops flags r"

definition couchstore_drop_file :: "'h couch_file_ops \<Rightarrow> ('h db, unit) cmd" where
  "couchstore_drop_file ops =
     bindE (getE db_dropped) (\<lambda>dropped.
       if dropped then returnE ()
       else bindE (on_db_file (tree_file_close ops)) (\<lambda>_. modifyE (db_dropped_update (\<lambda>_. True))))"

text \<open>
  Reopening a dropped file, with the operations \<open>ops\<close> stored in it and the environment \<open>r\<close> behind
  them. The result has the header found at the old position, or what was read of it.
\<close>

definition couchstore_reopen_file ::
  "'r couch_file_ops \<Rightarrow> u64 \<Rightarrow> 'r \<Rightarrow> 'h db \<Rightarrow> (fault + 'r buffered_file_handle db) option \<times> 'r" where
  "couchstore_reopen_file ops flags r db =
     (if \<not> db_dropped db then (None, r)
      else (case tree_file_open ops (if has_flag flags COUCHSTORE_OPEN_FLAG_RDONLY then O_RDONLY else O_RDWR) r of
          (Inl e, r1) \<Rightarrow> (Some (Inl e), r1)
        | (Inr file, r1) \<Rightarrow>
            (case bindE (find_header_at_pos (buffered_file_ops ops) (hd_position (db_header db))) (\<lambda>_.
                 bindE (getE (\<lambda>db. hd_update_seq (db_header db))) (\<lambda>update_seq.
                   bindE (unlessE (hd_update_seq (db_header db) = update_seq) COUCHSTORE_ERROR_DB_NO_LONGER_VALID) (\<lambda>_.
                     modifyE (db_dropped_update (\<lambda>_. False)))))
                 \<lparr>db_file = file, db_header = db_header db, db_dropped = True\<rparr> of
               (Inl e, db') \<Rightarrow> (Some (Inl e), bh_raw (tf_handle (db_file db')))
             | (Inr _, db') \<Rightarrow> (Some (Inr db'), bh_raw (tf_handle (db_file db'))))))"

text \<open>A database whose rewind failed has been closed and freed.\<close>

definition couchstore_rewind_db_header :: "'h couch_file_ops \<Rightarrow> ('h db, unit) cmd" where
  "couchstore_rewind_db_header ops = (\<lambda>db.
     case bindE (getE db_dropped) (\<lambda>dropped.
         bindE (unlessE (\<not> dropped) COUCHSTORE_ERROR_FILE_CLOSED) (\<lambda>_.
         bindE (modify_header (\<lambda>hdr. hdr\<lparr>hd_by_id_root := None, hd_by_seq_root := None, hd_local_docs_root := None\<rparr>)) (\<lambda>_.
         bindE (getE (\<lambda>db. hd_position (db_header db))) (\<lambda>position.
         bindE (unlessE (position \<noteq> 0) COUCHSTORE_ERROR_DB_NO_LONGER_VALID) (\<lambda>_.
         find_header ops (int position - 2)))))) db of
       (Inr _, db') \<Rightarrow> (Inr (), db')
     | (Inl (Err _), db') \<Rightarrow> (Inl (Err COUCHSTORE_ERROR_DB_NO_LONGER_VALID), snd (couchstore_close_db ops db'))
     | (Inl fault, db') \<Rightarrow> (Inl fault, db'))"

section \<open>Specification: the header stored at a position\<close>

definition root_ok :: "nat \<Rightarrow> byte list \<Rightarrow> bool" where
  "root_ok pos data \<longleftrightarrow> data = [] \<or> ROOT_BASE_SIZE \<le> length data \<and> unat (couchstore_decode_raw48p (take 6 data)) < pos"

definition parse_header :: "nat \<Rightarrow> byte list \<Rightarrow> db_header option" where
  "parse_header pos raw =
     (let seqrootsize = unat (couchstore_decode_raw16 (take 2 (drop 19 raw)));
          idrootsize = unat (couchstore_decode_raw16 (take 2 (drop 21 raw)));
          localrootsize = unat (couchstore_decode_raw16 (take 2 (drop 23 raw)));
          seq_data = take seqrootsize (drop HEADER_BASE_SIZE raw);
          id_data = take idrootsize (drop (HEADER_BASE_SIZE + seqrootsize) raw);
          local_data = drop (HEADER_BASE_SIZE + seqrootsize + idrootsize) raw
      in if ucast (couchstore_decode_raw08 (take 1 raw)) = COUCH_DISK_VERSION \<and>
            unat (couchstore_decode_raw48p (take 6 (drop 13 raw))) \<le> pos \<and>
            length raw = HEADER_BASE_SIZE + seqrootsize + idrootsize + localrootsize \<and>
            root_ok pos seq_data \<and> root_ok pos id_data \<and> root_ok pos local_data
         then Some \<lparr>hd_disk_version = COUCH_DISK_VERSION,
                    hd_update_seq = couchstore_decode_raw48p (take 6 (drop 1 raw)),
                    hd_by_id_root = read_root id_data, hd_by_seq_root = read_root seq_data,
                    hd_local_docs_root = read_root local_data,
                    hd_purge_seq = couchstore_decode_raw48p (take 6 (drop 7 raw)),
                    hd_purge_ptr = couchstore_decode_raw48p (take 6 (drop 13 raw)),
                    hd_position = pos\<rparr>
         else None)"

definition header_at :: "byte list \<Rightarrow> nat \<Rightarrow> db_header option" where
  "header_at c pos =
     (if pos + 2 \<le> length c \<and> c ! pos = 1
      then (case disk_chunk c (pos + 1) MAX_DB_HEADER_SIZE of None \<Rightarrow> None | Some raw \<Rightarrow> parse_header pos raw)
      else None)"

text \<open>
  A block that the scan passes over: it does not start with the mark of a header, or what follows
  is no intact chunk, or the chunk is no valid header. (A chunk with a good checksum that is
  too short to be a header would be read past its end.)
\<close>

definition bad_header :: "byte list \<Rightarrow> nat \<Rightarrow> bool" where
  "bad_header c pos \<longleftrightarrow> header_at c pos = None \<and>
     (pos + 2 \<le> length c \<longrightarrow> c ! pos = 1 \<longrightarrow>
        (case disk_chunk c (pos + 1) MAX_DB_HEADER_SIZE of None \<Rightarrow> True | Some raw \<Rightarrow> HEADER_BASE_SIZE \<le> length raw))"

lemma parse_header_length: "HEADER_BASE_SIZE \<le> length raw" if "parse_header pos raw = Some hdr"
proof (rule ccontr)
  assume "\<not> HEADER_BASE_SIZE \<le> length raw"
  then have "(length raw = HEADER_BASE_SIZE + a + b + c) = False" for a b c by simp
  then have "parse_header pos raw = None" by (simp only: parse_header_def Let_def simp_thms if_False)
  then show False using that by simp
qed

lemma read_root_Some: "root_ok pos data \<Longrightarrow> data \<noteq> [] \<Longrightarrow> \<exists>r. read_root data = Some r \<and> unat (np_pointer r) < pos"
  by (auto simp: root_ok_def read_root_def)

lemma read_root_pointer: "read_root data = Some r \<Longrightarrow> np_pointer r = couchstore_decode_raw48p (take 6 data)"
  by (auto simp: read_root_def split: if_splits)

text \<open>\<open>at_handle db h\<close>: the database with its handle in state \<open>h\<close>.\<close>

definition at_handle :: "'h db \<Rightarrow> 'h \<Rightarrow> 'h db" where
  "at_handle db h = db\<lparr>db_file := (db_file db)\<lparr>tf_handle := h\<rparr>\<rparr>"

abbreviation handle_of :: "'h db \<Rightarrow> 'h" where
  "handle_of db \<equiv> tf_handle (db_file db)"

lemma at_handle_simps [simp]:
  "tf_handle (db_file (at_handle db h)) = h" "tf_pos (db_file (at_handle db h)) = tf_pos (db_file db)"
  "db_header (at_handle db h) = db_header db" "db_dropped (at_handle db h) = db_dropped db"
  "at_handle (at_handle db h) h' = at_handle db h'"
  "(at_handle db h)\<lparr>db_header := hdr\<rparr> = at_handle (db\<lparr>db_header := hdr\<rparr>) h"
  by (simp_all add: at_handle_def)

lemma on_db_handle_app:
  "on_db_handle m db = (fst (m (handle_of db)), at_handle db (snd (m (handle_of db))))"
  by (simp add: on_db_handle_def on_db_file_def zoomE_def on_handle_app at_handle_def)

lemma modify_header_app [simp]: "modify_header f db = (Inr (), db\<lparr>db_header := f (db_header db)\<rparr>)"
  by (cases db) (simp add: modify_header_def)

lemma bindE_modify_header [simp]: "bindE (modify_header f) k db = k () (db\<lparr>db_header := f (db_header db)\<rparr>)"
  by (cases db) (simp add: modify_header_def)

context file_backend
begin

text \<open>Without disturbances a read that cannot succeed reports an error and has no other effect.\<close>

lemma read_blocks_fails:
  "inv h \<Longrightarrow> calm h \<Longrightarrow> skip_prefix pos = pos \<Longrightarrow> skip_bytes (content h) pos len = None \<Longrightarrow>
     \<exists>h'. read_blocks ops pos len h = (Inl (Err COUCHSTORE_ERROR_READ), h') \<and> calm h'"
proof (induction len arbitrary: pos h rule: less_induct)
  case (less len)
  have len: "len \<noteq> 0" using less.prems(4) by (cases len) auto
  define n where "n = min (COUCH_BLOCK_SIZE - pos mod COUCH_BLOCK_SIZE) len"
  have mod: "pos mod COUCH_BLOCK_SIZE \<noteq> 0" using less.prems(3) skip_prefix_mod [of pos] by simp
  define got where "got = take n (drop pos (content h))"
  define k where "k = length got"
  obtain h1 where step: "fo_pread ops n pos h = (Inr got, h1)" and "calm h1"
    using pread_calm [OF less.prems(1,2), of n pos] by (auto simp: got_def)
  then have h1: "inv h1" "content h1 = content h" using pread_Inr [OF less.prems(1) step] by auto
  show ?case
  proof (cases "got = []")
    case True
    then show ?thesis using step len \<open>calm h1\<close>
      by (simp add: read_blocks.simps [of _ _ len] bindE_def flip: n_def)
  next
    case False
    then have k: "0 < k" "k \<le> n" "pos + k \<le> length (content h)" "k \<le> len"
      by (auto simp: k_def got_def n_def)
    moreover have "got = take k (drop pos (content h))" by (simp add: k_def got_def min_def)
    ultimately have "skip_bytes (content h) pos k = Some got" "skip_end pos k = skip_prefix (pos + k)"
      using skip_bytes_run [of pos k] skip_end_run [of pos k] mod by (auto simp: n_def)
    moreover have "len = k + (len - k)" using k by simp
    ultimately have "skip_bytes (content h1) (skip_prefix (pos + k)) (len - k) = None"
      using skip_bytes_add [of "content h" pos k "len - k"] less.prems(4) h1(2) by simp
    then obtain h2 where "read_blocks ops (skip_prefix (pos + k)) (len - k) h1 = (Inl (Err COUCHSTORE_ERROR_READ), h2)" "calm h2"
      using less.IH [of "len - k" h1 "skip_prefix (pos + k)"] k len h1(1) \<open>calm h1\<close> by auto
    then show ?thesis using len step False
      by (auto simp: read_blocks.simps [of _ _ len] bindE_def k_def simp flip: n_def)
  qed
qed

lemma read_skipping_prefixes_fails:
  assumes "inv h" and "calm h" and "skip_bytes (content h) pos len = None"
  obtains h' where "read_skipping_prefixes ops pos len h = (Inl (Err COUCHSTORE_ERROR_READ), h')" and "calm h'" and "reads h h'"
proof -
  obtain h' where run: "read_blocks ops (skip_prefix pos) len h = (Inl (Err COUCHSTORE_ERROR_READ), h')" "calm h'"
    using read_blocks_fails [OF assms(1,2), of "skip_prefix pos" len] assms(3) by auto
  moreover have "reads h h'" using read_blocks_any [OF assms(1) _ run(1)] by simp
  ultimately show ?thesis using that by (simp add: read_skipping_prefixes_def)
qed

lemma pread_bin_internal_fails:
  assumes "inv h" and "calm h" and "disk_chunk (content h) pos m = None"
  obtains e h' where "pread_bin_internal ops pos m h = (Inl (Err e), h')" and "e \<noteq> COUCHSTORE_ERROR_ALLOC_FAIL"
    and "calm h'" and "reads h h'"
proof (cases "skip_bytes (content h) pos 8")
  case None
  then obtain h' where "read_skipping_prefixes ops pos 8 h = (Inl (Err COUCHSTORE_ERROR_READ), h')" "calm h'" "reads h h'"
    by (rule read_skipping_prefixes_fails [OF assms(1,2)])
  then show ?thesis using that by (simp add: pread_bin_internal_alt bindE_def)
next
  case (Some info)
  obtain good len where payload: "chunk_payload m info = (good, len)" by fastforce
  obtain h1 where h1: "read_skipping_prefixes ops pos 8 h = (Inr (info, skip_end pos 8), h1)" "calm h1" "reads h h1"
    using read_skipping_prefixes_calm assms(1,2) Some by blast
  show ?thesis
  proof (cases len)
    case None
    then show ?thesis using that h1 payload by (simp add: pread_bin_internal_alt bindE_def)
  next
    case len: (Some n)
    obtain h2 where h2: "fo_malloc ops h1 = (Inr True, h2)" "calm h2" "reads h1 h2"
      using malloc_calm_reads h1 readsD(1) by blast
    have r2: "reads h h2" by (rule reads_trans [OF h1(3) h2(3)])
    show ?thesis
    proof (cases "skip_bytes (content h2) (skip_end pos 8) n")
      case None
      then obtain h3 where "read_skipping_prefixes ops (skip_end pos 8) n h2 = (Inl (Err COUCHSTORE_ERROR_READ), h3)"
          "calm h3" "reads h2 h3"
        by (rule read_skipping_prefixes_fails [OF readsD(1) [OF h2(3)] h2(2)])
      then show ?thesis using that [of COUCHSTORE_ERROR_READ h3] h1(1) h2(1) payload len reads_trans [OF r2]
        by (simp add: pread_bin_internal_alt bindE_def)
    next
      case bytes: (Some buf)
      then obtain h3 where h3: "read_skipping_prefixes ops (skip_end pos 8) n h2 = (Inr (buf, skip_end (skip_end pos 8) n), h3)"
          "calm h3" "reads h2 h3"
        using read_skipping_prefixes_calm readsD(1) [OF h2(3)] h2(2) by blast
      have "\<not> good buf" using assms(3) Some payload len bytes readsD(2) [OF r2] by (auto simp: disk_chunk_def)
      then show ?thesis using that [of COUCHSTORE_ERROR_CHECKSUM_FAIL h3] h1(1) h2(1) h3 payload len reads_trans [OF r2]
        by (simp add: pread_bin_internal_alt bindE_def)
    qed
  qed
qed

lemma read_db_root_calm:
  assumes "inv (handle_of db)" and "calm (handle_of db)" and "\<And>r hdr. hd_position (set_root r hdr) = hd_position hdr"
  shows "\<exists>h' hdr'. read_db_root ops set_root data db =
      (if root_ok (hd_position (db_header db)) data then Inr () else Inl (Err COUCHSTORE_ERROR_CORRUPT),
       at_handle (db\<lparr>db_header := hdr'\<rparr>) h') \<and> calm h' \<and> reads (handle_of db) h' \<and>
    (root_ok (hd_position (db_header db)) data \<longrightarrow> hdr' = set_root (read_root data) (db_header db)) \<and>
    hd_position hdr' = hd_position (db_header db)"
proof (cases "data \<noteq> [] \<and> ROOT_BASE_SIZE \<le> length data")
  case True
  obtain h1 where h1: "fo_malloc ops (handle_of db) = (Inr True, h1)" "calm h1" "reads (handle_of db) h1"
    by (rule malloc_calm_reads [OF assms(1,2)])
  obtain r where r: "read_root data = Some r" using True by (simp add: read_root_def)
  have "root_ok (hd_position (db_header db)) data \<longleftrightarrow> unat (np_pointer r) < hd_position (db_header db)"
    using True read_root_pointer [OF r] by (simp add: root_ok_def)
  then show ?thesis using True h1 r assms(3)
    by (intro exI [of _ h1] exI [of _ "set_root (Some r) (db_header db)"])
      (auto simp: read_db_root_def bindE_def on_db_handle_app unlessE_def)
next
  case False
  define hdr where "hdr = (if data = [] then set_root None (db_header db) else db_header db)"
  have "read_db_root ops set_root data db =
      (if root_ok (hd_position (db_header db)) data then Inr () else Inl (Err COUCHSTORE_ERROR_CORRUPT),
       at_handle (db\<lparr>db_header := hdr\<rparr>) (handle_of db))"
    using False by (auto simp: read_db_root_def unlessE_def root_ok_def at_handle_def hdr_def)
  then show ?thesis using False assms reads_refl [OF assms(1)]
    by (intro exI [of _ "handle_of db"] exI [of _ hdr]) (auto simp: hdr_def root_ok_def read_root_def)
qed

lemma read_header_fields_calm:
  assumes "inv (handle_of db)" and "calm (handle_of db)" and "HEADER_BASE_SIZE \<le> length raw"
  shows "\<exists>res h' hdr'. read_header_fields ops pos raw db = (res, at_handle (db\<lparr>db_header := hdr'\<rparr>) h') \<and>
    calm h' \<and> reads (handle_of db) h' \<and>
    (case parse_header pos raw of
       Some hdr \<Rightarrow> res = Inr () \<and> hdr' = hdr
     | None \<Rightarrow> \<exists>e. res = Inl (Err e) \<and> e \<noteq> COUCHSTORE_ERROR_ALLOC_FAIL)"
proof -
  have raw: "raw \<noteq> []" "\<not> length raw < HEADER_BASE_SIZE" using assms(3) by (auto simp: HEADER_BASE_SIZE_def)
  have same: "db\<lparr>db_header := hdr\<rparr> = at_handle (db\<lparr>db_header := hdr\<rparr>) (handle_of db)" for hdr by (simp add: at_handle_def)
  define version :: u64 where "version = ucast (couchstore_decode_raw08 (take 1 raw))"
  define seqsize idsize localsize where "seqsize = unat (couchstore_decode_raw16 (take 2 (drop 19 raw)))"
    and "idsize = unat (couchstore_decode_raw16 (take 2 (drop 21 raw)))"
    and "localsize = unat (couchstore_decode_raw16 (take 2 (drop 23 raw)))"
  define hdr where "hdr = (db_header db)\<lparr>hd_position := pos, hd_disk_version := version,
    hd_update_seq := couchstore_decode_raw48p (take 6 (drop 1 raw)),
    hd_purge_seq := couchstore_decode_raw48p (take 6 (drop 7 raw)),
    hd_purge_ptr := couchstore_decode_raw48p (take 6 (drop 13 raw))\<rparr>"
  define d1 d2 d3 where "d1 = take seqsize (drop HEADER_BASE_SIZE raw)"
    and "d2 = take idsize (drop (HEADER_BASE_SIZE + seqsize) raw)" and "d3 = drop (HEADER_BASE_SIZE + seqsize + idsize) raw"
  define ok where "ok \<longleftrightarrow> version = COUCH_DISK_VERSION \<and> unat (couchstore_decode_raw48p (take 6 (drop 13 raw))) \<le> pos \<and>
    length raw = HEADER_BASE_SIZE + seqsize + idsize + localsize"
  note defs = version_def [symmetric] seqsize_def [symmetric] idsize_def [symmetric] localsize_def [symmetric]
    d1_def [symmetric] d2_def [symmetric] d3_def [symmetric]
  have parse: "parse_header pos raw = (if ok \<and> root_ok pos d1 \<and> root_ok pos d2 \<and> root_ok pos d3
      then Some (hdr\<lparr>hd_by_seq_root := read_root d1, hd_by_id_root := read_root d2, hd_local_docs_root := read_root d3\<rparr>) else None)"
    unfolding parse_header_def Let_def defs by (cases "db_header db") (simp add: ok_def hdr_def)
  show ?thesis
  proof (cases ok)
    case False
    have "\<exists>e hdr'. read_header_fields ops pos raw db = (Inl (Err e), db\<lparr>db_header := hdr'\<rparr>) \<and> e \<noteq> COUCHSTORE_ERROR_ALLOC_FAIL"
      using False raw unfolding read_header_fields_def Let_def defs by (auto simp: ok_def unlessE_def)
    then obtain e hdr' where "read_header_fields ops pos raw db = (Inl (Err e), at_handle (db\<lparr>db_header := hdr'\<rparr>) (handle_of db))"
        "e \<noteq> COUCHSTORE_ERROR_ALLOC_FAIL"
      by (metis same)
    then show ?thesis using assms(2) reads_refl [OF assms(1)] parse False by auto
  next
    case True
    have run: "read_header_fields ops pos raw db =
        bindE (read_db_root ops (\<lambda>r. hd_by_seq_root_update (\<lambda>_. r)) d1) (\<lambda>_.
        bindE (read_db_root ops (\<lambda>r. hd_by_id_root_update (\<lambda>_. r)) d2) (\<lambda>_.
        read_db_root ops (\<lambda>r. hd_local_docs_root_update (\<lambda>_. r)) d3)) (db\<lparr>db_header := hdr\<rparr>)"
      using True raw unfolding read_header_fields_def Let_def defs
      by (simp add: ok_def hdr_def)
    have pos: "hd_position hdr = pos" by (simp add: hdr_def)
    define root1 root2 root3 where "root1 = (\<lambda>r. hd_by_seq_root_update (\<lambda>_. r :: node_pointer option) :: db_header \<Rightarrow> db_header)"
      and "root2 = (\<lambda>r. hd_by_id_root_update (\<lambda>_. r :: node_pointer option) :: db_header \<Rightarrow> db_header)"
      and "root3 = (\<lambda>r. hd_local_docs_root_update (\<lambda>_. r :: node_pointer option) :: db_header \<Rightarrow> db_header)"
    have keep: "hd_position (root1 r h) = hd_position h" "hd_position (root2 r h) = hd_position h"
        "hd_position (root3 r h) = hd_position h" for r h by (simp_all add: root1_def root2_def root3_def)
    let ?h = "handle_of db"
    obtain h1 k1 where 1: "read_db_root ops root1 d1 (db\<lparr>db_header := hdr\<rparr>) =
        (if root_ok pos d1 then Inr () else Inl (Err COUCHSTORE_ERROR_CORRUPT), at_handle (db\<lparr>db_header := k1\<rparr>) h1)"
        "calm h1" "reads ?h h1" "root_ok pos d1 \<longrightarrow> k1 = root1 (read_root d1) hdr" "hd_position k1 = pos"
      using read_db_root_calm [of "db\<lparr>db_header := hdr\<rparr>" root1 d1] assms(1,2) keep pos by auto
    obtain h2 k2 where 2: "read_db_root ops root2 d2 (at_handle (db\<lparr>db_header := k1\<rparr>) h1) =
        (if root_ok pos d2 then Inr () else Inl (Err COUCHSTORE_ERROR_CORRUPT), at_handle (db\<lparr>db_header := k2\<rparr>) h2)"
        "calm h2" "reads h1 h2" "root_ok pos d2 \<longrightarrow> k2 = root2 (read_root d2) k1" "hd_position k2 = pos"
      using read_db_root_calm [of "at_handle (db\<lparr>db_header := k1\<rparr>) h1" root2 d2] readsD(1) [OF 1(3)] 1(2,5) keep by auto
    obtain h3 k3 where 3: "read_db_root ops root3 d3 (at_handle (db\<lparr>db_header := k2\<rparr>) h2) =
        (if root_ok pos d3 then Inr () else Inl (Err COUCHSTORE_ERROR_CORRUPT), at_handle (db\<lparr>db_header := k3\<rparr>) h3)"
        "calm h3" "reads h2 h3" "root_ok pos d3 \<longrightarrow> k3 = root3 (read_root d3) k2"
      using read_db_root_calm [of "at_handle (db\<lparr>db_header := k2\<rparr>) h2" root3 d3] readsD(1) [OF 2(3)] 2(2,5) keep by auto
    note r2 = reads_trans [OF 1(3) 2(3)] and r3 = reads_trans [OF reads_trans [OF 1(3) 2(3)] 3(3)]
    note run' = run [folded root1_def root2_def root3_def]
    show ?thesis
    proof (cases "root_ok pos d1 \<and> root_ok pos d2")
      case ok12: True
      then have "k3 = hdr\<lparr>hd_by_seq_root := read_root d1, hd_by_id_root := read_root d2, hd_local_docs_root := read_root d3\<rparr>"
        if "root_ok pos d3" using 1(4) 2(4) 3(4) that by (simp add: root1_def root2_def root3_def)
      then show ?thesis using run' parse 1(1) 2(1) 3(1,2) r3 ok12 True
        by (cases "root_ok pos d3") (auto simp: bindE_def intro!: exI [of _ h3] exI [of _ k3])
    next
      case False
      then show ?thesis using run' parse 1(1-3) 2(1,2) r2
        by (cases "root_ok pos d1") (auto simp: bindE_def)
    qed
  qed
qed

lemma find_header_at_calm:
  assumes "inv (handle_of db)" and "calm (handle_of db)"
    and "header_at (content (handle_of db)) pos = Some hdr \<or> bad_header (content (handle_of db)) pos"
  shows "\<exists>res h' hdr'. find_header_at_pos ops pos db = (res, at_handle (db\<lparr>db_header := hdr'\<rparr>) h') \<and>
    calm h' \<and> reads (handle_of db) h' \<and>
    (case header_at (content (handle_of db)) pos of
       Some hdr \<Rightarrow> res = Inr () \<and> hdr' = hdr
     | None \<Rightarrow> \<exists>e. res = Inl (Err e) \<and> e \<noteq> COUCHSTORE_ERROR_ALLOC_FAIL)"
proof -
  let ?c = "content (handle_of db)"
  define buf where "buf = take 2 (drop pos ?c)"
  obtain h1 where h1: "fo_pread ops 2 pos (handle_of db) = (Inr buf, h1)" "calm h1"
    using pread_calm [OF assms(1,2)] by (auto simp: buf_def)
  then have r1: "reads (handle_of db) h1" using pread_Inr [OF assms(1) h1(1)] by (simp add: reads_def)
  show ?thesis
  proof (cases "pos + 2 \<le> length ?c \<and> ?c ! pos = 1")
    case False
    have "length buf = 2 \<longrightarrow> pos + 2 \<le> length ?c \<and> buf ! 0 = ?c ! pos" by (auto simp: buf_def)
    then have "\<exists>e. find_header_at_pos ops pos db = (Inl (Err e), at_handle db h1) \<and> e \<noteq> COUCHSTORE_ERROR_ALLOC_FAIL"
      using False h1(1) by (auto simp: find_header_at_pos_def errorE_def bindE_def on_db_handle_app unlessE_def)
    then obtain e where "find_header_at_pos ops pos db = (Inl (Err e), at_handle db h1)" "e \<noteq> COUCHSTORE_ERROR_ALLOC_FAIL"
      by blast
    then show ?thesis using h1(2) r1 False
      by (intro exI [of _ "Inl (Err e)"] exI [of _ h1] exI [of _ "db_header db"]) (auto simp: header_at_def)
  next
    case True
    then have len: "length buf = 2" and buf: "buf ! 0 = 1" by (auto simp: buf_def)
    have max: "MAX_DB_HEADER_SIZE \<noteq> 0" by (simp add: MAX_DB_HEADER_SIZE_def)
    have read: "errorE COUCHSTORE_ERROR_READ (on_db_handle (fo_pread ops 2 pos)) db = (Inr buf, at_handle db h1)"
      using h1(1) by (simp add: errorE_def on_db_handle_app)
    have run: "find_header_at_pos ops pos db =
        bindE (on_db_handle (pread_bin_internal ops (pos + 1) MAX_DB_HEADER_SIZE)) (read_header_fields ops pos) (at_handle db h1)"
      using read len buf max by (simp add: find_header_at_pos_def bindE_Inr [of "errorE _ _"] pread_header_def)
    show ?thesis
    proof (cases "disk_chunk ?c (pos + 1) MAX_DB_HEADER_SIZE")
      case None
      obtain e h2 where h2: "pread_bin_internal ops (pos + 1) MAX_DB_HEADER_SIZE h1 = (Inl (Err e), h2)"
          "e \<noteq> COUCHSTORE_ERROR_ALLOC_FAIL" "calm h2" "reads h1 h2"
        using pread_bin_internal_fails [OF readsD(1) [OF r1] h1(2), of "pos + 1" MAX_DB_HEADER_SIZE] readsD(2) [OF r1] None by auto
      then have "find_header_at_pos ops pos db = (Inl (Err e), at_handle db h2)"
        using run by (simp add: bindE_def on_db_handle_app)
      then show ?thesis using h2(2,3) reads_trans [OF r1 h2(4)] None True
        by (intro exI [of _ "Inl (Err e)"] exI [of _ h2] exI [of _ "db_header db"]) (auto simp: header_at_def)
    next
      case (Some raw)
      obtain h2 where h2: "pread_bin_internal ops (pos + 1) MAX_DB_HEADER_SIZE h1 = (Inr raw, h2)" "calm h2" "reads h1 h2"
        using pread_bin_internal_calm [OF readsD(1) [OF r1] h1(2), of "pos + 1" MAX_DB_HEADER_SIZE raw] readsD(2) [OF r1] Some by auto
      have at: "header_at ?c pos = parse_header pos raw" using True Some by (simp add: header_at_def)
      have "HEADER_BASE_SIZE \<le> length raw"
        using assms(3) at True Some by (auto simp: bad_header_def dest: parse_header_length)
      from read_header_fields_calm [of "at_handle db h2" raw pos, simplified, OF readsD(1) [OF h2(3)] h2(2) this]
      obtain res h3 hdr' where h3: "read_header_fields ops pos raw (at_handle db h2) = (res, at_handle (db\<lparr>db_header := hdr'\<rparr>) h3)"
        "calm h3" "reads h2 h3" "case parse_header pos raw of
            Some hdr \<Rightarrow> res = Inr () \<and> hdr' = hdr
          | None \<Rightarrow> \<exists>e. res = Inl (Err e) \<and> e \<noteq> COUCHSTORE_ERROR_ALLOC_FAIL" by blast
      have "find_header_at_pos ops pos db = (res, at_handle (db\<lparr>db_header := hdr'\<rparr>) h3)"
        using run h2(1) h3(1) by (simp add: bindE_def on_db_handle_app)
      then show ?thesis using h3(2,4) reads_trans [OF reads_trans [OF r1 h2(3)] h3(3)] at
        by (intro exI [of _ res] exI [of _ h3] exI [of _ hdr']) simp
    qed
  qed
qed

text \<open>The scan stops at the last valid header, if all blocks behind it are passed over.\<close>

lemma find_header_loop_calm:
  assumes "inv (handle_of db)" and "calm (handle_of db)"
    and "header_at (content (handle_of db)) (k * COUCH_BLOCK_SIZE) = Some hdr" and "k < n"
    and "\<And>j. k < j \<Longrightarrow> j < n \<Longrightarrow> bad_header (content (handle_of db)) (j * COUCH_BLOCK_SIZE)"
  shows "\<exists>h'. find_header_loop ops e n db = (Inr (), at_handle (db\<lparr>db_header := hdr\<rparr>) h') \<and> calm h' \<and> reads (handle_of db) h'"
  using assms
proof (induction n arbitrary: db e)
  case (Suc n)
  let ?c = "content (handle_of db)" and ?p = "n * COUCH_BLOCK_SIZE"
  have "header_at ?c ?p = Some hdr \<or> bad_header ?c ?p"
    using Suc.prems(3,4) Suc.prems(5) [of n] by (cases "k = n") auto
  from find_header_at_calm [OF Suc.prems(1,2) this] obtain res h1 hdr1
    where h1: "find_header_at_pos ops ?p db = (res, at_handle (db\<lparr>db_header := hdr1\<rparr>) h1)" "calm h1" "reads (handle_of db) h1"
      "case header_at ?c ?p of Some hdr \<Rightarrow> res = Inr () \<and> hdr1 = hdr
       | None \<Rightarrow> \<exists>e. res = Inl (Err e) \<and> e \<noteq> COUCHSTORE_ERROR_ALLOC_FAIL" by blast
  show ?case
  proof (cases "k = n")
    case True
    then show ?thesis using h1 Suc.prems(3) by auto
  next
    case False
    then have "k < n" and "header_at ?c ?p = None" using Suc.prems(4) Suc.prems(5) [of n] by (auto simp: bad_header_def)
    then obtain e1 where e1: "res = Inl (Err e1)" "e1 \<noteq> COUCHSTORE_ERROR_ALLOC_FAIL" using h1(4) by auto
    define db1 where "db1 = at_handle (db\<lparr>db_header := hdr1\<rparr>) h1"
    have db1: "handle_of db1 = h1" "content h1 = ?c" using readsD(2) [OF h1(3)] by (simp_all add: db1_def)
    obtain h2 where h2: "find_header_loop ops (if e1 = COUCHSTORE_ERROR_NO_HEADER then e else e1) n db1 =
        (Inr (), at_handle (db1\<lparr>db_header := hdr\<rparr>) h2)" "calm h2" "reads (handle_of db1) h2"
      using Suc.IH [of db1] db1 h1 Suc.prems \<open>k < n\<close> readsD(1) [OF h1(3)] by auto
    moreover have "find_header_loop ops e (Suc n) db = find_header_loop ops (if e1 = COUCHSTORE_ERROR_NO_HEADER then e else e1) n db1"
      using h1(1) e1 by (simp add: db1_def)
    ultimately show ?thesis using reads_trans [OF h1(3)] db1 by (auto simp: db1_def)
  qed
qed simp

end

section \<open>The header a commit writes\<close>

definition header_size :: "db_header \<Rightarrow> nat" where
  "header_size hdr = 25 + root_size (hd_by_seq_root hdr) + root_size (hd_by_id_root hdr) + root_size (hd_local_docs_root hdr)"

text \<open>
  A header that can be stored: its numbers have 48 bits and with its checksum it is no larger than
  \<open>MAX_DB_HEADER_SIZE\<close>. Read back at position \<open>pos\<close> it is \<open>stored_header pos hdr\<close>: the keys of the roots
  are not stored.
\<close>

definition header_fits :: "db_header \<Rightarrow> bool" where
  "header_fits hdr \<longleftrightarrow> unat (hd_update_seq hdr) < 2 ^ 48 \<and> unat (hd_purge_seq hdr) < 2 ^ 48 \<and> unat (hd_purge_ptr hdr) < 2 ^ 48 \<and>
     root_fits (hd_by_seq_root hdr) \<and> root_fits (hd_by_id_root hdr) \<and> root_fits (hd_local_docs_root hdr) \<and>
     header_size hdr + 4 \<le> unat MAX_DB_HEADER_SIZE"

definition root_below :: "nat \<Rightarrow> node_pointer option \<Rightarrow> bool" where
  "root_below pos node \<longleftrightarrow> (case node of None \<Rightarrow> True | Some np \<Rightarrow> unat (np_pointer np) < pos)"

definition header_below :: "nat \<Rightarrow> db_header \<Rightarrow> bool" where
  "header_below pos hdr \<longleftrightarrow> unat (hd_purge_ptr hdr) \<le> pos \<and> root_below pos (hd_by_seq_root hdr) \<and>
     root_below pos (hd_by_id_root hdr) \<and> root_below pos (hd_local_docs_root hdr)"

definition stored_header :: "nat \<Rightarrow> db_header \<Rightarrow> db_header" where
  "stored_header pos hdr = hdr\<lparr>hd_disk_version := COUCH_DISK_VERSION,
     hd_by_seq_root := map_option (np_key_update (\<lambda>_. [])) (hd_by_seq_root hdr),
     hd_by_id_root := map_option (np_key_update (\<lambda>_. [])) (hd_by_id_root hdr),
     hd_local_docs_root := map_option (np_key_update (\<lambda>_. [])) (hd_local_docs_root hdr), hd_position := pos\<rparr>"

lemma length_encode_root_size [simp]: "length (encode_root node) = root_size node"
  by (simp add: length_encode_root root_size_def ROOT_BASE_SIZE_def split: option.splits)

lemma length_raw_file_header [simp]: "length (raw_file_header hdr) = header_size hdr"
  by (simp add: raw_file_header_def header_size_def)

lemma root_ok_encode_root: "root_fits node \<Longrightarrow> root_below pos node \<Longrightarrow> root_ok pos (encode_root node)"
  by (cases node) (auto simp: root_ok_def root_fits_def root_below_def encode_root_def ROOT_BASE_SIZE_def)

lemma unat_raw16: "n < 2 ^ 16 \<Longrightarrow> unat (couchstore_decode_raw16 (couchstore_encode_raw16 (word_of_nat n))) = n"
  by (simp add: unat_of_nat)

lemma parse_raw_file_header:
  assumes "header_fits hdr" and "header_below pos hdr"
  shows "parse_header pos (raw_file_header hdr) = Some (stored_header pos hdr)"
proof -
  define raw where "raw = raw_file_header hdr"
  let ?s = "hd_by_seq_root hdr" and ?i = "hd_by_id_root hdr" and ?l = "hd_local_docs_root hdr"
  have sizes: "root_size ?s < 2 ^ 16" "root_size ?i < 2 ^ 16" "root_size ?l < 2 ^ 16"
    using assms(1) by (simp_all add: header_fits_def header_size_def MAX_DB_HEADER_SIZE_def)
  have fields: "take 1 raw = couchstore_encode_raw08 (ucast COUCH_DISK_VERSION)"
      "take 6 (drop 1 raw) = couchstore_encode_raw48 (hd_update_seq hdr)"
      "take 6 (drop 7 raw) = couchstore_encode_raw48 (hd_purge_seq hdr)"
      "take 6 (drop 13 raw) = couchstore_encode_raw48 (hd_purge_ptr hdr)"
      "take 2 (drop 19 raw) = couchstore_encode_raw16 (word_of_nat (root_size ?s))"
      "take 2 (drop 21 raw) = couchstore_encode_raw16 (word_of_nat (root_size ?i))"
      "take 2 (drop 23 raw) = couchstore_encode_raw16 (word_of_nat (root_size ?l))"
      "take (root_size ?s) (drop HEADER_BASE_SIZE raw) = encode_root ?s"
      "take (root_size ?i) (drop (HEADER_BASE_SIZE + root_size ?s) raw) = encode_root ?i"
      "drop (HEADER_BASE_SIZE + root_size ?s + root_size ?i) raw = encode_root ?l"
    unfolding raw_def raw_file_header_def HEADER_BASE_SIZE_def by simp_all
  have "length raw = HEADER_BASE_SIZE + root_size ?s + root_size ?i + root_size ?l"
    by (simp add: raw_def header_size_def HEADER_BASE_SIZE_def)
  moreover have "root_ok pos (encode_root ?s)" "root_ok pos (encode_root ?i)" "root_ok pos (encode_root ?l)"
    using assms root_ok_encode_root by (simp_all add: header_fits_def header_below_def)
  moreover have "ucast (ucast COUCH_DISK_VERSION :: byte) = COUCH_DISK_VERSION" by (simp add: COUCH_DISK_VERSION_def)
  ultimately show ?thesis
    using assms read_root_of_encode_root unfolding raw_def [symmetric] parse_header_def Let_def fields unat_raw16 [OF sizes(1)]
      unat_raw16 [OF sizes(2)] unat_raw16 [OF sizes(3)]
    by (cases hdr) (simp add: header_fits_def header_below_def stored_header_def)
qed

text \<open>A short piece of data crosses at most one block boundary.\<close>

lemma length_raw_image_le:
  assumes "length bs < COUCH_BLOCK_SIZE"
  shows "length (raw_image pos bs) \<le> length bs + 1"
proof -
  have aligned: "length (raw_image p cs) \<le> length cs + 1" if "p mod COUCH_BLOCK_SIZE = 0" "length cs < COUCH_BLOCK_SIZE" for p cs
  proof (cases cs)
    case (Cons b cs')
    have "raw_image p cs = 0 # b # raw_image (p + 2) cs'" using Cons that by simp
    moreover have "raw_image (p + 2) cs' = cs'"
      using that Cons by (intro raw_image_run) (auto simp: mod_Suc COUCH_BLOCK_SIZE_def)
    ultimately show ?thesis using Cons by simp
  qed simp
  show ?thesis
  proof (cases "pos mod COUCH_BLOCK_SIZE = 0")
    case False
    define k where "k = COUCH_BLOCK_SIZE - pos mod COUCH_BLOCK_SIZE"
    have run: "raw_image pos (take k bs) = take k bs" using False by (intro raw_image_run) (simp_all add: k_def)
    show ?thesis
    proof (cases "length bs \<le> k")
      case False
      have "pos = COUCH_BLOCK_SIZE * (pos div COUCH_BLOCK_SIZE) + pos mod COUCH_BLOCK_SIZE" by simp
      moreover have "pos mod COUCH_BLOCK_SIZE < COUCH_BLOCK_SIZE" by (simp add: COUCH_BLOCK_SIZE_def)
      ultimately have "pos + k = COUCH_BLOCK_SIZE * (pos div COUCH_BLOCK_SIZE) + COUCH_BLOCK_SIZE" unfolding k_def by linarith
      then have "(pos + k) mod COUCH_BLOCK_SIZE = 0" by simp
      then have "length (raw_image (pos + k) (drop k bs)) \<le> length bs - k + 1" using aligned [of "pos + k" "drop k bs"] assms by simp
      moreover have "raw_image pos bs = take k bs @ raw_image (pos + k) (drop k bs)"
        using raw_image_append [of pos "take k bs" "drop k bs"] run False by simp
      ultimately show ?thesis using False by simp
    qed (use run in simp)
  qed (use aligned assms in simp)
qed

lemma header_image_length:
  assumes "pos mod COUCH_BLOCK_SIZE = 0" and "length buf + 9 \<le> COUCH_BLOCK_SIZE"
  shows "length (header_image pos buf) = length buf + 9"
proof -
  let ?bs = "(be_bytes 4 (word_of_nat (length buf + 4) :: u32) @ be_bytes 4 (hash_crc32 buf)) @ buf"
  have "(pos + 1) mod COUCH_BLOCK_SIZE = 1" using assms(1) by (simp add: mod_Suc)
  then have "raw_image (pos + 1) ?bs = ?bs" using assms(2) by (intro raw_image_run) simp_all
  then show ?thesis by (simp add: header_image_def)
qed

context file_backend
begin

lemma db_write_header_calm:
  assumes "can_write (db_file db)" and "calm (handle_of db)"
  defines "pos \<equiv> align_block (tf_pos (db_file db))"
  defines "img \<equiv> header_image pos (raw_file_header (db_header db))"
  obtains f' where "db_write_header ops db = (Inr (), db\<lparr>db_file := f', db_header := (db_header db)\<lparr>hd_position := pos\<rparr>\<rparr>)"
    and "calm (tf_handle f')" and "can_write f'" and "tf_pos f' = pos + length img"
    and "content (tf_handle f') = write_at (content (handle_of db)) pos img"
proof -
  obtain h1 where h1: "fo_malloc ops (handle_of db) = (Inr True, h1)" "calm h1"
    using malloc_calm assms(1,2) by (auto simp: can_write_def)
  then have h1': "inv h1" "content h1 = content (handle_of db)" "cached h1 \<le> cached (handle_of db)"
    using malloc_any [of "handle_of db"] assms(1) by (auto simp: can_write_def)
  define f where "f = (db_file db)\<lparr>tf_handle := h1\<rparr>"
  have "can_write f" "calm (tf_handle f)" using assms(1) h1 h1' by (auto simp: can_write_def f_def)
  from write_header_calm [OF this, of "raw_file_header (db_header db)"] obtain f'
    where f': "write_header ops (raw_file_header (db_header db)) f = (Inr pos, f')" "calm (tf_handle f')" "can_write f'"
      "tf_pos f' = pos + length img" "content (tf_handle f') = write_at (content (handle_of db)) pos img"
    using h1'(2) by (auto simp: f_def pos_def img_def)
  show ?thesis
  proof (rule that [of f'])
    show "db_write_header ops db = (Inr (), db\<lparr>db_file := f', db_header := (db_header db)\<lparr>hd_position := pos\<rparr>\<rparr>)"
      using f'(1) h1(1) by (simp add: db_write_header_def bindE_def on_db_handle_app at_handle_def on_db_file_def zoomE_def f_def)
  qed (use f' in simp_all)
qed

text \<open>
  A commit without disturbances: the byte behind the header to come, a sync, the header, and a
  sync of everything.
\<close>

lemma couchstore_commit_calm:
  assumes "can_write (db_file db)" and "calm (handle_of db)"
  defines "hdr \<equiv> db_header db" and "pos \<equiv> align_block (tf_pos (db_file db))"
  defines "q \<equiv> tf_pos (db_file db) + header_size (db_header db)"
  defines "img \<equiv> header_image pos (raw_file_header hdr)"
  obtains f' h where "couchstore_commit ops db = (Inr (), db\<lparr>db_file := f', db_header := hdr\<lparr>hd_position := pos\<rparr>\<rparr>)"
    and "calm (tf_handle f')" and "can_write f'" and "tf_pos f' = pos + length img"
    and "content (tf_handle f') = write_at (write_at (content (handle_of db)) q (chunk_image q [0])) pos img"
    and "inv h" and "content h = content (tf_handle f')" and "fo_sync ops h = (Inr (), tf_handle f')"
proof -
  define f0 where "f0 = (db_file db)\<lparr>tf_pos := q\<rparr>"
  have "can_write f0" "calm (tf_handle f0)" using assms(1,2) by (auto simp: can_write_def f0_def q_def)
  from db_write_buf_calm [OF this] obtain n f1 where f1: "db_write_buf ops [0] f0 = (Inr (tf_pos f0, n), f1)" "calm (tf_handle f1)" by blast
  have w1: "wrote q (chunk_image q [0]) (tf_handle f0) (tf_handle f1)"
    using db_write_buf_Inr(4) [OF \<open>can_write f0\<close> f1(1)] by (simp add: f0_def)
  obtain h2 where h2: "fo_sync ops (tf_handle f1) = (Inr (), h2)" "calm h2" using sync_calm wroteD(1) [OF w1] f1(2) by blast
  have s2: "inv h2" "content h2 = content (tf_handle f1)" "cached h2 \<le> cached (tf_handle f1)"
    using sync_any [OF wroteD(1) [OF w1] h2(1)] by auto
  define db2 where "db2 = db\<lparr>db_file := \<lparr>tf_pos = tf_pos (db_file db), tf_handle = h2\<rparr>\<rparr>"
  have c2: "content h2 = write_at (content (handle_of db)) q (chunk_image q [0])" "cached h2 \<le> tf_pos (db_file db)"
    using s2 w1 assms(1) by (auto simp: wrote_def f0_def can_write_def)
  then have "can_write (db_file db2)" "calm (handle_of db2)" using s2(1) h2(2) by (simp_all add: db2_def can_write_def)
  from db_write_header_calm [OF this] obtain f3
    where f3: "db_write_header ops db2 = (Inr (), db\<lparr>db_file := f3, db_header := hdr\<lparr>hd_position := pos\<rparr>\<rparr>)"
      "calm (tf_handle f3)" "can_write f3" "tf_pos f3 = pos + length img"
      "content (tf_handle f3) = write_at (content h2) pos img"
    by (auto simp: db2_def pos_def img_def hdr_def)
  then have i3: "inv (tf_handle f3)" by (simp add: can_write_def)
  obtain h4 where h4: "fo_sync ops (tf_handle f3) = (Inr (), h4)" "calm h4" using sync_calm [OF i3 f3(2)] by blast
  have s4: "inv h4" "content h4 = content (tf_handle f3)" "cached h4 \<le> cached (tf_handle f3)" using sync_any [OF i3 h4(1)] by auto
  have run: "couchstore_commit ops db = (Inr (), db\<lparr>db_file := f3\<lparr>tf_handle := h4\<rparr>, db_header := hdr\<lparr>hd_position := pos\<rparr>\<rparr>)"
  proof -
    have "ignoreE (on_db_file (db_write_buf ops [0])) (db\<lparr>db_file := f0\<rparr>) = (Inr (), db\<lparr>db_file := f1\<rparr>)"
      using f1(1) by (simp add: ignoreE_def on_db_file_def zoomE_def)
    moreover have "db_file_update (tf_pos_update (\<lambda>pos. pos + header_size hdr)) db = db\<lparr>db_file := f0\<rparr>"
      by (cases db) (simp add: f0_def q_def hdr_def)
    ultimately show ?thesis using h2(1) f3(1) h4(1)
      by (cases f1) (simp add: comp_def couchstore_commit_def Let_def bindE_Inr [of "ignoreE _"] bindE_Inr [of "db_write_header _"] on_db_handle_app
          at_handle_def db2_def flip: header_size_def hdr_def)
  qed
  show ?thesis
  proof (rule that [OF run, of "tf_handle f3"])
    show "can_write (f3\<lparr>tf_handle := h4\<rparr>)" using s4 f3(3) by (simp add: can_write_def)
  qed (use f3 h4 s4 i3 c2 in simp_all)
qed

end

text \<open>
  What a commit leaves in the file: everything that was there, and the header at the next block
  boundary; the byte written first lies within it or before it.
\<close>

lemma write_at_first: "write_at c off (b # bs) ! off = b"
proof -
  define pre where "pre = take off c @ replicate (off - length c) 0"
  have "write_at c off (b # bs) = pre @ b # bs @ drop (off + length (b # bs)) c" by (simp add: write_at_def pre_def)
  moreover have "length pre = off" by (simp add: pre_def)
  ultimately show ?thesis using nth_append_length [of pre b] by simp
qed

lemma committed_content:
  assumes "length c \<le> curpos" and "header_fits hdr" and "header_below pos hdr" and "pos = align_block curpos"
  defines "q \<equiv> curpos + header_size hdr" and "img \<equiv> header_image pos (raw_file_header hdr)"
  defines "c' \<equiv> write_at (write_at c q (chunk_image q [0])) pos img"
  shows "length c' = pos + length img" and "length img = header_size hdr + 9" and "prefix c c'"
    and "header_at c' pos = Some (stored_header pos hdr)"
proof -
  have size: "header_size hdr + 4 \<le> 1024" "25 \<le> header_size hdr"
    using assms(2) by (simp_all add: header_fits_def MAX_DB_HEADER_SIZE_def header_size_def)
  have mod: "pos mod COUCH_BLOCK_SIZE = 0" and ge: "curpos \<le> pos" using assms(4) align_block_mod align_block_ge by simp_all
  show len: "length img = header_size hdr + 9"
    unfolding img_def using header_image_length [OF mod, of "raw_file_header hdr"] size by (simp add: COUCH_BLOCK_SIZE_def)
  have "q + length (chunk_image q [0]) \<le> pos + length img"
  proof (cases "pos = curpos")
    case True
    have "q mod COUCH_BLOCK_SIZE = header_size hdr"
      using mod size True mod_add_left_eq [of pos COUCH_BLOCK_SIZE "header_size hdr"] by (simp add: q_def COUCH_BLOCK_SIZE_def)
    then have "raw_image q (chunk_header [0] @ [0]) = chunk_header [0] @ [0]"
      using size by (intro raw_image_run) (simp_all add: COUCH_BLOCK_SIZE_def)
    then show ?thesis using True len by (simp add: chunk_image_def q_def)
  next
    case False
    then show ?thesis
      using length_raw_image_le [of "chunk_header [0] @ [0]" q] ge len by (simp add: chunk_image_def q_def COUCH_BLOCK_SIZE_def)
  qed
  moreover have img: "img \<noteq> []" by (simp add: img_def header_image_def)
  ultimately show l: "length c' = pos + length img"
    using assms(1) ge by (simp add: c'_def length_write_at q_def split: if_splits)
  have "prefix c (write_at c q (chunk_image q [0]))" using assms(1) by (intro write_at_prefix) (simp add: q_def)
  then obtain rest where "write_at c q (chunk_image q [0]) = c @ rest" by (auto simp: prefix_def)
  then show "prefix c c'" using assms(1) ge img by (simp add: c'_def write_at_def)
  have "disk_chunk c' (pos + 1) MAX_DB_HEADER_SIZE = Some (raw_file_header hdr)"
    unfolding c'_def img_def using size by (intro disk_chunk_header) (simp_all add: MAX_DB_HEADER_SIZE_def)
  moreover have "c' ! pos = 1"
    by (simp add: c'_def write_at_first img_def header_image_def)
  ultimately show "header_at c' pos = Some (stored_header pos hdr)"
    using l len parse_raw_file_header [OF assms(2,3)] by (simp add: header_at_def)
qed

lemma tree_file_open_calm:
  assumes "os_calm r"
  obtains h where "tree_file_open default_file_ops fl r = (Inr \<lparr>tf_pos = 0, tf_handle = h\<rparr>, bh_raw h)"
    and "os.binv h" and "os.bcalm h" and "os.bcontent h = os_content r" and "os.bcached h = 0" and "os_content (bh_raw h) = os_content r"
proof -
  have r1: "os_malloc r = (Inr True, r)" using assms by (simp add: os_malloc_def os_calm_def)
  obtain h r2 where h: "buffered_constructor default_file_ops r = (Some h, r2)" using os.constructor_calm assms by blast
  note fresh = os.constructor_fresh [OF h TrueI]
  have r3: "couch_open fl (bh_raw h) = (Inr (), bh_raw h)"
    using fresh(7) [OF assms] couch_open_calm by (simp add: os.bcalm_def)
  show ?thesis
  proof (rule that [of h])
    show "tree_file_open default_file_ops fl r = (Inr \<lparr>tf_pos = 0, tf_handle = h\<rparr>, bh_raw h)"
      using r1 h r3 by (simp add: tree_file_open_def buffered_open_def os.on_raw_app)
    show "os_content (bh_raw h) = os_content r" using fresh(2,6)
      by (simp add: os.bcontent_def wb_overlay_def new_buffer_def)
  qed (use fresh assms in simp_all)
qed

lemma blocks_down_gt: "0 \<le> p \<Longrightarrow> k < blocks_down p \<longleftrightarrow> int (k * COUCH_BLOCK_SIZE) \<le> p"
proof -
  assume "0 \<le> p"
  then have "k < blocks_down p \<longleftrightarrow> k \<le> nat p div COUCH_BLOCK_SIZE" by (auto simp: blocks_down_def)
  also have "\<dots> \<longleftrightarrow> k * COUCH_BLOCK_SIZE \<le> nat p" by (simp add: less_eq_div_iff_mult_less_eq COUCH_BLOCK_SIZE_def)
  also have "\<dots> \<longleftrightarrow> int (k * COUCH_BLOCK_SIZE) \<le> p" using \<open>0 \<le> p\<close> by linarith
  finally show ?thesis .
qed

text \<open>\<open>last_header c hdr\<close>: the last valid header of the file is \<open>hdr\<close>, and all block starts behind it are passed over.\<close>

definition last_header :: "byte list \<Rightarrow> db_header \<Rightarrow> bool" where
  "last_header c hdr \<longleftrightarrow> (\<exists>k. header_at c (k * COUCH_BLOCK_SIZE) = Some hdr \<and>
     (\<forall>j>k. j * COUCH_BLOCK_SIZE + 2 \<le> length c \<longrightarrow> bad_header c (j * COUCH_BLOCK_SIZE)))"

definition opened :: "os_file \<Rightarrow> db_header \<Rightarrow> os_file buffered_file_handle db \<Rightarrow> bool" where
  "opened r hdr db \<longleftrightarrow> db_header db = hdr \<and> \<not> db_dropped db \<and> buf.ready (db_file db) \<and> os.bcalm (handle_of db) \<and>
     os.bcontent (handle_of db) = os_content r \<and> tf_pos (db_file db) = length (os_content r)"

lemma open_db_last_header:
  assumes "os_calm r" and "length (os_content r) < 2 ^ 63" and "last_header (os_content r) hdr"
    and "\<not> (has_flag flags COUCHSTORE_OPEN_FLAG_RDONLY \<and> has_flag flags COUCHSTORE_OPEN_FLAG_CREATE)"
  obtains db r' where "couchstore_open_db flags r = (Inr db, r')" and "opened r hdr db"
proof -
  let ?c = "os_content r" and ?bops = "buffered_file_ops default_file_ops"
  obtain k where k: "header_at ?c (k * COUCH_BLOCK_SIZE) = Some hdr"
      "\<And>j. k < j \<Longrightarrow> j * COUCH_BLOCK_SIZE + 2 \<le> length ?c \<Longrightarrow> bad_header ?c (j * COUCH_BLOCK_SIZE)"
    using assms(3) by (auto simp: last_header_def)
  then have len: "k * COUCH_BLOCK_SIZE + 2 \<le> length ?c" by (auto simp: header_at_def split: if_splits)
  have r1: "os_malloc r = (Inr True, r)" using assms(1) by (simp add: os_malloc_def os_calm_def)
  define fl where "fl = (if has_flag flags COUCHSTORE_OPEN_FLAG_RDONLY then O_RDONLY else O_RDWR)
                  OR (if has_flag flags COUCHSTORE_OPEN_FLAG_CREATE then O_CREAT else 0)"
  obtain h where h: "tree_file_open default_file_ops fl r = (Inr \<lparr>tf_pos = 0, tf_handle = h\<rparr>, bh_raw h)"
      "os.binv h" "os.bcalm h" "os.bcontent h = ?c" "os.bcached h = 0" "os_content (bh_raw h) = ?c"
    by (rule tree_file_open_calm [OF assms(1)])
  have eof: "buffered_goto_eof default_file_ops h = (Inr (int (length ?c)), h)"
    using couch_goto_eof_calm [of "bh_raw h"] h(3,6) by (simp add: buffered_goto_eof_def os.on_raw_app os.bcalm_def)
  define db1 where "db1 = \<lparr>db_file = \<lparr>tf_pos = length ?c, tf_handle = h\<rparr>, db_header = empty_header, db_dropped = False\<rparr>"
  have less: "j < blocks_down (int (length ?c) - 2) \<longleftrightarrow> j * COUCH_BLOCK_SIZE + 2 \<le> length ?c" for j
    using blocks_down_gt [of "int (length ?c) - 2" j] len by linarith
  have "\<exists>h'. find_header_loop ?bops COUCHSTORE_ERROR_NO_HEADER (blocks_down (int (length ?c) - 2)) db1 =
      (Inr (), at_handle (db1\<lparr>db_header := hdr\<rparr>) h') \<and> os.bcalm h' \<and> buf.reads (handle_of db1) h'"
    by (rule buf.find_header_loop_calm) (use h k len less in \<open>simp_all add: db1_def\<close>)
  then obtain h' where find: "find_header ?bops (int (length ?c) - 2) db1 = (Inr (), at_handle (db1\<lparr>db_header := hdr\<rparr>) h')"
    and h': "os.bcalm h'" "buf.reads h h'" by (auto simp: find_header_def db1_def)
  define db where "db = at_handle (db1\<lparr>db_header := hdr\<rparr>) h'"
  show ?thesis
  proof (rule that [of db "bh_raw h'"])
    have "on_db_handle (buffered_goto_eof default_file_ops) (db1\<lparr>db_file := \<lparr>tf_pos = 0, tf_handle = h\<rparr>\<rparr>) =
        (Inr (int (length ?c)), db1\<lparr>db_file := \<lparr>tf_pos = 0, tf_handle = h\<rparr>\<rparr>)"
      using eof by (simp add: on_db_handle_app at_handle_def)
    moreover have "nat (int (length ?c) mod 2 ^ 64) = length ?c" using assms(2) by (simp add: nat_mod_as_int)
    moreover have "int (length ?c) \<noteq> 0" using len by linarith
    ultimately show "couchstore_open_db flags r = (Inr db, bh_raw h')"
      using assms(4) r1 h(1) eof find len
      by (simp add: couchstore_open_db_def couchstore_open_db_ex_def Let_def db_def db1_def bindE_Inr [of "on_db_handle _"]
          del: of_nat_eq_0_iff flip: fl_def)
    show "opened r hdr db"
      using h' h(4,5) buf.readsD [OF h'(2)] by (auto simp: opened_def db_def db1_def buf.ready_def buf.can_write_def buf.reads_def at_handle_def)
  qed
qed

text \<open>Commands that leave the position in the file alone, whatever the environment does.\<close>

definition keeps_pos :: "nat \<Rightarrow> ('h db, 'a) cmd \<Rightarrow> bool" where
  "keeps_pos p m \<longleftrightarrow> hoare (\<lambda>db. tf_pos (db_file db) = p) m (\<lambda>_ db. tf_pos (db_file db) = p) (\<lambda>_ db. tf_pos (db_file db) = p)"

lemma keeps_pos_alt: "keeps_pos p m \<longleftrightarrow> (\<forall>db. tf_pos (db_file db) = p \<longrightarrow> tf_pos (db_file (snd (m db))) = p)"
  by (auto simp: keeps_pos_def hoare_def split: prod.splits sum.splits) (metis old.sum.exhaust snd_conv surj_pair)+

named_theorems keeps_pos_rules

lemma keeps_pos_bindE [keeps_pos_rules]: "keeps_pos p m \<Longrightarrow> (\<And>a. keeps_pos p (f a)) \<Longrightarrow> keeps_pos p (bindE m f)"
  unfolding keeps_pos_def by (rule hoare_bindE)

lemma keeps_pos_errorE [keeps_pos_rules]: "keeps_pos p m \<Longrightarrow> keeps_pos p (errorE e m)"
proof -
  have "\<exists>r. errorE e m db = (r, snd (m db))" for db
    by (cases "m db") (simp add: errorE_def split: sum.split fault.split)
  moreover assume "keeps_pos p m"
  ultimately show "keeps_pos p (errorE e m)"
    unfolding keeps_pos_alt by (metis snd_conv)
qed

lemma keeps_pos_if [keeps_pos_rules]: "(c \<Longrightarrow> keeps_pos p m) \<Longrightarrow> (\<not> c \<Longrightarrow> keeps_pos p n) \<Longrightarrow> keeps_pos p (if c then m else n)"
  by simp

lemma keeps_pos_basic [keeps_pos_rules]:
  "keeps_pos p (returnE a)" "keeps_pos p (throwE e)" "keeps_pos p (unlessE c err)" "keeps_pos p (getE g)"
  "keeps_pos p (modify_header f)" "keeps_pos p (on_db_handle k)"
  by (simp_all add: keeps_pos_def hoare_def unlessE_def on_db_handle_app split: sum.split)

lemma keeps_pos_find_header: "keeps_pos p (find_header_at_pos ops pos)"
proof -
  have "keeps_pos p (read_db_root ops root data)" for root data
    unfolding read_db_root_def by (intro keeps_pos_rules) (auto split: option.split intro!: keeps_pos_rules)
  then show ?thesis
    unfolding find_header_at_pos_def read_header_fields_def Let_def by (intro keeps_pos_rules)
qed

section \<open>Properties\<close>

text \<open>
  C5. Opening a database finds its last header: if the last block start of the file that carries a
  valid header carries \<open>hdr\<close>, and nothing behind it is taken for one (torn headers, a wrong
  checksum, blocks of data), then without disturbances the database is opened with exactly the fields of \<open>hdr\<close>,
  and the next write goes to the end of the file. So what was written after the last commit is ignored.
\<close>

theorem open_finds_last_header:
  assumes "os_calm r" and "length (os_content r) < 2 ^ 63"
    and "\<not> (has_flag flags COUCHSTORE_OPEN_FLAG_RDONLY \<and> has_flag flags COUCHSTORE_OPEN_FLAG_CREATE)"
    and "header_at (os_content r) (k * COUCH_BLOCK_SIZE) = Some hdr"
    and "\<forall>j>k. j * COUCH_BLOCK_SIZE + 2 \<le> length (os_content r) \<longrightarrow> bad_header (os_content r) (j * COUCH_BLOCK_SIZE)"
  shows "\<exists>db r'. couchstore_open_db flags r = (Inr db, r') \<and> db_header db = hdr \<and> \<not> db_dropped db \<and>
    tf_pos (db_file db) = length (os_content r) \<and> os.bcontent (handle_of db) = os_content r"
proof -
  have "last_header (os_content r) hdr" using assms(4,5) by (auto simp: last_header_def)
  from open_db_last_header [OF assms(1,2) this assms(3)] obtain db r'
    where "couchstore_open_db flags r = (Inr db, r')" "opened r hdr db" .
  then show ?thesis by (auto simp: opened_def)
qed

text \<open>
  C4. Commit, then open. Without disturbances a commit of a storable header succeeds, all of the file
  is on disk afterwards, nothing written before has changed, and whoever opens the file then
  finds the committed header (with the roots' keys, which are not stored, empty), at the
  position the commit reports.
\<close>

theorem commit_then_open:
  assumes "buf.ready (db_file db)" and "os.bcalm (handle_of db)"
    and "header_fits (db_header db)" and "header_below (align_block (tf_pos (db_file db))) (db_header db)"
    and "align_block (tf_pos (db_file db)) < 2 ^ 62"
    and "\<not> (has_flag flags COUCHSTORE_OPEN_FLAG_RDONLY \<and> has_flag flags COUCHSTORE_OPEN_FLAG_CREATE)"
  shows "\<exists>db' db'' r'. couchstore_commit (buffered_file_ops default_file_ops) db = (Inr (), db') \<and>
    prefix (os.bcontent (handle_of db)) (os_synced (bh_raw (handle_of db'))) \<and>
    os_content (bh_raw (handle_of db')) = os_synced (bh_raw (handle_of db')) \<and>
    couchstore_open_db flags (bh_raw (handle_of db')) = (Inr db'', r') \<and>
    db_header db'' = stored_header (couchstore_get_header_position db') (db_header db)"
proof -
  let ?hdr = "db_header db" and ?pos = "align_block (tf_pos (db_file db))"
  have cw: "buf.can_write (db_file db)" and len: "length (os.bcontent (handle_of db)) \<le> tf_pos (db_file db)"
    using assms(1) by (simp_all add: buf.ready_def)
  obtain f' h where c: "couchstore_commit (buffered_file_ops default_file_ops) db = (Inr (), db\<lparr>db_file := f', db_header := ?hdr\<lparr>hd_position := ?pos\<rparr>\<rparr>)"
    and calm: "os.bcalm (tf_handle f')" and "buf.can_write f'"
    and "tf_pos f' = ?pos + length (header_image ?pos (raw_file_header ?hdr))"
    and content: "os.bcontent (tf_handle f') = write_at (write_at (os.bcontent (handle_of db)) (tf_pos (db_file db) + header_size ?hdr)
        (chunk_image (tf_pos (db_file db) + header_size ?hdr) [0])) ?pos (header_image ?pos (raw_file_header ?hdr))"
    and h: "os.binv h" "os.bcontent h = os.bcontent (tf_handle f')"
      "fo_sync (buffered_file_ops default_file_ops) h = (Inr (), tf_handle f')"
    by (rule buf.couchstore_commit_calm [OF cw assms(2)])
  let ?r = "bh_raw (tf_handle f')"
  have disk: "os_content ?r = os.bcontent (tf_handle f')" "os_synced ?r = os.bcontent (tf_handle f')"
    using buffered_sync_written [of h] h by simp_all
  note C = committed_content [OF len assms(3,4) refl, folded content]
  have size: "header_size ?hdr \<le> 1020" using assms(3) by (simp add: header_fits_def MAX_DB_HEADER_SIZE_def)
  obtain k where k: "?pos = k * COUCH_BLOCK_SIZE" using align_block_mod by (metis dvd_div_mult_self mod_0_imp_dvd)
  have "last_header (os_content ?r) (stored_header ?pos ?hdr)"
    unfolding last_header_def
  proof (intro exI [of _ k] conjI allI impI)
    show "header_at (os_content ?r) (k * COUCH_BLOCK_SIZE) = Some (stored_header ?pos ?hdr)" using C(4) disk k by simp
    fix j assume "k < j" and j: "j * COUCH_BLOCK_SIZE + 2 \<le> length (os_content ?r)"
    have "k * COUCH_BLOCK_SIZE + COUCH_BLOCK_SIZE \<le> j * COUCH_BLOCK_SIZE"
      using mult_le_mono1 [OF Suc_leI [OF \<open>k < j\<close>], of COUCH_BLOCK_SIZE] by simp
    then have False using j C(1,2) size k disk by (simp add: COUCH_BLOCK_SIZE_def)
    then show "bad_header (os_content ?r) (j * COUCH_BLOCK_SIZE)" ..
  qed
  moreover have "length (os_content ?r) < 2 ^ 63" using C(1,2) size disk assms(5) by simp
  moreover have "os_calm ?r" using calm by (simp add: os.bcalm_def)
  ultimately obtain db'' r' where "couchstore_open_db flags ?r = (Inr db'', r')" "opened ?r (stored_header ?pos ?hdr) db''"
    using open_db_last_header assms(6) by blast
  then show ?thesis using c disk C(3) by (auto simp: opened_def couchstore_get_header_position_def)
qed

text \<open>
  C23. Rewinding: from a header at a position other than 0, \<open>couchstore_rewind_db_header\<close> goes to the last valid
  header of the file before it, however many invalid blocks lie between.
\<close>

theorem rewind_finds_previous_header:
  assumes "os.binv (handle_of db)" and "os.bcalm (handle_of db)" and "\<not> db_dropped db"
    and "hd_position (db_header db) = n * COUCH_BLOCK_SIZE" and "k < n"
    and "header_at (os.bcontent (handle_of db)) (k * COUCH_BLOCK_SIZE) = Some hdr"
    and "\<forall>j>k. j < n \<longrightarrow> bad_header (os.bcontent (handle_of db)) (j * COUCH_BLOCK_SIZE)"
  shows "\<exists>db'. couchstore_rewind_db_header (buffered_file_ops default_file_ops) db = (Inr (), db') \<and> db_header db' = hdr \<and>
    db_dropped db' = db_dropped db \<and> tf_pos (db_file db') = tf_pos (db_file db) \<and>
    os.bcontent (handle_of db') = os.bcontent (handle_of db)"
proof -
  let ?bops = "buffered_file_ops default_file_ops"
  define db0 where "db0 = db\<lparr>db_header := (db_header db)\<lparr>hd_by_id_root := None, hd_by_seq_root := None, hd_local_docs_root := None\<rparr>\<rparr>"
  obtain m where m: "n = Suc m" using assms(5) by (cases n) auto
  have blocks: "blocks_down (int (n * COUCH_BLOCK_SIZE) - 2) = n"
  proof -
    have "int (n * COUCH_BLOCK_SIZE) - 2 = int (m * COUCH_BLOCK_SIZE + 4094)" using m by (simp add: COUCH_BLOCK_SIZE_def)
    then show ?thesis using m by (simp add: blocks_down_def COUCH_BLOCK_SIZE_def del: of_nat_add of_nat_mult)
  qed
  have "\<exists>h'. find_header_loop ?bops COUCHSTORE_ERROR_NO_HEADER n db0 = (Inr (), at_handle (db0\<lparr>db_header := hdr\<rparr>) h') \<and>
      os.bcalm h' \<and> buf.reads (handle_of db0) h'"
    by (rule buf.find_header_loop_calm) (use assms in \<open>auto simp: db0_def\<close>)
  then obtain h' where h': "find_header ?bops (int (n * COUCH_BLOCK_SIZE) - 2) db0 = (Inr (), at_handle (db0\<lparr>db_header := hdr\<rparr>) h')"
      "buf.reads (handle_of db0) h'" by (auto simp: find_header_def blocks [simplified])
  then have "couchstore_rewind_db_header ?bops db = (Inr (), at_handle (db0\<lparr>db_header := hdr\<rparr>) h')"
    using assms(3,4) m by (simp add: couchstore_rewind_db_header_def db0_def unlessE_def COUCH_BLOCK_SIZE_def)
  then show ?thesis using buf.readsD(2) [OF h'(2)] by (simp add: db0_def)
qed

text \<open>
  C24. Reopening a dropped database does not restore the position for the next write: whatever the file
  holds and whatever the environment does, a database that \<open>couchstore_reopen_file\<close> hands back writes next at the
  very start of the file, over the data it has just found its header in.
\<close>

theorem reopen_loses_position:
  assumes "couchstore_reopen_file ops flags r db = (Some (Inr db'), r')"
  shows "tf_pos (db_file db') = 0"
proof -
  obtain tf r1 where t: "tree_file_open ops (if has_flag flags COUCHSTORE_OPEN_FLAG_RDONLY then O_RDONLY else O_RDWR) r = (Inr tf, r1)"
    using assms by (auto simp: couchstore_reopen_file_def split: if_splits prod.splits sum.splits)
  then have p: "tf_pos tf = 0"
    by (auto simp: tree_file_open_def split: prod.splits sum.splits bool.splits option.splits)
  let ?run = "bindE (find_header_at_pos (buffered_file_ops ops) (hd_position (db_header db))) (\<lambda>_.
       bindE (getE (\<lambda>db. hd_update_seq (db_header db))) (\<lambda>update_seq.
         bindE (unlessE (hd_update_seq (db_header db) = update_seq) COUCHSTORE_ERROR_DB_NO_LONGER_VALID) (\<lambda>_.
           modifyE (db_dropped_update (\<lambda>_. False)))))"
  have "keeps_pos 0 (modifyE (db_dropped_update (\<lambda>_. False)))" by (simp add: keeps_pos_def hoare_def)
  then have "keeps_pos 0 ?run" by (intro keeps_pos_rules keeps_pos_find_header)
  moreover have "?run \<lparr>db_file = tf, db_header = db_header db, db_dropped = True\<rparr> = (Inr (), db')"
    using assms t by (auto simp: couchstore_reopen_file_def split: if_splits prod.splits sum.splits)
  ultimately show ?thesis using p unfolding keeps_pos_alt by (metis db.select_convs(1) snd_conv)
qed

section \<open>Instances\<close>

text \<open>An empty file, the handle of a database just opened on it, and the database with an empty header.\<close>

definition empty_file :: os_file where
  "empty_file = \<lparr>os_content = [], os_synced = [], os_events = [], os_allocs = [], os_errinfo = 0\<rparr>"

definition empty_db :: "os_file buffered_file_handle db" where
  "empty_db = \<lparr>db_file = \<lparr>tf_pos = 0, tf_handle = \<lparr>bh_raw = empty_file, bh_nbuffers = 1,
       bh_write_buffer = new_buffer WRITE_BUFFER_CAPACITY, bh_buffers = [new_buffer READ_BUFFER_CAPACITY]\<rparr>\<rparr>,
     db_header = empty_header, db_dropped = False\<rparr>"

lemma empty_db_ready: "buf.ready (db_file empty_db)" "os.bcalm (handle_of empty_db)" "os.bcontent (handle_of empty_db) = []"
  by (simp_all add: empty_db_def empty_file_def buf.ready_def buf.can_write_def os.binv_def os.bcontent_def os.bcached_def
      os.bcalm_def os_calm_def wb_overlay_def wb_ok_def rb_ok_def new_buffer_def buffer_end_def)

lemma empty_header_fits: "header_fits empty_header" "header_below pos empty_header" "header_size empty_header = 25"
  by (simp_all add: header_fits_def header_below_def empty_header_def header_size_def root_fits_def root_below_def
      root_size_def MAX_DB_HEADER_SIZE_def)

lemma align_block_0 [simp]: "align_block 0 = 0"
  by (simp add: align_block_def)

definition fresh_content :: "byte list" where
  "fresh_content = write_at (write_at [] 25 (chunk_image 25 [0])) 0 (header_image 0 (raw_file_header empty_header))"

lemma fresh_content: "header_at fresh_content 0 = Some (stored_header 0 empty_header)" "length fresh_content = 34"
  using committed_content [of "[]" 0 empty_header 0] by (simp_all add: fresh_content_def empty_header_fits)

theorem open_finds_last_header_witness:
  "\<exists>db r'. couchstore_open_db 0 (empty_file\<lparr>os_content := fresh_content\<rparr>) = (Inr db, r') \<and>
     db_header db = stored_header 0 empty_header \<and> tf_pos (db_file db) = 34"
  using open_finds_last_header [of "empty_file\<lparr>os_content := fresh_content\<rparr>" 0 0 "stored_header 0 empty_header"] fresh_content
  by (auto simp: empty_file_def os_calm_def has_flag_def COUCH_BLOCK_SIZE_def)

theorem commit_then_open_witness:
  "\<exists>db' db'' r'. couchstore_commit (buffered_file_ops default_file_ops) empty_db = (Inr (), db') \<and>
    couchstore_open_db 0 (bh_raw (handle_of db')) = (Inr db'', r') \<and>
    db_header db'' = stored_header (couchstore_get_header_position db') empty_header"
proof -
  have "tf_pos (db_file empty_db) = 0" "db_header empty_db = empty_header" by (simp_all add: empty_db_def)
  then show ?thesis
    using commit_then_open [OF empty_db_ready(1,2), of 0] by (auto simp: empty_header_fits has_flag_def)
qed

definition rewind_db :: "os_file buffered_file_handle db" where
  "rewind_db = at_handle (empty_db\<lparr>db_header := empty_header\<lparr>hd_position := 4096\<rparr>\<rparr>)
     ((handle_of empty_db)\<lparr>bh_raw := empty_file\<lparr>os_content := fresh_content\<rparr>\<rparr>)"

theorem rewind_finds_previous_header_witness:
  "\<exists>db'. couchstore_rewind_db_header (buffered_file_ops default_file_ops) rewind_db = (Inr (), db') \<and>
     db_header db' = stored_header 0 empty_header"
proof -
  have "os.binv (handle_of rewind_db)" "os.bcalm (handle_of rewind_db)" "os.bcontent (handle_of rewind_db) = fresh_content"
    by (simp_all add: rewind_db_def empty_db_def empty_file_def os.binv_def os.bcontent_def os.bcached_def
      os.bcalm_def os_calm_def wb_overlay_def wb_ok_def rb_ok_def new_buffer_def buffer_end_def)
  moreover have "\<not> db_dropped rewind_db" "hd_position (db_header rewind_db) = 1 * COUCH_BLOCK_SIZE"
    by (simp_all add: rewind_db_def empty_db_def COUCH_BLOCK_SIZE_def)
  ultimately show ?thesis
    using rewind_finds_previous_header [of rewind_db 1 0 "stored_header 0 empty_header"] fresh_content by auto
qed

theorem reopen_loses_position_witness:
  "\<exists>db' r'. couchstore_reopen_file default_file_ops 0 (empty_file\<lparr>os_content := fresh_content\<rparr>)
      (empty_db\<lparr>db_dropped := True\<rparr>) = (Some (Inr db'), r') \<and> tf_pos (db_file db') = 0"
proof -
  let ?r = "empty_file\<lparr>os_content := fresh_content\<rparr>"
  obtain h where h: "tree_file_open default_file_ops O_RDWR ?r = (Inr \<lparr>tf_pos = 0, tf_handle = h\<rparr>, bh_raw h)"
      "os.binv h" "os.bcalm h" "os.bcontent h = os_content ?r"
    by (rule tree_file_open_calm [of ?r]) (simp add: os_calm_def empty_file_def)
  let ?db = "\<lparr>db_file = \<lparr>tf_pos = 0, tf_handle = h\<rparr>, db_header = empty_header, db_dropped = True\<rparr>"
  obtain h' where "find_header_at_pos (buffered_file_ops default_file_ops) 0 ?db =
      (Inr (), at_handle (?db\<lparr>db_header := stored_header 0 empty_header\<rparr>) h')"
    using buf.find_header_at_calm [of ?db 0 "stored_header 0 empty_header"] h fresh_content(1) by auto
  then obtain db' r' where "couchstore_reopen_file default_file_ops 0 ?r (empty_db\<lparr>db_dropped := True\<rparr>) = (Some (Inr db'), r')"
    using h(1) by (simp add: couchstore_reopen_file_def has_flag_def empty_db_def empty_header_def stored_header_def bindE_Inr)
  then show ?thesis using reopen_loses_position [of default_file_ops 0 ?r "empty_db\<lparr>db_dropped := True\<rparr>" db' r'] by blast
qed

end
