(* ===== verification/Docinfo.thy ===== *)
theory Docinfo
  imports Node_Types Reduces
begin

text \<open>
  The metadata of a document and its two stored forms: the values of the by-id and of the
  by-sequence index, as \<^verbatim>\<open>couchstore/src/couch_save.cc\<close> assembles them and
  \<^verbatim>\<open>couchstore/src/couch_db.cc\<close> reads them.

  The functions that read them run inside callbacks of tree lookups. The state of a callback,
  \<open>cb_state\<close>, has the answers the environment gives to the callback's own allocations (an empty list:
  all succeed), the depth counter of \<open>lookup_context\<close>, and the data of the user.
\<close>

section \<open>Data\<close>

record doc_info =
  di_id :: sized_buf
  di_db_seq :: u64
  di_rev_seq :: u64
  di_rev_meta :: sized_buf
  di_deleted :: bool
  di_content_meta :: byte
  di_bp :: u64
  di_size :: u64

record document =
  doc_id :: sized_buf
  doc_data :: sized_buf

record local_doc =
  ld_id :: sized_buf
  ld_json :: sized_buf
  ld_deleted :: bool

record 'u cb_state =
  cb_allocs :: "bool list"
  cb_depth :: int
  cb_user :: 'u

definition callback_malloc :: "('u cb_state, bool) cmd" where
  "callback_malloc s = (case cb_allocs s of [] \<Rightarrow> (Inr True, s) | ok # rest \<Rightarrow> (Inr ok, s\<lparr>cb_allocs := rest\<rparr>))"

definition sizeof_raw_id_index_value :: nat where
  "sizeof_raw_id_index_value = 23"

definition sizeof_raw_seq_index_value :: nat where
  "sizeof_raw_seq_index_value = 18"

section \<open>Writing\<close>

definition stored_bp :: "doc_info \<Rightarrow> u64" where
  "stored_bp docinfo = di_bp docinfo OR (if di_deleted docinfo then push_bit 47 1 else 0)"

definition assemble_seq_index_value :: "doc_info \<Rightarrow> sized_buf" where
  "assemble_seq_index_value docinfo =
     encode_kv_length (word_of_nat (length (di_id docinfo))) (di_size docinfo) @
     couchstore_encode_raw48 (stored_bp docinfo) @
     couchstore_encode_raw48 (di_rev_seq docinfo) @
     couchstore_encode_raw08 (di_content_meta docinfo) @
     di_id docinfo @ di_rev_meta docinfo"

definition assemble_id_index_value :: "doc_info \<Rightarrow> sized_buf" where
  "assemble_id_index_value docinfo =
     couchstore_encode_raw48 (di_db_seq docinfo) @
     couchstore_encode_raw32 (ucast (di_size docinfo)) @
     couchstore_encode_raw48 (stored_bp docinfo) @
     couchstore_encode_raw48 (di_rev_seq docinfo) @
     couchstore_encode_raw08 (di_content_meta docinfo) @
     di_rev_meta docinfo"

section \<open>Reading\<close>

text \<open>A new \<open>DocInfo\<close> with an id and revision metadata, all other fields zero.\<close>

definition couchstore_alloc_docinfo :: "sized_buf \<Rightarrow> sized_buf \<Rightarrow> ('u cb_state, doc_info option) cmd" where
  "couchstore_alloc_docinfo ident rev_meta =
     bindE callback_malloc (\<lambda>ok.
       returnE (if ok
         then Some \<lparr>di_id = ident, di_db_seq = 0, di_rev_seq = 0, di_rev_meta = rev_meta, di_deleted = False,
                    di_content_meta = 0, di_bp = 0, di_size = 0\<rparr>
         else None))"

text \<open>
  The id may claim more bytes than the value has: they would be copied from behind it. A
  sequence key has six bytes.
\<close>

definition by_seq_read_docinfo :: "sized_buf \<Rightarrow> sized_buf \<Rightarrow> ('u cb_state, doc_info) cmd" where
  "by_seq_read_docinfo k v =
     (if length v < sizeof_raw_seq_index_value then throwE (Err COUCHSTORE_ERROR_CORRUPT)
      else if length k < 6 then throwE InvalidAccess
      else let (idsize, datasize) = decode_kv_length (take 5 v);
               raw_bp = couchstore_decode_raw48p (take 6 (drop 5 v));
               extra = drop sizeof_raw_seq_index_value v
           in bindE (couchstore_alloc_docinfo (take (unat idsize) extra) (drop (unat idsize) extra)) (\<lambda>info.
             case info of
               None \<Rightarrow> throwE (Err COUCHSTORE_ERROR_ALLOC_FAIL)
             | Some docInfo \<Rightarrow>
                 if length extra < unat idsize then throwE InvalidAccess
                 else returnE (docInfo\<lparr>di_db_seq := decode_sequence_key k,
                        di_rev_seq := couchstore_decode_raw48p (take 6 (drop 11 v)),
                        di_deleted := raw_bp AND BP_DELETED_FLAG \<noteq> 0,
                        di_content_meta := couchstore_decode_raw08 (take 1 (drop 17 v)),
                        di_bp := raw_bp AND NOT BP_DELETED_FLAG,
                        di_size := ucast datasize\<rparr>)))"

definition by_id_read_docinfo :: "sized_buf \<Rightarrow> sized_buf \<Rightarrow> ('u cb_state, doc_info) cmd" where
  "by_id_read_docinfo k v =
     (if length v < sizeof_raw_id_index_value then throwE (Err COUCHSTORE_ERROR_CORRUPT)
      else let raw_bp = couchstore_decode_raw48p (take 6 (drop 10 v))
           in bindE (couchstore_alloc_docinfo k (drop sizeof_raw_id_index_value v)) (\<lambda>info.
             case info of
               None \<Rightarrow> throwE (Err COUCHSTORE_ERROR_ALLOC_FAIL)
             | Some docInfo \<Rightarrow>
                 returnE (docInfo\<lparr>di_db_seq := couchstore_decode_raw48p (take 6 v),
                        di_rev_seq := couchstore_decode_raw48p (take 6 (drop 16 v)),
                        di_deleted := raw_bp AND BP_DELETED_FLAG \<noteq> 0,
                        di_content_meta := couchstore_decode_raw08 (take 1 (drop 22 v)),
                        di_bp := raw_bp AND NOT BP_DELETED_FLAG,
                        di_size := ucast (couchstore_decode_raw32 (take 4 (drop 6 v)))\<rparr>)))"

section \<open>What is written is read back\<close>

text \<open>The metadata that the stored forms can hold.\<close>

definition docinfo_fits :: "doc_info \<Rightarrow> bool" where
  "docinfo_fits d \<longleftrightarrow> length (di_id d) < 2 ^ 12 \<and> unat (di_size d) < 2 ^ 28 \<and> unat (di_db_seq d) < 2 ^ 48 \<and>
     unat (di_rev_seq d) < 2 ^ 48 \<and> unat (di_bp d) < 2 ^ 47"

lemma unat_less_take_bit: "take_bit n v = v \<Longrightarrow> unat (v :: 'a::len word) < 2 ^ n"
  by (metis take_bit_nat_less_exp unsigned_take_bit_eq)

lemma ucast_u32_u64: "ucast (ucast (w :: u64) :: u32) = take_bit 32 w"
  by (rule bit_word_eqI) (auto simp: bit_ucast_iff bit_take_bit_iff)

lemma BP_DELETED_FLAG_bit: "BP_DELETED_FLAG = push_bit 47 1"
  by (simp add: BP_DELETED_FLAG_def push_bit_eq_mult)

lemma stored_bp:
  assumes "unat (di_bp d) < 2 ^ 47"
  shows "unat (stored_bp d) < 2 ^ 48" and "stored_bp d AND BP_DELETED_FLAG \<noteq> 0 \<longleftrightarrow> di_deleted d"
    and "stored_bp d AND NOT BP_DELETED_FLAG = di_bp d"
proof -
  have bp: "take_bit 47 (di_bp d) = di_bp d" using assms by (rule take_bit_word_id)
  then have off: "n < 47" if "bit (di_bp d) n" for n using that by (metis bit_take_bit_iff)
  have flag: "bit BP_DELETED_FLAG n \<longleftrightarrow> n = 47" for n
    by (simp only: BP_DELETED_FLAG_bit bit_push_bit_iff bit_1_iff) auto
  have "stored_bp d = di_bp d OR (if di_deleted d then BP_DELETED_FLAG else 0)"
    by (simp only: stored_bp_def BP_DELETED_FLAG_bit)
  then have bits: "bit (stored_bp d) n \<longleftrightarrow> bit (di_bp d) n \<or> di_deleted d \<and> n = 47" for n
    by (simp add: bit_or_iff flag)
  have "take_bit 48 (stored_bp d) = stored_bp d"
    by (rule bit_word_eqI) (auto simp: bit_take_bit_iff bits dest: off)
  then show "unat (stored_bp d) < 2 ^ 48" by (rule unat_less_take_bit)
  show "stored_bp d AND NOT BP_DELETED_FLAG = di_bp d"
    by (rule bit_word_eqI) (auto simp: bit_and_iff bit_not_iff bits flag dest: off)
  show "stored_bp d AND BP_DELETED_FLAG \<noteq> 0 \<longleftrightarrow> di_deleted d"
  proof -
    have "stored_bp d AND BP_DELETED_FLAG = (if di_deleted d then BP_DELETED_FLAG else 0)"
      by (rule bit_word_eqI) (auto simp: bit_and_iff bits flag dest: off)
    then show ?thesis by (simp add: BP_DELETED_FLAG_def)
  qed
qed

lemma length_assemble:
  "length (assemble_seq_index_value d) = 18 + length (di_id d) + length (di_rev_meta d)"
  "length (assemble_id_index_value d) = 23 + length (di_rev_meta d)"
  by (simp_all add: assemble_seq_index_value_def assemble_id_index_value_def)

lemma id_item_assemble [simp]: "id_item (k, assemble_id_index_value d)"
  by (simp add: id_item_def length_assemble)

lemma read_id_index_value:
  assumes "docinfo_fits d" and "cb_allocs s = []"
  shows "by_id_read_docinfo (di_id d) (assemble_id_index_value d) s = (Inr d, s)"
proof -
  let ?v = "assemble_id_index_value d"
  have bp: "unat (di_bp d) < 2 ^ 47" using assms(1) by (simp add: docinfo_fits_def)
  have "take_bit 32 (di_size d) = di_size d" using assms(1) by (intro take_bit_word_id) (simp add: docinfo_fits_def)
  then have size: "ucast (ucast (di_size d) :: u32) = di_size d" by (simp add: ucast_u32_u64)
  have fields: "take 6 ?v = couchstore_encode_raw48 (di_db_seq d)" "take 4 (drop 6 ?v) = couchstore_encode_raw32 (ucast (di_size d))"
      "take 6 (drop 10 ?v) = couchstore_encode_raw48 (stored_bp d)" "take 6 (drop 16 ?v) = couchstore_encode_raw48 (di_rev_seq d)"
      "take 1 (drop 22 ?v) = couchstore_encode_raw08 (di_content_meta d)" "drop sizeof_raw_id_index_value ?v = di_rev_meta d"
    unfolding assemble_id_index_value_def sizeof_raw_id_index_value_def by simp_all
  have "\<not> length ?v < sizeof_raw_id_index_value" by (simp add: length_assemble sizeof_raw_id_index_value_def)
  then show ?thesis
    using assms stored_bp [OF bp] size unfolding by_id_read_docinfo_def Let_def fields
    by (simp add: bindE_def couchstore_alloc_docinfo_def callback_malloc_def docinfo_fits_def)
qed

lemma read_seq_index_value:
  assumes "docinfo_fits d" and "cb_allocs s = []"
  shows "by_seq_read_docinfo (couchstore_encode_raw48 (di_db_seq d)) (assemble_seq_index_value d) s = (Inr d, s)"
proof -
  let ?v = "assemble_seq_index_value d" and ?n = "length (di_id d)"
  have bp: "unat (di_bp d) < 2 ^ 47" using assms(1) by (simp add: docinfo_fits_def)
  have n: "?n < 2 ^ 12" "unat (di_size d) < 2 ^ 28" using assms(1) by (simp_all add: docinfo_fits_def)
  have "take_bit 32 (di_size d) = di_size d" using n(2) by (intro take_bit_word_id) simp
  then have size: "ucast (ucast (di_size d) :: u32) = di_size d" by (simp add: ucast_u32_u64)
  have un: "unat (word_of_nat ?n :: u64) = ?n" using n(1) by (simp add: unat_of_nat take_bit_nat_eq_self)
  then have idsize: "unat (ucast (word_of_nat ?n :: u64) :: u32) = ?n"
    using n(1) un by (simp add: unsigned_ucast_eq take_bit_nat_eq_self)
  have fields: "take 5 ?v = encode_kv_length (word_of_nat ?n) (di_size d)"
      "take 6 (drop 5 ?v) = couchstore_encode_raw48 (stored_bp d)" "take 6 (drop 11 ?v) = couchstore_encode_raw48 (di_rev_seq d)"
      "take 1 (drop 17 ?v) = couchstore_encode_raw08 (di_content_meta d)"
      "drop sizeof_raw_seq_index_value ?v = di_id d @ di_rev_meta d"
    unfolding assemble_seq_index_value_def sizeof_raw_seq_index_value_def by simp_all
  have sizes: "decode_kv_length (encode_kv_length (word_of_nat ?n) (di_size d)) = (ucast (word_of_nat ?n :: u64), ucast (di_size d))"
    using decode_encode_kv_length [of "word_of_nat ?n" "di_size d"] un n by simp
  have "\<not> length ?v < sizeof_raw_seq_index_value" by (simp add: length_assemble sizeof_raw_seq_index_value_def)
  then show ?thesis
    using assms stored_bp [OF bp] size unfolding by_seq_read_docinfo_def Let_def fields sizes
    by (simp add: bindE_def couchstore_alloc_docinfo_def callback_malloc_def docinfo_fits_def idsize decode_sequence_key_def)
qed

text \<open>
  C26. The metadata of a document survives both indexes: what \<open>assemble_id_index_value\<close> and
  \<open>assemble_seq_index_value\<close> store is read back in every field, from the by-id index under the document's
  id and from the by-sequence index under its sequence number, as long as id, size, numbers and position fit their fields.
\<close>

theorem docinfo_roundtrip:
  assumes "docinfo_fits d"
  shows "by_id_read_docinfo (di_id d) (assemble_id_index_value d) \<lparr>cb_allocs = [], cb_depth = n, cb_user = u\<rparr> =
      (Inr d, \<lparr>cb_allocs = [], cb_depth = n, cb_user = u\<rparr>) \<and>
    by_seq_read_docinfo (couchstore_encode_raw48 (di_db_seq d)) (assemble_seq_index_value d)
        \<lparr>cb_allocs = [], cb_depth = n, cb_user = u\<rparr> = (Inr d, \<lparr>cb_allocs = [], cb_depth = n, cb_user = u\<rparr>)"
  by (simp add: read_id_index_value [OF assms] read_seq_index_value [OF assms])

text \<open>
  C27. Whatever bytes an index holds, reading a by-id value is safe: too short a value is reported as
  corrupt, a failed allocation as such, and otherwise the fields are within their ranges (48-bit
  numbers, a 47-bit position, a 32-bit size), with the key as id and the rest of the value as revision metadata.
\<close>

theorem by_id_read_docinfo_type:
  "case fst (by_id_read_docinfo k v s) of
     Inl e \<Rightarrow> e = Err (if length v < 23 then COUCHSTORE_ERROR_CORRUPT else COUCHSTORE_ERROR_ALLOC_FAIL)
   | Inr d \<Rightarrow> 23 \<le> length v \<and> di_id d = k \<and> di_rev_meta d = drop 23 v \<and> unat (di_db_seq d) < 2 ^ 48 \<and>
       unat (di_rev_seq d) < 2 ^ 48 \<and> unat (di_bp d) < 2 ^ 47 \<and> unat (di_size d) < 2 ^ 32"
proof -
  let ?bp = "couchstore_decode_raw48p (take 6 (drop 10 v))"
  have bp: "unat (?bp AND NOT BP_DELETED_FLAG) < 2 ^ 47" if "23 \<le> length v"
  proof -
    have "unat ?bp < 2 ^ 48" using that by (intro unat_decode_raw48_bound) simp
    then have "take_bit 48 ?bp = ?bp" by (rule take_bit_word_id)
    then have below: "n < 48" if "bit ?bp n" for n using that by (metis bit_take_bit_iff)
    have flag: "bit BP_DELETED_FLAG n \<longleftrightarrow> n = 47" for n
      by (simp only: BP_DELETED_FLAG_bit bit_push_bit_iff bit_1_iff) auto
    have "n < 47" if "bit ?bp n" "n \<noteq> 47" for n using below [OF that(1)] that(2) by simp
    then have "take_bit 47 (?bp AND NOT BP_DELETED_FLAG) = ?bp AND NOT BP_DELETED_FLAG"
      by (intro bit_word_eqI) (auto simp: bit_take_bit_iff bit_and_iff bit_not_iff flag)
    then show ?thesis by (rule unat_less_take_bit)
  qed
  have s: "unat (ucast (couchstore_decode_raw32 w) :: u64) < 2 ^ 32" for w
    using unat_less_u32 [of "couchstore_decode_raw32 w"] by (simp add: unsigned_ucast_eq take_bit_nat_eq_self)
  have "unat (couchstore_decode_raw48p (take 6 v)) < 2 ^ 48" "unat (couchstore_decode_raw48p (take 6 (drop 16 v))) < 2 ^ 48"
    if "23 \<le> length v" using that unat_decode_raw48_bound [of "take 6 v"] unat_decode_raw48_bound [of "take 6 (drop 16 v)"] by auto
  moreover have "\<exists>ok s'. callback_malloc s = (Inr ok, s')" by (cases "cb_allocs s") (auto simp: callback_malloc_def)
  ultimately show ?thesis
    using bp s by (auto simp: by_id_read_docinfo_def Let_def sizeof_raw_id_index_value_def bindE_def couchstore_alloc_docinfo_def)
qed

theorem docinfo_roundtrip_witness:
  "by_id_read_docinfo [97] (assemble_id_index_value \<lparr>di_id = [97], di_db_seq = 7, di_rev_seq = 3, di_rev_meta = [1, 2],
       di_deleted = True, di_content_meta = 128, di_bp = 4096, di_size = 55\<rparr>) \<lparr>cb_allocs = [], cb_depth = 0, cb_user = ()\<rparr> =
     (Inr \<lparr>di_id = [97], di_db_seq = 7, di_rev_seq = 3, di_rev_meta = [1, 2],
       di_deleted = True, di_content_meta = 128, di_bp = 4096, di_size = 55\<rparr>, \<lparr>cb_allocs = [], cb_depth = 0, cb_user = ()\<rparr>)"
  using docinfo_roundtrip [of "\<lparr>di_id = [97], di_db_seq = 7, di_rev_seq = 3, di_rev_meta = [1, 2],
       di_deleted = True, di_content_meta = 128, di_bp = 4096, di_size = 55\<rparr>" 0 "()"]
  by (simp add: docinfo_fits_def)

end
