(* ===== verification/Qsort.thy ===== *)
theory Qsort
  imports Couch_Prelude "HOL-Library.Multiset"
begin

text \<open>
  The C library's \<open>qsort\<close>, with which couchstore orders the keys of a lookup and the actions of an update.
  It is a parameter: a function \<open>qs\<close> that, given the comparison of the elements at two positions and the number
  of elements, tells which element goes where. \<open>qsort_ok\<close> is what the C standard promises: for a consistent
  comparison the result is a permutation of the elements, in ascending order; nothing is said about the
  order of equal ones. \<open>index_sort\<close> is an instance.
\<close>

type_synonym sorter = "(nat \<Rightarrow> nat \<Rightarrow> int) \<Rightarrow> nat \<Rightarrow> nat list"

definition qsort :: "sorter \<Rightarrow> ('a \<Rightarrow> 'a \<Rightarrow> int) \<Rightarrow> 'a list \<Rightarrow> 'a list" where
  "qsort qs cmp xs = map ((!) xs) (qs (\<lambda>i j. cmp (xs ! i) (xs ! j)) (length xs))"

definition consistent :: "('a \<Rightarrow> 'a \<Rightarrow> int) \<Rightarrow> 'a set \<Rightarrow> bool" where
  "consistent cmp S \<longleftrightarrow> (\<forall>a\<in>S. \<forall>b\<in>S. (cmp a b < 0 \<longleftrightarrow> 0 < cmp b a) \<and> (\<forall>c\<in>S. cmp a b \<le> 0 \<and> cmp b c \<le> 0 \<longrightarrow> cmp a c \<le> 0))"

definition qsort_ok :: "sorter \<Rightarrow> bool" where
  "qsort_ok qs \<longleftrightarrow> (\<forall>cmp n. consistent cmp {..<n} \<longrightarrow>
     mset (qs cmp n) = mset [0..<n] \<and> sorted_wrt (\<lambda>i j. cmp i j \<le> 0) (qs cmp n))"

lemma consistentD:
  assumes "consistent cmp S" and "a \<in> S" and "b \<in> S"
  shows "cmp a b < 0 \<longleftrightarrow> 0 < cmp b a" and "c \<in> S \<Longrightarrow> cmp a b \<le> 0 \<Longrightarrow> cmp b c \<le> 0 \<Longrightarrow> cmp a c \<le> 0"
  using assms unfolding consistent_def by blast+

lemma consistent_subset: "consistent cmp S \<Longrightarrow> T \<subseteq> S \<Longrightarrow> consistent cmp T"
  unfolding consistent_def by blast

lemma consistent_image: "consistent cmp (f ` S) \<Longrightarrow> consistent (\<lambda>i j. cmp (f i) (f j)) S"
  unfolding consistent_def by (metis imageI)

lemma qsort_sorts:
  assumes "qsort_ok qs" and "consistent cmp (set xs)"
  shows "mset (qsort qs cmp xs) = mset xs" and "sorted_wrt (\<lambda>a b. cmp a b \<le> 0) (qsort qs cmp xs)"
proof -
  let ?le = "\<lambda>i j. cmp (xs ! i) (xs ! j)"
  have "consistent ?le {..<length xs}"
    by (rule consistent_image) (rule consistent_subset [OF assms(2)], auto)
  then have q: "mset (qs ?le (length xs)) = mset [0..<length xs]" "sorted_wrt (\<lambda>i j. ?le i j \<le> 0) (qs ?le (length xs))"
    using assms(1) unfolding qsort_ok_def by blast+
  then have "mset (qsort qs cmp xs) = mset (map ((!) xs) [0..<length xs])" by (simp add: qsort_def)
  then show "mset (qsort qs cmp xs) = mset xs" by (simp only: map_nth)
  show "sorted_wrt (\<lambda>a b. cmp a b \<le> 0) (qsort qs cmp xs)" using q(2) by (simp add: qsort_def sorted_wrt_map)
qed

lemma set_qsort: "qsort_ok qs \<Longrightarrow> consistent cmp (set xs) \<Longrightarrow> set (qsort qs cmp xs) = set xs"
  using mset_eq_setD [OF qsort_sorts(1)] by blast

section \<open>An instance\<close>

fun insert_by :: "('a \<Rightarrow> 'a \<Rightarrow> int) \<Rightarrow> 'a \<Rightarrow> 'a list \<Rightarrow> 'a list" where
  "insert_by cmp x [] = [x]"
| "insert_by cmp x (y # ys) = (if cmp x y \<le> 0 then x # y # ys else y # insert_by cmp x ys)"

definition index_sort :: sorter where
  "index_sort cmp n = foldr (insert_by cmp) [0..<n] []"

lemma mset_insert_by [simp]: "mset (insert_by cmp x ys) = add_mset x (mset ys)"
  by (induction ys) auto

lemma set_insert_by [simp]: "set (insert_by cmp x ys) = insert x (set ys)"
  by (metis mset_insert_by set_mset_add_mset_insert set_mset_mset)

lemma sorted_insert_by:
  "sorted_wrt (\<lambda>a b. cmp a b \<le> 0) ys \<Longrightarrow> consistent cmp (insert x (set ys)) \<Longrightarrow> sorted_wrt (\<lambda>a b. cmp a b \<le> 0) (insert_by cmp x ys)"
proof (induction ys)
  case (Cons y ys)
  have IH: "sorted_wrt (\<lambda>a b. cmp a b \<le> 0) (insert_by cmp x ys)"
    by (rule Cons.IH) (use Cons.prems(1) consistent_subset [OF Cons.prems(2)] in auto)
  have c: "cmp y x \<le> 0" if "0 < cmp x y" using consistentD(1) [OF Cons.prems(2), of y x] that by simp
  have d: "cmp x z \<le> 0" if "cmp x y \<le> 0" "z \<in> set ys" for z
    using consistentD(2) [OF Cons.prems(2), of x y z] that Cons.prems(1) by simp
  show ?case using IH c d Cons.prems(1) by auto
qed simp

lemma index_sort_ok: "qsort_ok index_sort"
proof -
  have "mset (foldr (insert_by cmp) xs []) = mset xs \<and> sorted_wrt (\<lambda>a b. cmp a b \<le> 0) (foldr (insert_by cmp) xs [])"
    if "consistent cmp (set xs)" for cmp :: "nat \<Rightarrow> nat \<Rightarrow> int" and xs
    using that
  proof (induction xs)
    case (Cons x xs)
    have IH: "mset (foldr (insert_by cmp) xs []) = mset xs" "sorted_wrt (\<lambda>a b. cmp a b \<le> 0) (foldr (insert_by cmp) xs [])"
      using Cons.IH consistent_subset [OF Cons.prems] by auto
    then have "set (foldr (insert_by cmp) xs []) = set xs" by (metis mset_eq_setD)
    then show ?case using IH Cons.prems sorted_insert_by [of cmp "foldr (insert_by cmp) xs []" x] by simp
  qed simp
  then have "consistent cmp {..<n} \<Longrightarrow> mset (index_sort cmp n) = mset [0..<n] \<and> sorted_wrt (\<lambda>i j. cmp i j \<le> 0) (index_sort cmp n)" for cmp n
    unfolding index_sort_def by (metis atLeast_upt)
  then show ?thesis unfolding qsort_ok_def by blast
qed

end
