(* ===== verification/Couch_Db.thy ===== *)
theory Couch_Db
  imports Docinfo Db_Header Btree_Update Qsort
begin

text \<open>
  Model of the second part of \<^verbatim>\<open>couchstore/src/couch_db.cc\<close>: looking up documents by id and by sequence,
  opening their bodies, enumerating and counting changes, walking the trees, local documents and the
  information about a database.

  A function that is given a callback or an out-parameter of the caller works on the database together
  with the caller's data. A callback returns \<open>Inl e\<close> for the negative error code \<open>e\<close>, and \<open>Inr keep\<close> for
  success, \<open>keep\<close> telling whether it takes over the \<open>DocInfo\<close> (a positive result). It cannot change the
  database. \<open>allocs\<close> are the environment's answers to the allocations made inside callbacks. The parameter
  \<open>qs\<close> stands for \<open>qsort\<close> of the C library. Trees are searched with fuel; their height is enough.
\<close>

section \<open>Options\<close>

definition COUCH_DOC_IS_COMPRESSED :: byte where "COUCH_DOC_IS_COMPRESSED = 128"
definition DECOMPRESS_DOC_BODIES :: u64 where "DECOMPRESS_DOC_BODIES = 1"
definition RANGES :: u64 where "RANGES = 1"
definition COUCHSTORE_DELETES_ONLY :: u64 where "COUCHSTORE_DELETES_ONLY = 2"
definition COUCHSTORE_NO_DELETES :: u64 where "COUCHSTORE_NO_DELETES = 4"
definition COUCHSTORE_INCLUDE_CORRUPT_DOCS :: u64 where "COUCHSTORE_INCLUDE_CORRUPT_DOCS = 0x40000000"

section \<open>A database together with the caller's data\<close>

definition on_db :: "('h db, 'a) cmd \<Rightarrow> ('h db \<times> 'u, 'a) cmd" where
  "on_db m = zoomE fst (\<lambda>db s. (db, snd s)) m"

definition check_open :: "('h db, unit) cmd" where
  "check_open = bindE (getE db_dropped) (\<lambda>dropped. unlessE (\<not> dropped) COUCHSTORE_ERROR_FILE_CLOSED)"

text \<open>A call with a local variable as the data, initially \<open>u\<close>; its value afterwards is handed back.\<close>

definition with_variable :: "'u \<Rightarrow> ('h db \<times> 'u, unit) cmd \<Rightarrow> ('h db, 'u) cmd" where
  "with_variable u m = (\<lambda>db. case m (db, u) of (r, s) \<Rightarrow> (map_sum (\<lambda>e. e) (\<lambda>_. snd s) r, fst s))"

definition db_lookup ::
  "nat \<Rightarrow> snappy \<Rightarrow> 'h couch_file_ops \<Rightarrow> bool list \<Rightarrow> int \<Rightarrow> 'u cb_state lookup_request \<Rightarrow> bool \<Rightarrow> u64 \<Rightarrow>
   ('h db \<times> 'u, unit) cmd" where
  "db_lookup fuel sn ops allocs depth rq do_fold root = (\<lambda>(db, u).
     case btree_lookup fuel sn ops rq root
         \<lparr>lk_handle = handle_of db, lk_fold = do_fold, lk_in_fold = False,
          lk_ctx = \<lparr>cb_allocs = allocs, cb_depth = depth, cb_user = u\<rparr>\<rparr> of
       (r, s) \<Rightarrow> (r, (at_handle db (lk_handle s), cb_user (lk_ctx s))))"

section \<open>Metadata of a document\<close>

definition docinfo_fetch_by_id :: "sized_buf option \<Rightarrow> sized_buf option \<Rightarrow> (doc_info option cb_state, unit) cmd" where
  "docinfo_fetch_by_id k v =
     (case v of
        None \<Rightarrow> throwE (Err COUCHSTORE_ERROR_DOC_NOT_FOUND)
      | Some val \<Rightarrow>
          (case k of
             None \<Rightarrow> throwE InvalidAccess
           | Some key \<Rightarrow> bindE (by_id_read_docinfo key val) (\<lambda>info. modifyE (cb_user_update (\<lambda>_. Some info)))))"

definition docinfo_fetch_by_seq :: "sized_buf option \<Rightarrow> sized_buf option \<Rightarrow> (doc_info option cb_state, unit) cmd" where
  "docinfo_fetch_by_seq k v =
     (case v of
        None \<Rightarrow> throwE (Err COUCHSTORE_ERROR_DOC_NOT_FOUND)
      | Some val \<Rightarrow>
          (case k of
             None \<Rightarrow> throwE InvalidAccess
           | Some key \<Rightarrow> bindE (by_seq_read_docinfo key val) (\<lambda>info. modifyE (cb_user_update (\<lambda>_. Some info)))))"

definition couchstore_docinfo_by_id ::
  "nat \<Rightarrow> snappy \<Rightarrow> 'h couch_file_ops \<Rightarrow> bool list \<Rightarrow> sized_buf \<Rightarrow> ('h db \<times> doc_info option, unit) cmd" where
  "couchstore_docinfo_by_id fuel sn ops allocs ident =
     bindE (on_db check_open) (\<lambda>_.
     bindE (on_db (getE (\<lambda>db. hd_by_id_root (db_header db)))) (\<lambda>by_id_root.
       case by_id_root of
         None \<Rightarrow> throwE (Err COUCHSTORE_ERROR_DOC_NOT_FOUND)
       | Some root \<Rightarrow>
           bindE (db_lookup fuel sn ops allocs 0
               \<lparr>lr_compare = ebin_cmp, lr_keys = [ident], lr_fetch_callback = docinfo_fetch_by_id, lr_node_callback = None\<rparr>
               False (np_pointer root)) (\<lambda>_.
             bindE (getE snd) (\<lambda>pInfo. unlessE (pInfo \<noteq> None) COUCHSTORE_ERROR_DOC_NOT_FOUND))))"

text \<open>The code tests the root of the by-id index, and then uses that of the by-sequence index.\<close>

definition couchstore_docinfo_by_sequence ::
  "nat \<Rightarrow> snappy \<Rightarrow> 'h couch_file_ops \<Rightarrow> bool list \<Rightarrow> u64 \<Rightarrow> ('h db \<times> doc_info option, unit) cmd" where
  "couchstore_docinfo_by_sequence fuel sn ops allocs sequence =
     bindE (on_db check_open) (\<lambda>_.
     bindE (on_db (getE db_header)) (\<lambda>header.
       if hd_by_id_root header = None then throwE (Err COUCHSTORE_ERROR_DOC_NOT_FOUND)
       else case hd_by_seq_root header of
         None \<Rightarrow> throwE InvalidAccess
       | Some root \<Rightarrow>
           bindE (db_lookup fuel sn ops allocs 0
               \<lparr>lr_compare = seq_cmp, lr_keys = [drop 2 (be_bytes 8 sequence)], lr_fetch_callback = docinfo_fetch_by_seq,
                lr_node_callback = None\<rparr>
               False (np_pointer root)) (\<lambda>_.
             bindE (getE snd) (\<lambda>pInfo. unlessE (pInfo \<noteq> None) COUCHSTORE_ERROR_DOC_NOT_FOUND))))"

section \<open>Bodies\<close>

text \<open>The data of the document at the position \<open>bp\<close>, copied into a fresh \<open>Doc\<close>.\<close>

definition bp_to_doc :: "snappy \<Rightarrow> 'h couch_file_ops \<Rightarrow> u64 \<Rightarrow> u64 \<Rightarrow> ('h db, sized_buf) cmd" where
  "bp_to_doc sn ops bp options =
     bindE check_open (\<lambda>_.
     bindE (on_db_handle (if options AND DECOMPRESS_DOC_BODIES \<noteq> 0 then pread_compressed sn ops (unat bp)
                          else pread_bin ops (unat bp))) (\<lambda>docbody.
     bindE (on_db_handle (fo_malloc ops)) (\<lambda>ok.
     bindE (unlessE ok COUCHSTORE_ERROR_ALLOC_FAIL) (\<lambda>_.
       returnE docbody))))"

definition couchstore_open_doc_with_docinfo ::
  "snappy \<Rightarrow> 'h couch_file_ops \<Rightarrow> doc_info \<Rightarrow> u64 \<Rightarrow> ('h db, document) cmd" where
  "couchstore_open_doc_with_docinfo sn ops docinfo options =
     (if di_bp docinfo = 0 then throwE (Err COUCHSTORE_ERROR_DOC_NOT_FOUND)
      else let opts = (if di_content_meta docinfo AND COUCH_DOC_IS_COMPRESSED = 0
                       then options AND NOT DECOMPRESS_DOC_BODIES else options)
           in bindE (bp_to_doc sn ops (di_bp docinfo) opts) (\<lambda>body.
             returnE \<lparr>doc_id = di_id docinfo, doc_data = body\<rparr>))"

text \<open>\<open>info\<close> is the value of the uninitialised local variable.\<close>

definition couchstore_open_document ::
  "nat \<Rightarrow> snappy \<Rightarrow> 'h couch_file_ops \<Rightarrow> bool list \<Rightarrow> doc_info option \<Rightarrow> sized_buf \<Rightarrow> u64 \<Rightarrow> ('h db, document) cmd" where
  "couchstore_open_document fuel sn ops allocs info ident options =
     bindE check_open (\<lambda>_.
     bindE (with_variable info (couchstore_docinfo_by_id fuel sn ops allocs ident)) (\<lambda>found_info.
       case found_info of
         None \<Rightarrow> throwE InvalidAccess
       | Some docinfo \<Rightarrow>
           bindE (couchstore_open_doc_with_docinfo sn ops docinfo options) (\<lambda>pDoc.
             returnE (pDoc\<lparr>doc_id := ident\<rparr>))))"

section \<open>Enumerating documents\<close>

type_synonym 'u changes_callback = "doc_info \<Rightarrow> 'u \<Rightarrow> (couchstore_error_t + bool) \<times> 'u"
type_synonym 'u walk_tree_callback =
  "int \<Rightarrow> doc_info option \<Rightarrow> u64 \<Rightarrow> sized_buf option \<Rightarrow> 'u \<Rightarrow> (couchstore_error_t + bool) \<times> 'u"

datatype 'u user_callback = Changes_callback "'u changes_callback" | Walk_callback "'u walk_tree_callback"

definition call_user :: "('u \<Rightarrow> (couchstore_error_t + bool) \<times> 'u) \<Rightarrow> ('u cb_state, unit) cmd" where
  "call_user f s =
     (case f (cb_user s) of
        (Inl e, u) \<Rightarrow> (Inl (Err e), s\<lparr>cb_user := u\<rparr>)
      | (Inr keep, u) \<Rightarrow> (Inr (), s\<lparr>cb_user := u\<rparr>))"

text \<open>
  With the flag for corrupt documents, a value that cannot be parsed is reported with its raw key and
  value; the allocation for it is not checked.
\<close>

definition lookup_docinfo :: "u64 \<Rightarrow> bool \<Rightarrow> sized_buf \<Rightarrow> sized_buf \<Rightarrow> ('u cb_state, doc_info) cmd" where
  "lookup_docinfo options by_id k v = (\<lambda>s.
     case (if by_id then by_id_read_docinfo k v else by_seq_read_docinfo k v) s of
       (Inl (Err e), s') \<Rightarrow>
         if e = COUCHSTORE_ERROR_CORRUPT \<and> has_flag options COUCHSTORE_INCLUDE_CORRUPT_DOCS
         then bindE (couchstore_alloc_docinfo k v) (\<lambda>info.
                case info of None \<Rightarrow> throwE InvalidAccess | Some docinfo \<Rightarrow> returnE docinfo) s'
         else (Inl (Err e), s')
     | r \<Rightarrow> r)"

definition lookup_callback ::
  "u64 \<Rightarrow> bool \<Rightarrow> 'u user_callback \<Rightarrow> sized_buf option \<Rightarrow> sized_buf option \<Rightarrow> ('u cb_state, unit) cmd" where
  "lookup_callback options by_id callback k v =
     (case v of
        None \<Rightarrow> returnE ()
      | Some val \<Rightarrow>
          (case k of
             None \<Rightarrow> throwE InvalidAccess
           | Some key \<Rightarrow>
               bindE (lookup_docinfo options by_id key val) (\<lambda>docinfo.
                 if has_flag options COUCHSTORE_DELETES_ONLY \<and> \<not> di_deleted docinfo then returnE ()
                 else if has_flag options COUCHSTORE_NO_DELETES \<and> di_deleted docinfo then returnE ()
                 else case callback of
                     Changes_callback f \<Rightarrow> call_user (f docinfo)
                   | Walk_callback f \<Rightarrow>
                       bindE (getE cb_depth) (\<lambda>depth. call_user (f depth (Some docinfo) 0 None)))))"

definition couchstore_changes_since ::
  "nat \<Rightarrow> snappy \<Rightarrow> 'h couch_file_ops \<Rightarrow> bool list \<Rightarrow> u64 \<Rightarrow> u64 \<Rightarrow> 'u changes_callback \<Rightarrow> ('h db \<times> 'u, unit) cmd" where
  "couchstore_changes_since fuel sn ops allocs since options callback =
     bindE (on_db check_open) (\<lambda>_.
     bindE (on_db (getE (\<lambda>db. hd_by_seq_root (db_header db)))) (\<lambda>by_seq_root.
       case by_seq_root of
         None \<Rightarrow> returnE ()
       | Some root \<Rightarrow>
           db_lookup fuel sn ops allocs 0
             \<lparr>lr_compare = seq_cmp, lr_keys = [couchstore_encode_raw48 since],
              lr_fetch_callback = lookup_callback options False (Changes_callback callback), lr_node_callback = None\<rparr>
             True (np_pointer root)))"

definition couchstore_all_docs ::
  "nat \<Rightarrow> snappy \<Rightarrow> 'h couch_file_ops \<Rightarrow> bool list \<Rightarrow> sized_buf option \<Rightarrow> u64 \<Rightarrow> 'u changes_callback \<Rightarrow>
   ('h db \<times> 'u, unit) cmd" where
  "couchstore_all_docs fuel sn ops allocs startKeyPtr options callback =
     bindE (on_db check_open) (\<lambda>_.
     bindE (on_db (getE (\<lambda>db. hd_by_id_root (db_header db)))) (\<lambda>by_id_root.
       case by_id_root of
         None \<Rightarrow> returnE ()
       | Some root \<Rightarrow>
           db_lookup fuel sn ops allocs 0
             \<lparr>lr_compare = ebin_cmp, lr_keys = [case startKeyPtr of None \<Rightarrow> [] | Some k \<Rightarrow> k],
              lr_fetch_callback = lookup_callback options True (Changes_callback callback), lr_node_callback = None\<rparr>
             True (np_pointer root)))"

section \<open>Walking a tree\<close>

definition walk_node_callback :: "'u walk_tree_callback \<Rightarrow> u64 \<Rightarrow> sized_buf option \<Rightarrow> ('u cb_state, unit) cmd" where
  "walk_node_callback walk_callback subtreeSize reduceValue =
     (case reduceValue of
        Some red \<Rightarrow>
          bindE (getE cb_depth) (\<lambda>depth. \<lambda>s.
            case call_user (walk_callback depth None subtreeSize (Some red)) s of
              (r, s') \<Rightarrow> (r, s'\<lparr>cb_depth := depth + 1\<rparr>))
      | None \<Rightarrow> modifyE (cb_depth_update (\<lambda>depth. depth - 1)))"

definition couchstore_walk_tree ::
  "nat \<Rightarrow> snappy \<Rightarrow> 'h couch_file_ops \<Rightarrow> bool list \<Rightarrow> bool \<Rightarrow> node_pointer option \<Rightarrow> sized_buf option \<Rightarrow> u64 \<Rightarrow>
   (sized_buf \<Rightarrow> sized_buf \<Rightarrow> int) \<Rightarrow> 'u walk_tree_callback \<Rightarrow> ('h db \<times> 'u, unit) cmd" where
  "couchstore_walk_tree fuel sn ops allocs by_id root startKeyPtr options compare callback =
     bindE (on_db check_open) (\<lambda>_.
       case root of
         None \<Rightarrow> returnE ()
       | Some p \<Rightarrow>
           bindE (\<lambda>(db, u). case callback 0 None (np_subtreesize p) (Some (np_reduce_value p)) u of
                (Inl e, u') \<Rightarrow> (Inl (Err e), (db, u'))
              | (Inr keep, u') \<Rightarrow> (Inr (), (db, u'))) (\<lambda>_.
           db_lookup fuel sn ops allocs 1
             \<lparr>lr_compare = compare, lr_keys = [case startKeyPtr of None \<Rightarrow> [] | Some k \<Rightarrow> k],
              lr_fetch_callback = lookup_callback options by_id (Walk_callback callback),
              lr_node_callback = Some (walk_node_callback callback)\<rparr>
             True (np_pointer p)))"

definition couchstore_walk_id_tree ::
  "nat \<Rightarrow> snappy \<Rightarrow> 'h couch_file_ops \<Rightarrow> bool list \<Rightarrow> sized_buf option \<Rightarrow> u64 \<Rightarrow> 'u walk_tree_callback \<Rightarrow>
   ('h db \<times> 'u, unit) cmd" where
  "couchstore_walk_id_tree fuel sn ops allocs startDocID options callback =
     bindE (on_db (getE (\<lambda>db. hd_by_id_root (db_header db)))) (\<lambda>root.
       couchstore_walk_tree fuel sn ops allocs True root startDocID options ebin_cmp callback)"

definition couchstore_walk_seq_tree ::
  "nat \<Rightarrow> snappy \<Rightarrow> 'h couch_file_ops \<Rightarrow> bool list \<Rightarrow> u64 \<Rightarrow> u64 \<Rightarrow> 'u walk_tree_callback \<Rightarrow>
   ('h db \<times> 'u, unit) cmd" where
  "couchstore_walk_seq_tree fuel sn ops allocs startSequence options callback =
     bindE (on_db (getE (\<lambda>db. hd_by_seq_root (db_header db)))) (\<lambda>root.
       couchstore_walk_tree fuel sn ops allocs False root (Some (couchstore_encode_raw48 startSequence)) options seq_cmp callback)"

section \<open>Several documents at once\<close>

text \<open>\<open>by_id\<close> tells which tree is searched (the code compares the root pointers).\<close>

definition iterate_docinfos ::
  "sorter \<Rightarrow> nat \<Rightarrow> snappy \<Rightarrow> 'h couch_file_ops \<Rightarrow> bool list \<Rightarrow>
   sized_buf list \<Rightarrow> bool \<Rightarrow> node_pointer option \<Rightarrow> (sized_buf \<Rightarrow> sized_buf \<Rightarrow> int) \<Rightarrow> 'u changes_callback \<Rightarrow> bool \<Rightarrow>
   ('h db \<times> 'u, unit) cmd" where
  "iterate_docinfos qs fuel sn ops allocs ks by_id tree key_compare callback do_fold =
     bindE (on_db check_open) (\<lambda>_.
       case tree of
         None \<Rightarrow> returnE ()
       | Some root \<Rightarrow>
           bindE (unlessE (ks \<noteq> []) COUCHSTORE_ERROR_INVALID_ARGUMENTS) (\<lambda>_.
           bindE (on_db (on_db_handle (fo_malloc ops))) (\<lambda>ok.
           bindE (unlessE ok COUCHSTORE_ERROR_ALLOC_FAIL) (\<lambda>_.
             db_lookup fuel sn ops allocs 0
               \<lparr>lr_compare = key_compare, lr_keys = (if do_fold then ks else qsort qs key_compare ks),
                lr_fetch_callback = lookup_callback 0 by_id (Changes_callback callback), lr_node_callback = None\<rparr>
               do_fold (np_pointer root)))))"

definition couchstore_docinfos_by_id ::
  "sorter \<Rightarrow> nat \<Rightarrow> snappy \<Rightarrow> 'h couch_file_ops \<Rightarrow> bool list \<Rightarrow>
   sized_buf list \<Rightarrow> u64 \<Rightarrow> 'u changes_callback \<Rightarrow> ('h db \<times> 'u, unit) cmd" where
  "couchstore_docinfos_by_id qs fuel sn ops allocs ids options callback =
     bindE (on_db (getE (\<lambda>db. hd_by_id_root (db_header db)))) (\<lambda>root.
       iterate_docinfos qs fuel sn ops allocs ids True root ebin_cmp callback (has_flag options RANGES))"

definition couchstore_docinfos_by_sequence ::
  "sorter \<Rightarrow> nat \<Rightarrow> snappy \<Rightarrow> 'h couch_file_ops \<Rightarrow> bool list \<Rightarrow>
   u64 list \<Rightarrow> u64 \<Rightarrow> 'u changes_callback \<Rightarrow> ('h db \<times> 'u, unit) cmd" where
  "couchstore_docinfos_by_sequence qs fuel sn ops allocs sequence options callback =
     bindE (on_db (on_db_handle (fo_malloc ops))) (\<lambda>keylist.
     bindE (on_db (on_db_handle (fo_malloc ops))) (\<lambda>keyvalues.
     bindE (on_db check_open) (\<lambda>_.
     bindE (unlessE (keylist \<and> keyvalues) COUCHSTORE_ERROR_ALLOC_FAIL) (\<lambda>_.
     bindE (on_db (getE (\<lambda>db. hd_by_seq_root (db_header db)))) (\<lambda>root.
       iterate_docinfos qs fuel sn ops allocs (map couchstore_encode_raw48 sequence) False root seq_cmp callback
         (has_flag options RANGES))))))"

section \<open>Information about the database\<close>

record db_info =
  dbi_last_sequence :: u64
  dbi_doc_count :: u64
  dbi_deleted_count :: u64
  dbi_space_used :: u64
  dbi_file_size :: nat
  dbi_header_position :: nat
  dbi_purge_seq :: u64

definition subtree_size :: "node_pointer option \<Rightarrow> u64" where
  "subtree_size root = (case root of None \<Rightarrow> 0 | Some p \<Rightarrow> np_subtreesize p)"

text \<open>\<open>None\<close>: the reduce value of the by-id root is too short for the fields read from it.\<close>

definition couchstore_db_info :: "'h db \<Rightarrow> db_info option" where
  "couchstore_db_info db =
     (let hdr = db_header db;
          info = \<lparr>dbi_last_sequence = hd_update_seq hdr, dbi_doc_count = 0, dbi_deleted_count = 0, dbi_space_used = 0,
                  dbi_file_size = tf_pos (db_file db), dbi_header_position = hd_position hdr,
                  dbi_purge_seq = hd_purge_seq hdr\<rparr>;
          add_space = (\<lambda>i. i\<lparr>dbi_space_used := dbi_space_used i + subtree_size (hd_by_seq_root hdr) + subtree_size (hd_local_docs_root hdr)\<rparr>)
      in case hd_by_id_root hdr of
           None \<Rightarrow> Some (add_space info)
         | Some id_root \<Rightarrow>
             let red = np_reduce_value id_root
             in if length red < 16 then None
                else Some (add_space (info\<lparr>dbi_doc_count := couchstore_decode_raw40p (take 5 red),
                       dbi_deleted_count := couchstore_decode_raw40p (take 5 (drop 5 red)),
                       dbi_space_used := couchstore_decode_raw48p (take 6 (drop 10 red)) + np_subtreesize id_root\<rparr>)))"

section \<open>Local documents\<close>

definition local_doc_fetch :: "sized_buf option \<Rightarrow> sized_buf option \<Rightarrow> (local_doc option cb_state, unit) cmd" where
  "local_doc_fetch k v =
     (case v of
        None \<Rightarrow> modifyE (cb_user_update (\<lambda>_. None))
      | Some val \<Rightarrow>
          (case k of
             None \<Rightarrow> throwE InvalidAccess
           | Some key \<Rightarrow>
               bindE callback_malloc (\<lambda>ok.
                 bindE (unlessE ok COUCHSTORE_ERROR_ALLOC_FAIL) (\<lambda>_.
                   modifyE (cb_user_update (\<lambda>_. Some \<lparr>ld_id = key, ld_json = val, ld_deleted = False\<rparr>))))))"

definition couchstore_open_local_document ::
  "nat \<Rightarrow> snappy \<Rightarrow> 'h couch_file_ops \<Rightarrow> bool list \<Rightarrow> sized_buf \<Rightarrow> ('h db \<times> local_doc option, unit) cmd" where
  "couchstore_open_local_document fuel sn ops allocs ident =
     bindE (on_db check_open) (\<lambda>_.
     bindE (on_db (getE (\<lambda>db. hd_local_docs_root (db_header db)))) (\<lambda>local_docs_root.
       case local_docs_root of
         None \<Rightarrow> throwE (Err COUCHSTORE_ERROR_DOC_NOT_FOUND)
       | Some root \<Rightarrow>
           bindE (db_lookup fuel sn ops allocs 0
               \<lparr>lr_compare = ebin_cmp, lr_keys = [ident], lr_fetch_callback = local_doc_fetch, lr_node_callback = None\<rparr>
               False (np_pointer root)) (\<lambda>_.
             bindE (getE snd) (\<lambda>pDoc. unlessE (pDoc \<noteq> None) COUCHSTORE_ERROR_DOC_NOT_FOUND))))"

text \<open>An update of one of the trees of the database, with the context \<open>c\<close> for fetch callbacks.\<close>

definition db_modify ::
  "nat \<Rightarrow> snappy \<Rightarrow> 'h couch_file_ops \<Rightarrow> 'c modify_request \<Rightarrow> node_pointer option \<Rightarrow> 'c \<Rightarrow>
   ('h db, node_pointer option \<times> 'c) cmd" where
  "db_modify fuel sn ops rq root c = (\<lambda>db.
     case modify_btree fuel sn ops rq root
         \<lparr>ms_file = db_file db, ms_purging = False, ms_ctx = c, ms_res = empty_modres KP_NODE\<rparr> of
       (r, s) \<Rightarrow> (map_sum (\<lambda>e. e) (\<lambda>nroot. (nroot, ms_ctx s)) r, db\<lparr>db_file := ms_file s\<rparr>))"

definition couchstore_save_local_document ::
  "nat \<Rightarrow> snappy \<Rightarrow> 'h couch_file_ops \<Rightarrow> local_doc \<Rightarrow> ('h db, unit) cmd" where
  "couchstore_save_local_document fuel sn ops lDoc =
     bindE check_open (\<lambda>_.
     bindE (getE (\<lambda>db. hd_local_docs_root (db_header db))) (\<lambda>root.
     bindE (db_modify fuel sn ops
         \<lparr>rq_compare = ebin_cmp,
          rq_actions = [if ld_deleted lDoc then ACTION_REMOVE (ld_id lDoc) else ACTION_INSERT (ld_id lDoc) (ld_json lDoc)],
          rq_fetch_callback = None, rq_reduce = None, rq_rereduce = None, rq_purge_kp = None, rq_purge_kv = None,
          rq_compacting = False, rq_kv_chunk_threshold = DB_CHUNK_THRESHOLD, rq_kp_chunk_threshold = DB_CHUNK_THRESHOLD\<rparr>
         root ()) (\<lambda>(nroot, _).
       modify_header (hd_local_docs_root_update (\<lambda>_. nroot)))))"

section \<open>Counting changes\<close>

text \<open>
  The loop over the items of a node. \<open>descend\<close> is the recursive call; the values of an inner node have
  to hold the pointer and the count.
\<close>

fun eval_seq_items ::
  "(bool \<Rightarrow> u64 \<Rightarrow> u64 \<Rightarrow> ('h, u64) cmd) \<Rightarrow> bool \<Rightarrow> sized_buf \<Rightarrow> sized_buf \<Rightarrow> bool \<Rightarrow>
   (sized_buf \<times> sized_buf) option list \<Rightarrow> u64 \<Rightarrow> ('h, u64) cmd" where
  "eval_seq_items descend kp left right past_left_edge [] accum = returnE accum"
| "eval_seq_items descend kp left right past_left_edge (x # xs) accum =
     (case x of
        None \<Rightarrow> throwE InvalidAccess
      | Some (k, v) \<Rightarrow>
          let left_cmp = seq_cmp k left; right_cmp = seq_cmp k right
          in if left_cmp < 0 then eval_seq_items descend kp left right past_left_edge xs accum
             else if kp
             then if length v < sizeof_raw_node_pointer + 5 then throwE InvalidAccess
                  else let subcount = couchstore_decode_raw40p (take 5 (drop sizeof_raw_node_pointer v));
                           pointer = couchstore_decode_raw48p (take 6 v)
                       in if \<not> past_left_edge \<or> 0 \<le> right_cmp
                          then bindE (descend past_left_edge pointer accum) (\<lambda>accum'.
                            if 0 \<le> right_cmp then returnE accum'
                            else eval_seq_items descend kp left right True xs accum')
                          else eval_seq_items descend kp left right past_left_edge xs (accum + subcount)
             else if 0 < right_cmp then returnE accum
             else eval_seq_items descend kp left right past_left_edge xs (accum + 1))"

fun btree_eval_seq_reduce ::
  "nat \<Rightarrow> snappy \<Rightarrow> 'h couch_file_ops \<Rightarrow> sized_buf \<Rightarrow> sized_buf \<Rightarrow> bool \<Rightarrow> u64 \<Rightarrow> u64 \<Rightarrow> ('h, u64) cmd" where
  "btree_eval_seq_reduce 0 sn ops left right past_left_edge diskpos accum = throwE OutOfFuel"
| "btree_eval_seq_reduce (Suc fuel) sn ops left right past_left_edge diskpos accum =
     bindE (pread_compressed sn ops (unat diskpos)) (\<lambda>nodebuf.
       case nodebuf of
         [] \<Rightarrow> throwE InvalidAccess
       | node_type # body \<Rightarrow>
           eval_seq_items (btree_eval_seq_reduce fuel sn ops left right) (node_type = 0) left right past_left_edge
             (kv_items body) accum)"

definition couchstore_changes_count ::
  "nat \<Rightarrow> snappy \<Rightarrow> 'h couch_file_ops \<Rightarrow> u64 \<Rightarrow> u64 \<Rightarrow> ('h db, u64) cmd" where
  "couchstore_changes_count fuel sn ops min_seq max_seq =
     bindE (getE (\<lambda>db. hd_by_seq_root (db_header db))) (\<lambda>by_seq_root.
       case by_seq_root of
         None \<Rightarrow> returnE 0
       | Some root \<Rightarrow>
           on_db_handle (btree_eval_seq_reduce fuel sn ops (couchstore_encode_raw48 min_seq) (couchstore_encode_raw48 max_seq)
             False (np_pointer root) 0))"

section \<open>Counting is exact\<close>

text \<open>An item in the range of sequence numbers that is asked for.\<close>

definition seq_between :: "sized_buf \<Rightarrow> sized_buf \<Rightarrow> sized_buf \<times> sized_buf \<Rightarrow> bool" where
  "seq_between left right x \<longleftrightarrow> decode_sequence_key left \<le> decode_sequence_key (fst x) \<and>
     decode_sequence_key (fst x) \<le> decode_sequence_key right"

definition seq_count :: "sized_buf \<Rightarrow> sized_buf \<Rightarrow> (sized_buf \<times> sized_buf) list \<Rightarrow> u64" where
  "seq_count left right xs = word_of_nat (length (filter (seq_between left right) xs))"

lemma seq_cmp_rel:
  "0 \<le> seq_cmp a b \<longleftrightarrow> decode_sequence_key b \<le> decode_sequence_key a"
  "0 < seq_cmp a b \<longleftrightarrow> decode_sequence_key b < decode_sequence_key a"
  by (auto simp: seq_cmp_def Let_def)

lemma seq_count_append: "seq_count left right (xs @ ys) = seq_count left right xs + seq_count left right ys"
  by (simp add: seq_count_def)

lemma seq_count_none: "(\<And>x. x \<in> set xs \<Longrightarrow> \<not> seq_between left right x) \<Longrightarrow> seq_count left right xs = 0"
  by (simp add: seq_count_def filter_empty_conv)

lemma seq_count_all: "(\<And>x. x \<in> set xs \<Longrightarrow> seq_between left right x) \<Longrightarrow> seq_count left right xs = word_of_nat (length xs)"
  by (simp add: seq_count_def filter_id_conv [THEN iffD2])

lemma seq_items_last:
  assumes "sorted_items seq_cmp xs" and "x \<in> set xs"
  shows "decode_sequence_key (fst x) \<le> decode_sequence_key (fst (last xs))"
  using seqo.sorted_items_last [OF assms] by (metis seq_cmp_rel(2) linorder_not_le)

text \<open>The loop over the items of a leaf.\<close>

lemma eval_seq_leaf:
  "sorted_items seq_cmp xs \<Longrightarrow>
     eval_seq_items descend False left right past (map Some xs) accum h = (Inr (accum + seq_count left right xs), h)"
proof (induction xs arbitrary: accum)
  case (Cons x xs)
  obtain k v where x: "x = (k, v)" by fastforce
  have IH: "eval_seq_items descend False left right past (map Some xs) a h = (Inr (a + seq_count left right xs), h)" for a
    using Cons by simp
  have below: "decode_sequence_key k < decode_sequence_key (fst y)" if "y \<in> set xs" for y
    using Cons.prems that by (auto simp: x seq_cmp_neg)
  have split: "seq_count left right (x # xs) = (if seq_between left right x then 1 else 0) + seq_count left right xs"
    by (simp add: seq_count_def)
  have none: "seq_count left right xs = 0" if "decode_sequence_key right < decode_sequence_key k"
  proof (rule seq_count_none)
    fix y assume "y \<in> set xs"
    from below [OF this] that show "\<not> seq_between left right y" by (auto simp: seq_between_def)
  qed
  show ?case
    using IH none by (auto simp: x split [unfolded x] seq_cmp_neg seq_cmp_rel seq_between_def Let_def add.assoc)
qed (simp add: seq_count_def)

context file_backend
begin

text \<open>\<open>counts m h n\<close>: run from \<open>h\<close> in a calm environment, \<open>m\<close> returns \<open>n\<close> and only reads.\<close>

definition counts :: "('h, u64) cmd \<Rightarrow> 'h \<Rightarrow> u64 \<Rightarrow> bool" where
  "counts m h n \<longleftrightarrow> (\<exists>h'. m h = (Inr n, h') \<and> calm h' \<and> reads h h')"

lemma counts_return: "inv h \<Longrightarrow> calm h \<Longrightarrow> counts (returnE n) h n" "inv h \<Longrightarrow> calm h \<Longrightarrow> m h = (Inr n, h) \<Longrightarrow> counts m h n"
  by (auto simp: counts_def intro: reads_refl)

lemma counts_bind:
  assumes "counts m h a" and "\<And>h'. calm h' \<Longrightarrow> reads h h' \<Longrightarrow> counts (f a) h' b"
  shows "counts (bindE m f) h b"
  using assms reads_trans unfolding counts_def bindE_def by fastforce

lemma eval_seq_kids:
  fixes ts :: "(node_pointer \<times> btree) list"
  assumes descend: "\<And>pt p a h. pt \<in> set ts \<Longrightarrow> inv h \<Longrightarrow> calm h \<Longrightarrow> content h = c \<Longrightarrow>
      (p \<Longrightarrow> \<forall>x\<in>set (items (snd pt)). decode_sequence_key left \<le> decode_sequence_key (fst x)) \<Longrightarrow>
      counts (descend p (np_pointer (fst pt)) a) h (a + seq_count left right (items (snd pt)))"
    and kids: "\<forall>pt\<in>set ts. bt_wf (snd pt) \<and> np_key (fst pt) = fst (last (items (snd pt))) \<and> ptr_fits (fst pt) \<and>
      np_reduce_value (fst pt) = seq_reduction (items (snd pt)) \<and> length (items (snd pt)) < 2 ^ 40"
    and "sorted_items seq_cmp (concat (map (\<lambda>pt. items (snd pt)) ts))"
    and "past \<Longrightarrow> \<forall>x\<in>set (concat (map (\<lambda>pt. items (snd pt)) ts)). decode_sequence_key left \<le> decode_sequence_key (fst x)"
    and "inv h" and "calm h" and "content h = c"
  shows "counts (eval_seq_items descend True left right past (map (\<lambda>pt. Some (ptr_item (fst pt))) ts) accum) h
    (accum + seq_count left right (concat (map (\<lambda>pt. items (snd pt)) ts)))"
  using assms
proof (induction ts arbitrary: past accum h)
  case Nil
  then show ?case by (simp add: counts_return seq_count_def)
next
  case (Cons pt ts)
  obtain p t where pt: "pt = (p, t)" by fastforce
  let ?n = decode_sequence_key and ?rest = "concat (map (\<lambda>pt. items (snd pt)) ts)"
  let ?loop = "\<lambda>past a. eval_seq_items descend True left right past (map (\<lambda>pt. Some (ptr_item (fst pt))) ts) a"
  have t: "bt_wf t" "np_key p = fst (last (items t))" "ptr_fits p" "np_reduce_value p = seq_reduction (items t)"
      "length (items t) < 2 ^ 40" using Cons.prems(2) by (simp_all add: pt)
  have sorted: "sorted_items seq_cmp (items t)" "sorted_items seq_cmp ?rest"
      "\<And>x y. x \<in> set (items t) \<Longrightarrow> y \<in> set ?rest \<Longrightarrow> ?n (fst x) < ?n (fst y)"
    using Cons.prems(3) by (auto simp: pt sorted_items_append seq_cmp_neg)
  have last: "last (items t) \<in> set (items t)" using items_nonempty [OF t(1)] by simp
  have upto: "?n (fst x) \<le> ?n (np_key p)" if "x \<in> set (items t)" for x
    using seq_items_last [OF sorted(1) that] t(2) by simp
  have after: "?n (np_key p) < ?n (fst y)" if "y \<in> set ?rest" for y using sorted(3) [OF last that] t(2) by simp
  have IH: "counts (?loop p' a) h' (a + seq_count left right ?rest)"
    if "inv h'" "calm h'" "content h' = c" "p' \<Longrightarrow> \<forall>x\<in>set ?rest. ?n left \<le> ?n (fst x)" for p' a h'
    by (rule Cons.IH) (use Cons.prems(1,2) sorted that in auto)
  have down: "counts (descend past (np_pointer p) accum) h (accum + seq_count left right (items t))"
    using Cons.prems(1) [of pt h past accum] Cons.prems(4-7) by (auto simp: pt)
  have total: "accum + seq_count left right (concat (map (\<lambda>pt. items (snd pt)) (pt # ts))) =
      accum + seq_count left right (items t) + seq_count left right ?rest"
    by (simp add: pt seq_count_append)
  have raw: "\<not> length (raw_node_pointer p) < sizeof_raw_node_pointer + 5"
      "couchstore_decode_raw48p (take 6 (raw_node_pointer p)) = np_pointer p"
      "couchstore_decode_raw40p (take 5 (drop sizeof_raw_node_pointer (raw_node_pointer p))) = word_of_nat (length (items t))"
    using t(3-5) by (simp_all add: raw_node_pointer_def ptr_fits_def sizeof_raw_node_pointer_def seq_reduction_def unat_of_nat take_bit_nat_eq_self)
  show ?case
  proof (cases "?n (np_key p) < ?n left")
    case True
    then have "seq_count left right (items t) = 0"
      using upto by (intro seq_count_none) (force simp: seq_between_def)
    then show ?thesis unfolding total using IH [OF Cons.prems(5-7), of past accum] Cons.prems(4) True
      by (simp add: pt ptr_item_def [of p] seq_cmp_neg Let_def)
  next
    case left: False
    show ?thesis
    proof (cases "past \<and> ?n (np_key p) < ?n right")
      case True
      then have "seq_count left right (items t) = word_of_nat (length (items t))"
        using upto Cons.prems(4) by (intro seq_count_all) (force simp: seq_between_def pt)
      then show ?thesis unfolding total using IH [OF Cons.prems(5-7), of past] Cons.prems(4) left True raw leD [of "?n right" "?n (np_key p)"]
        by (auto simp add: pt ptr_item_def [of p] seq_cmp_neg seq_cmp_rel Let_def not_le)
    next
      case False
      have step: "eval_seq_items descend True left right past (map (\<lambda>pt. Some (ptr_item (fst pt))) (pt # ts)) accum =
          bindE (descend past (np_pointer p) accum) (\<lambda>a. if ?n right \<le> ?n (np_key p) then returnE a else ?loop True a)"
        using left False raw by (auto simp: pt ptr_item_def [of p] seq_cmp_neg seq_cmp_rel Let_def not_le not_less)
      show ?thesis unfolding step total
      proof (rule counts_bind [OF down])
        fix h' assume h': "calm h'" "reads h h'"
        have i: "inv h'" "content h' = c" using readsD [OF h'(2)] Cons.prems(7) by auto
        show "counts (if ?n right \<le> ?n (np_key p) then returnE (accum + seq_count left right (items t))
              else ?loop True (accum + seq_count left right (items t))) h'
            (accum + seq_count left right (items t) + seq_count left right ?rest)"
        proof (cases "?n right \<le> ?n (np_key p)")
          case True
          then have "seq_count left right ?rest = 0" using after by (intro seq_count_none) (force simp: seq_between_def)
          then show ?thesis using True i h'(1) by (simp add: counts_return)
        next
          case False
          have "\<forall>x\<in>set ?rest. ?n left \<le> ?n (fst x)" using after left by force
          then show ?thesis using IH [OF i(1) h'(1) i(2)] False by simp
        qed
      qed
    qed
  qed
qed

lemma btree_eval_seq_reduce_calm:
  assumes "on_disk sn c (unat pos) t" and "bt_wf t" and "reduce_wf seq_reduction t" and "sorted_items seq_cmp (items t)"
    and "height t < fuel" and "length (items t) < 2 ^ 40" and "inv h" and "calm h" and "content h = c"
    and "past \<Longrightarrow> \<forall>x\<in>set (items t). decode_sequence_key left \<le> decode_sequence_key (fst x)"
  shows "counts (btree_eval_seq_reduce fuel sn ops left right past pos accum) h (accum + seq_count left right (items t))"
  using assms
proof (induction t arbitrary: fuel pos past accum h rule: btree_induct)
  case (KV xs)
  then obtain n where n: "fuel = Suc n" by (cases fuel) auto
  have items: "kv_items (node_body xs) = map Some xs" using KV.prems(1) by (intro kv_items_node_body) simp
  obtain h1 where h1: "pread_compressed sn ops (unat pos) h = (Inr (1 # node_body xs), h1)" "calm h1" "reads h h1"
    by (rule pread_compressed_calm [OF KV.prems(7,8), of sn "unat pos" "1 # node_body xs"]) (use KV.prems(1,9) in simp_all)
  moreover have "sorted_items seq_cmp xs" using KV.prems(4) by simp
  ultimately show ?case by (auto simp: n counts_def bindE_Inr items eval_seq_leaf)
next
  case (KP ts)
  then obtain n where n: "fuel = Suc n" by (cases fuel) auto
  let ?items = "map (\<lambda>pt. ptr_item (fst pt)) ts"
  have disk: "disk_compressed sn c (unat pos) = Some (0 # node_body ?items)"
      "\<forall>pt\<in>set ts. ptr_fits (fst pt) \<and> kv_fits (np_key (fst pt)) (raw_node_pointer (fst pt)) \<and> on_disk sn c (unat (np_pointer (fst pt))) (snd pt)"
    using KP.prems(1) by simp_all
  have "kv_items (node_body ?items) = map Some ?items" using disk(2) by (intro kv_items_node_body) (auto simp: ptr_item_def)
  then have items: "kv_items (node_body ?items) = map (\<lambda>pt. Some (ptr_item (fst pt))) ts" by simp
  obtain h1 where h1: "pread_compressed sn ops (unat pos) h = (Inr (0 # node_body ?items), h1)" "calm h1" "reads h h1"
    by (rule pread_compressed_calm [OF KP.prems(7,8), of sn "unat pos" "0 # node_body ?items"]) (use disk(1) KP.prems(9) in simp_all)
  have i1: "inv h1" "content h1 = c" using readsD [OF h1(3)] KP.prems(9) by auto
  have small: "length (items (snd pt)) < 2 ^ 40" "height (snd pt) < n" "sorted_items seq_cmp (items (snd pt))" if pt: "pt \<in> set ts" for pt
  proof -
    obtain as bs where "ts = as @ pt # bs" using split_list [OF pt] by blast
    then show "length (items (snd pt)) < 2 ^ 40" "sorted_items seq_cmp (items (snd pt))"
      using KP.prems(4,6) by (auto simp: sorted_items_append)
    show "height (snd pt) < n" using height_child [OF pt] KP.prems(5) n by linarith
  qed
  have "counts (eval_seq_items (btree_eval_seq_reduce n sn ops left right) True left right past
      (map (\<lambda>pt. Some (ptr_item (fst pt))) ts) accum) h1 (accum + seq_count left right (concat (map (\<lambda>pt. items (snd pt)) ts)))"
  proof (rule eval_seq_kids [where c = c])
    fix pt p a h'
    assume pt: "pt \<in> set ts" and h': "inv h'" "calm h'" "content h' = c"
      and p: "p \<Longrightarrow> \<forall>x\<in>set (items (snd pt)). decode_sequence_key left \<le> decode_sequence_key (fst x)"
    show "counts (btree_eval_seq_reduce n sn ops left right p (np_pointer (fst pt)) a) h' (a + seq_count left right (items (snd pt)))"
      by (rule KP.IH [OF pt]) (use pt h' p disk(2) KP.prems(2,3) small [OF pt] in auto)
  qed (use disk(2) KP.prems(2-4,10) small i1 h1(2) in auto)
  then show ?case using h1 reads_trans [OF h1(3)] by (auto simp: n counts_def bindE_Inr items)
qed

end

text \<open>
  C25. Counting changes is exact: \<open>couchstore_changes_count\<close> returns the number of documents in the
  by-sequence index with a sequence number from \<open>min_seq\<close> to \<open>max_seq\<close>, though it reads only the two edges of the
  range and trusts the stored reductions in between. Enough fuel is one more than the height of the tree.
\<close>

theorem changes_count_exact:
  assumes "os.binv (handle_of db)" and "os.bcalm (handle_of db)"
    and "tree_at sn (\<lambda>_. True) seq_reduction (os.bcontent (handle_of db)) (hd_by_seq_root (db_header db)) xs"
    and "sorted_items seq_cmp xs" and "length xs < 2 ^ 40" and "unat min_seq < 2 ^ 48" and "unat max_seq < 2 ^ 48"
  shows "\<exists>N. \<forall>fuel\<ge>N. \<exists>db'. couchstore_changes_count fuel sn (buffered_file_ops default_file_ops) min_seq max_seq db =
    (Inr (word_of_nat (length (filter (\<lambda>x. min_seq \<le> decode_sequence_key (fst x) \<and> decode_sequence_key (fst x) \<le> max_seq) xs))), db')"
proof (cases "hd_by_seq_root (db_header db)")
  case None
  then show ?thesis using assms(3) by (simp add: tree_at_def couchstore_changes_count_def)
next
  case (Some p)
  let ?left = "couchstore_encode_raw48 min_seq" and ?right = "couchstore_encode_raw48 max_seq"
  obtain t where t: "items t = xs" "on_disk sn (os.bcontent (handle_of db)) (unat (np_pointer p)) t" "bt_wf t" "reduce_wf seq_reduction t"
    using assms(3) Some by (auto simp: tree_at_def)
  have count: "seq_count ?left ?right xs =
      word_of_nat (length (filter (\<lambda>x. min_seq \<le> decode_sequence_key (fst x) \<and> decode_sequence_key (fst x) \<le> max_seq) xs))"
    using assms(6,7) by (simp add: seq_count_def seq_between_def [abs_def] decode_sequence_key_def)
  have "\<exists>db'. couchstore_changes_count fuel sn (buffered_file_ops default_file_ops) min_seq max_seq db = (Inr (seq_count ?left ?right xs), db')"
    if "Suc (height t) \<le> fuel" for fuel
  proof -
    have "buf.counts (btree_eval_seq_reduce fuel sn (buffered_file_ops default_file_ops) ?left ?right False (np_pointer p) 0)
        (handle_of db) (0 + seq_count ?left ?right (items t))"
      by (rule buf.btree_eval_seq_reduce_calm [OF t(2,3,4)]) (use assms t(1) that in auto)
    then show ?thesis using Some t(1) by (auto simp: buf.counts_def couchstore_changes_count_def on_db_handle_app)
  qed
  then show ?thesis unfolding count by blast
qed

section \<open>Instances\<close>

text \<open>A database whose file holds one leaf with the items \<open>xs\<close> at its start, with that as the tree \<open>f\<close> of its header.\<close>

definition leaf_root :: "sized_buf \<Rightarrow> node_pointer" where
  "leaf_root red = \<lparr>np_key = [], np_pointer = 0, np_reduce_value = red, np_subtreesize = 0\<rparr>"

definition leaf_db :: "(sized_buf \<times> sized_buf) list \<Rightarrow> (db_header \<Rightarrow> db_header) \<Rightarrow> os_file buffered_file_handle db" where
  "leaf_db xs f = \<lparr>db_file = \<lparr>tf_pos = length (os_content (leaf_file xs)),
       tf_handle = (handle_of empty_db)\<lparr>bh_raw := leaf_file xs\<rparr>\<rparr>, db_header = f empty_header, db_dropped = False\<rparr>"

lemma leaf_db_simps [simp]:
  "db_header (leaf_db xs f) = f empty_header" "\<not> db_dropped (leaf_db xs f)" "os.bcontent (handle_of (leaf_db xs f)) = os_content (leaf_file xs)"
  by (simp_all add: leaf_db_def empty_db_def os.bcontent_def wb_overlay_def new_buffer_def)

lemma leaf_db_ready: "os.binv (handle_of (leaf_db xs f))" "os.bcalm (handle_of (leaf_db xs f))" "buf.ready (db_file (leaf_db xs f))"
  using leaf_file_calm [of xs]
  by (simp_all add: leaf_db_def empty_db_def os.binv_def os.bcached_def os.bcalm_def wb_ok_def rb_ok_def new_buffer_def buffer_end_def
      buf.ready_def buf.can_write_def os.bcontent_def wb_overlay_def)

lemma leaf_db_tree:
  assumes "xs \<noteq> []" and "\<forall>x\<in>set xs. ok x \<and> kv_fits (fst x) (snd x)" and "length (node_body xs) < 2 ^ 31 - 1"
  shows "tree_at plain_codec ok red (os_content (leaf_file xs)) (Some (leaf_root (red xs))) xs"
  using assms leaf_file_on_disk [of xs] by (auto simp: tree_at_def leaf_root_def intro!: exI [of _ "KV xs"])

theorem changes_count_exact_witness:
  "\<exists>N. \<forall>fuel\<ge>N. \<exists>db'. couchstore_changes_count fuel plain_codec (buffered_file_ops default_file_ops) 2 3
      (leaf_db [([0, 0, 0, 0, 0, 1], []), ([0, 0, 0, 0, 0, 3], [])]
        (hd_by_seq_root_update (\<lambda>_. Some (leaf_root (seq_reduction [([0, 0, 0, 0, 0, 1], []), ([0, 0, 0, 0, 0, 3], [])]))))) =
    (Inr 1, db')"
proof -
  let ?xs = "[([0, 0, 0, 0, 0, 1], []), ([0, 0, 0, 0, 0, 3], [])] :: (sized_buf \<times> sized_buf) list"
  have n: "decode_sequence_key [0, 0, 0, 0, 0, 1] = 1" "decode_sequence_key [0, 0, 0, 0, 0, 3] = 3"
    by (simp_all add: decode_sequence_key_def raw_defs DECODE_RAW_be_word be_word_def be_nat_Cons)
  have "tree_at plain_codec (\<lambda>_. True) seq_reduction (os_content (leaf_file ?xs)) (Some (leaf_root (seq_reduction ?xs))) ?xs"
    by (rule leaf_db_tree) (simp_all add: kv_fits_def node_body_def)
  moreover have "\<not> (2 :: u64) \<le> 1" "(1 :: u64) < 3" by (simp_all add: word_le_nat_alt word_less_nat_alt)
  ultimately show ?thesis
    using changes_count_exact [OF leaf_db_ready(1,2), of plain_codec ?xs "hd_by_seq_root_update (\<lambda>_. Some (leaf_root (seq_reduction ?xs)))" ?xs 2 3]
    by (simp add: n seq_cmp_neg)
qed

end
