(* ===== verification/Spec2Isabelle.thy ===== *)
theory Spec2Isabelle
  imports Couch_Prelude Bitfield Crc32 Node_Types Couch_Util File_Ops Iobuffer Couch_File Btree_Node Btree_Read
    Btree_Build Reduces Btree_Modify Btree_Update Db_Header Docinfo Qsort Couch_Db
begin

text \<open>
  Verification of couchstore, the storage engine of Couchbase (\<^verbatim>\<open>src/couchstore\<close>).

  \<^bold>\<open>The program.\<close> A couchstore database is one append-only file. All data is stored in chunks with a
  length and a checksum (\<^verbatim>\<open>couch_file_read.cc\<close>, \<^verbatim>\<open>couch_file_write.cc\<close>, \<^verbatim>\<open>crc32.c\<close>), through a buffering
  layer (\<^verbatim>\<open>iobuffer.cc\<close>) over the system's file operations (\<^verbatim>\<open>os.c\<close>). The first byte of every block of
  4096 bytes marks whether the block starts a header. Three B-trees, whose nodes are chunks, index the
  documents: by id, by sequence number, and the local documents. Reading a tree is \<^verbatim>\<open>btree_read.cc\<close>;
  changing one (\<^verbatim>\<open>btree_modify.cc\<close>) writes new nodes at the end of the file and leaves the old tree as it is.
  Every pointer carries a reduction of the subtree below it (\<^verbatim>\<open>reduces.cc\<close>). A header names the three roots;
  a commit appends one (\<^verbatim>\<open>couch_db.cc\<close>), and opening a file searches backwards for the last good one. The rest
  of \<^verbatim>\<open>couch_db.cc\<close> reads and enumerates documents.

  \<^bold>\<open>The model.\<close> Functions that change state are commands of an error monad (\<open>cmd\<close> of \<open>Couch_Prelude\<close>): a
  command maps a state to an error code or a value, and to the state after it, also in the case of an error.
  Byte strings are lists of \<open>8 word\<close>, and C's fixed-width integers are words of their width. A read outside a
  buffer, for which C promises nothing, is the outcome \<open>InvalidAccess\<close>. What the program does not control is a
  script in the state: how much each system call transfers, whether it is interrupted or fails, and which
  allocations fail. A theorem that does not restrict the script is about every such behaviour; \<open>calm\<close> states
  have the empty script, where every call does its whole work.

  \<^item> \<open>Couch_Prelude\<close>: the integer types, the monad with a Hoare logic, big-endian images, lists.
  \<^item> \<open>Bitfield\<close>, \<open>Crc32\<close>, \<open>Node_Types\<close>, \<open>Couch_Util\<close>: \<^verbatim>\<open>bitfield.c\<close>, \<^verbatim>\<open>crc32.c\<close>, \<^verbatim>\<open>node_types.cc\<close>, \<^verbatim>\<open>util.cc\<close>
    and \<^verbatim>\<open>fatbuf.h\<close>. Encodings and decodings are inverse, the checksum is the bit-serial CRC-32, the two key
    comparisons are linear orders (the locale \<open>key_order\<close>, interpreted as \<open>ebin\<close> and \<open>seqo\<close>).
  \<^item> \<open>File_Ops\<close>: the record of file operations (\<open>couch_file_ops\<close>) and \<^verbatim>\<open>os.c\<close> over a scripted system. The
    locale \<open>file_backend\<close> is the contract of such operations towards the layers above; its interpretation
    \<open>os\<close> is the default operations.
  \<^item> \<open>Iobuffer\<close>: \<^verbatim>\<open>iobuffer.cc\<close>. The buffering layer keeps the same contract (interpretation \<open>buf\<close>), so
    everything proved for a \<open>file_backend\<close> holds with and without it.
  \<^item> \<open>Couch_File\<close>: chunks and headers: what was written is read back or an error is reported, a changed byte
    is detected, and writing never changes a byte below the append position.
  \<^item> \<open>Btree_Node\<close>, \<open>Btree_Read\<close>: \<^verbatim>\<open>couch_btree.h\<close> and \<^verbatim>\<open>btree_read.cc\<close>. \<open>tree_at\<close> says that a balanced tree
    with given items is on disk; lookups and folds are related to the sorted list of items.
  \<^item> \<open>Reduces\<close>: \<^verbatim>\<open>reduces.cc\<close>; the locale \<open>reducer\<close> is the law that reductions of parts combine.
  \<^item> \<open>Btree_Build\<close>, \<open>Btree_Modify\<close>: the two halves of \<^verbatim>\<open>btree_modify.cc\<close>; the locales \<open>btree_builder\<close> and
    \<open>btree_modifier\<close> combine a backend, an order and a reducer, and are interpreted for the three trees.
  \<^item> \<open>Btree_Update\<close>: the contract of the B-tree as an abstract update of a sorted association list, that lookups
    agree with it, that old trees survive, and what goes wrong after failures.
  \<^item> \<open>Db_Header\<close>: \<^verbatim>\<open>couch_db.cc\<close> up to \<open>couchstore_rewind_db_header\<close>: the header is found again after a commit, torn or
    damaged headers are skipped, rewinding goes to the previous one.
  \<^item> \<open>Docinfo\<close>: the stored forms of document metadata, written by \<^verbatim>\<open>couch_save.cc\<close> and read by \<^verbatim>\<open>couch_db.cc\<close>.
  \<^item> \<open>Couch_Db\<close>: the rest of \<^verbatim>\<open>couch_db.cc\<close>: document lookup and bodies, changes, walks, local documents,
    database information and counting.

  \<^bold>\<open>Fuel.\<close> Loops over data are structural or have a termination proof. The recursion over the nodes of a tree
  file takes fuel, since a damaged file may contain a cycle; every theorem that promises a result shows that
  some amount of fuel is enough, and that more does not matter: for a tree on disk its height is. The retry
  loops of the file layer run over the script of the environment, which is finite, and writing a chunk takes
  at most two steps for each byte.

  \<^bold>\<open>Parameters.\<close> The compression library snappy is a record of two functions; theorems that need it assume
  \<open>snappy_ok\<close>: decompression inverts compression, and the length it announces is right. \<open>plain_codec\<close> is an
  instance. Callbacks are functions on a state of their own.

  \<^bold>\<open>Not modelled.\<close> Arenas and the freeing of memory (values have no lifetime here; allocation failures are
  modelled), messages and logging, and the advice calls of the file layer, which carry no data. Compaction,
  the tree writer and external sorting work on temporary files through stdio. The formats of secondary indexes
  under \<^verbatim>\<open>views\<close> depend on ICU's collation and on V8. Command line tools, the Windows file operations and the
  Python binding are wrappers around the functions modelled. All other directories under \<^verbatim>\<open>src\<close> are separate
  programs (the cluster manager, memcached and its engines, clients, tests) or third-party libraries.
\<close>

end
